(* ===== verification/Prelude.thy ===== *)
theory Prelude
  imports Complex_Main "HOL-Library.Signed_Division"
begin

text \<open>
  Shared vocabulary of the development: C++ machine integers read as HOL integers with
  the wrap-around written out, C string helpers, decimal printing, and the generic list
  lemmas the component theories use.

  \<^item> \<open>wrap32\<close> and \<open>wrap64\<close> are what a 32-bit and a 64-bit two's complement register
    keep of a mathematical integer; \<open>u64\<close> is \<open>static_cast<uint64_t>\<close>. Signed overflow
    is undefined in C++; the models give it the value of the two's complement machine,
    and the theorems say where it cannot occur.
  \<^item> \<open>ceil_div\<close> is the documented result of \<open>llvm::divideCeil\<close> on positive operands.
  \<^item> \<open>trunc_div\<close> (the library's \<open>sdiv\<close>) is C++'s division, which rounds towards zero.
\<close>

section \<open>Collections of facts\<close>

named_theorems range_simps \<open>numeric ranges of machine integers\<close>

section \<open>Machine integers\<close>

definition wrap32 :: "int \<Rightarrow> int" where
  "wrap32 x = signed_take_bit 31 x"

definition wrap64 :: "int \<Rightarrow> int" where
  "wrap64 x = signed_take_bit 63 x"

definition u64 :: "int \<Rightarrow> int" where
  "u64 x = take_bit 64 x"

definition in32 :: "int \<Rightarrow> bool" where
  "in32 x \<longleftrightarrow> - (2 ^ 31) \<le> x \<and> x < 2 ^ 31"

definition in64 :: "int \<Rightarrow> bool" where
  "in64 x \<longleftrightarrow> - (2 ^ 63) \<le> x \<and> x < 2 ^ 63"

lemma wrap32_id: "in32 x \<Longrightarrow> wrap32 x = x"
  by (simp add: wrap32_def in32_def signed_take_bit_int_eq_self_iff)

lemma wrap64_id: "in64 x \<Longrightarrow> wrap64 x = x"
  by (simp add: wrap64_def in64_def signed_take_bit_int_eq_self_iff)

lemma in32_wrap32 [simp, intro]: "in32 (wrap32 x)"
  using signed_take_bit_int_greater_eq_minus_exp [of 31 x]
    signed_take_bit_int_less_exp [of 31 x]
  by (simp add: wrap32_def in32_def)

lemma in64_wrap64 [simp, intro]: "in64 (wrap64 x)"
  using signed_take_bit_int_greater_eq_minus_exp [of 63 x]
    signed_take_bit_int_less_exp [of 63 x]
  by (simp add: wrap64_def in64_def)

lemma wrap64_idem [simp]: "wrap64 (wrap64 x) = wrap64 x"
  by (rule wrap64_id) simp

lemma wrap64_cong: "take_bit 64 x = take_bit 64 y \<Longrightarrow> wrap64 x = wrap64 y"
  unfolding wrap64_def signed_take_bit_eq_iff_take_bit_eq by simp

lemma take_bit_wrap64 [simp]: "take_bit 64 (wrap64 x) = take_bit 64 x"
  by (simp add: wrap64_def take_bit_signed_take_bit)

lemma wrap64_add: "wrap64 (wrap64 x + wrap64 y) = wrap64 (x + y)"
  by (rule wrap64_cong) (metis take_bit_add take_bit_wrap64)

lemma wrap64_diff: "wrap64 (wrap64 x - wrap64 y) = wrap64 (x - y)"
  by (rule wrap64_cong) (metis take_bit_diff take_bit_wrap64)

lemma wrap64_mult: "wrap64 (wrap64 x * wrap64 y) = wrap64 (x * y)"
  by (rule wrap64_cong) (metis take_bit_mult take_bit_wrap64)

lemma u64_id: "0 \<le> x \<Longrightarrow> x < 2 ^ 64 \<Longrightarrow> u64 x = x"
  by (simp add: u64_def take_bit_int_eq_self_iff)

lemma u64_nonneg [simp]: "0 \<le> u64 x"
  by (simp add: u64_def)

lemma u64_less [simp]: "u64 x < 2 ^ 64"
  unfolding u64_def by (rule take_bit_int_less_exp)

lemma wrap64_u64 [simp]: "wrap64 (u64 x) = wrap64 x"
  by (rule wrap64_cong) (simp add: u64_def)

lemma u64_wrap64 [simp]: "u64 (wrap64 x) = u64 x"
  by (simp add: u64_def)

lemma u64_of_nonneg: "in64 x \<Longrightarrow> 0 \<le> x \<Longrightarrow> u64 x = x"
  by (rule u64_id) (auto simp: in64_def)

lemma u64_eq_0_iff: "in64 x \<Longrightarrow> u64 x = 0 \<longleftrightarrow> x = 0"
  using wrap64_u64 [of x] wrap64_id [of x] by (auto simp: u64_def wrap64_def)

lemma u64_inj: "in64 x \<Longrightarrow> in64 y \<Longrightarrow> u64 x = u64 y \<longleftrightarrow> x = y"
  using wrap64_u64 [of x] wrap64_u64 [of y] wrap64_id [of x] wrap64_id [of y] by metis

lemma u64_mod: "u64 x = x mod 18446744073709551616"
  by (simp add: u64_def take_bit_eq_mod)

section \<open>Rounding division\<close>

definition ceil_div :: "int \<Rightarrow> int \<Rightarrow> int" where
  "ceil_div n d = - ((- n) div d)"

abbreviation trunc_div :: "int \<Rightarrow> int \<Rightarrow> int" where
  "trunc_div a b \<equiv> a sdiv b"

lemma trunc_div_pos: "0 \<le> a \<Longrightarrow> 0 < b \<Longrightarrow> trunc_div a b = a div b"
  by (simp add: signed_divide_int_def sgn_if)

lemma ceil_div_alt: "0 < d \<Longrightarrow> ceil_div n d = (n + d - 1) div d"
proof -
  assume d: "0 < d"
  obtain q r where n: "n = d * q + r" and r: "0 \<le> r" "r < d"
    using d by (metis mult_div_mod_eq pos_mod_bound pos_mod_sign)
  show ?thesis
  proof (cases "r = 0")
    case True
    have "(n + d - 1) div d = q"
      using True n d by (intro int_div_pos_eq [where r = "d - 1"]) auto
    moreover have "(- n) div d = - q"
      using True n d by (intro int_div_pos_eq [where r = 0]) auto
    ultimately show ?thesis by (simp add: ceil_div_def)
  next
    case False
    have "(n + d - 1) div d = q + 1"
      using False n r by (intro int_div_pos_eq [where r = "r - 1"]) (auto simp: algebra_simps)
    moreover have "(- n) div d = - q - 1"
      using False n r by (intro int_div_pos_eq [where r = "d - r"]) (auto simp: algebra_simps)
    ultimately show ?thesis by (simp add: ceil_div_def)
  qed
qed

lemma ceil_div_upper: "0 < d \<Longrightarrow> n \<le> ceil_div n d * d"
proof -
  assume "0 < d"
  then have "0 \<le> (- n) mod d" by simp
  then have "(- n) div d * d \<le> - n"
    using div_mult_mod_eq [of "- n" d] by linarith
  then show ?thesis by (simp add: ceil_div_def)
qed

lemma ceil_div_least: "0 < d \<Longrightarrow> n \<le> q * d \<Longrightarrow> ceil_div n d \<le> q"
proof -
  assume d: "0 < d" and "n \<le> q * d"
  then have "(- q) * d div d \<le> (- n) div d" by (intro zdiv_mono1) auto
  moreover have "(- q) * d div d = - q"
    using d by (intro nonzero_mult_div_cancel_right) simp
  ultimately show ?thesis by (simp add: ceil_div_def)
qed

lemma ceil_div_pos: "0 < d \<Longrightarrow> 0 < n \<Longrightarrow> 1 \<le> ceil_div n d"
  using ceil_div_upper [of d n] by (smt (verit) mult_nonpos_nonneg)

lemma ceil_div_le_self: "0 < d \<Longrightarrow> 0 \<le> n \<Longrightarrow> ceil_div n d \<le> n"
  by (rule ceil_div_least) (auto simp: mult_le_cancel_left1)

lemma ceil_div_mono: "0 < d \<Longrightarrow> m \<le> n \<Longrightarrow> ceil_div m d \<le> ceil_div n d"
  by (metis ceil_div_least ceil_div_upper order_trans)

lemma ceil_div_1 [simp]: "ceil_div n 1 = n"
  by (simp add: ceil_div_def)

lemma int_div_le_self: "0 \<le> (x::int) \<Longrightarrow> 0 < y \<Longrightarrow> x div y \<le> x"
  using zdiv_mono2 [of x 1 y] by simp

end
