(* ===== verification/RuntimeConfig.thy ===== *)
theory RuntimeConfig
  imports Prelude
begin

text \<open>
  The ARTS runtime configuration (\<open>RuntimeConfig.cpp\<close>, \<open>RuntimeConfig.h\<close>): the C++
  string helpers it uses, the key/value parser of \<open>arts.cfg\<close>, the validation, and the
  worker and node counts the cost model and the launch policies read.

  The file system is a parameter (the record \<open>os\<close>); everything the parser does with the
  text it reads is modelled. Debug output is not modelled.
\<close>

section \<open>C++ string helpers\<close>

text \<open>\<open>std::isspace\<close> in the C locale: space and the control characters 9 to 13.\<close>

definition isspace :: "char \<Rightarrow> bool" where
  "isspace c \<longleftrightarrow> (of_char c :: nat) \<in> {9, 10, 11, 12, 13, 32}"

definition isdigit :: "char \<Rightarrow> bool" where
  "isdigit c \<longleftrightarrow> 48 \<le> (of_char c :: nat) \<and> (of_char c :: nat) \<le> 57"

definition digit_val :: "char \<Rightarrow> int" where
  "digit_val c = int (of_char c) - 48"

text \<open>The digits \<open>strtol\<close> consumes, most significant first.\<close>

fun scan_digits :: "int \<Rightarrow> string \<Rightarrow> int" where
  "scan_digits acc [] = acc"
| "scan_digits acc (c # cs) =
     (if isdigit c then scan_digits (10 * acc + digit_val c) cs else acc)"

text \<open>
  \<open>std::atoi\<close>: skip white space, an optional sign, then digits; no digits give 0. A value
  that does not fit is undefined by the standard; the model follows the usual library,
  which saturates at \<open>long\<close> and then keeps the low 32 bits.
\<close>

definition clamp_long :: "int \<Rightarrow> int" where
  "clamp_long x = max (- (2 ^ 63)) (min (2 ^ 63 - 1) x)"

definition atoi :: "string \<Rightarrow> int" where
  "atoi s =
     (case dropWhile isspace s of
        [] \<Rightarrow> 0
      | c # cs \<Rightarrow>
          wrap32 (clamp_long
            (if c = CHR ''-'' then - scan_digits 0 cs
             else if c = CHR ''+'' then scan_digits 0 cs
             else scan_digits 0 (c # cs))))"

definition tolower :: "char \<Rightarrow> char" where
  "tolower c =
     (let n = (of_char c :: nat) in
      if 65 \<le> n \<and> n \<le> 90 then char_of (n + 32) else c)"

text \<open>
  \<open>std::getline\<close> with a delimiter until the stream is exhausted: a trailing delimiter does
  not start another item, and the empty input has no item.
\<close>

fun getlines_aux :: "char \<Rightarrow> string \<Rightarrow> string \<Rightarrow> string list" where
  "getlines_aux d acc [] = (if acc = [] then [] else [rev acc])"
| "getlines_aux d acc (c # cs) =
     (if c = d then rev acc # getlines_aux d [] cs else getlines_aux d (c # acc) cs)"

definition getlines :: "char \<Rightarrow> string \<Rightarrow> string list" where
  "getlines d s = getlines_aux d [] s"

section \<open>The string helpers of RuntimeConfig\<close>

definition trim :: "string \<Rightarrow> string" where
  "trim s = rev (dropWhile isspace (rev (dropWhile isspace s)))"

definition splitCSV :: "string \<Rightarrow> string list" where
  "splitCSV s =
     (let out = map trim (getlines (CHR '','') s)
      in if out = [] \<and> s \<noteq> [] then out @ [trim s] else out)"

definition parseInt :: "string \<Rightarrow> int \<Rightarrow> int" where
  "parseInt value defaultValue = (if value = [] then defaultValue else atoi value)"

definition parseBool :: "string \<Rightarrow> bool \<Rightarrow> bool" where
  "parseBool value defaultValue =
     (if value = [] then defaultValue
      else let lower = map tolower value
           in lower = ''1'' \<or> lower = ''true'' \<or> lower = ''yes'' \<or> lower = ''on'')"

text \<open>\<open>line.find('=')\<close> and the two \<open>substr\<close> around it.\<close>

definition split_eq :: "string \<Rightarrow> (string \<times> string) option" where
  "split_eq line =
     (if CHR ''='' \<in> set line
      then Some (takeWhile (\<lambda>c. c \<noteq> CHR ''='') line,
                 tl (dropWhile (\<lambda>c. c \<noteq> CHR ''='') line))
      else None)"

section \<open>The configuration object\<close>

datatype execution_mode = SingleThreaded | IntraNode | InterNode

record runtime_config =
  threads :: int
  nodeCount :: int
  nodes :: "string list"
  masterNode :: string
  launcher :: string
  scheduler :: int
  gpu :: int
  gpuRouteTableSize :: int
  gpuLocality :: int
  gpuFit :: int
  gpuLCSync :: int
  gpuBufferOn :: bool
  gpuMaxMemory :: int
  gpuMaxEdts :: int
  outgoing :: int
  incoming :: int
  ports :: int
  protocol :: string
  port :: int
  netInterface :: string
  pinStride :: int
  workerInitDequeSize :: int
  routeTableSize :: int
  minIterationsPerWorker :: int
  coreDump :: bool
  counterFolder :: string
  counterStartPoint :: int
  killMode :: bool
  configPath :: string
  configFileExists :: bool
  isValidFlag :: bool

definition default_config :: runtime_config where
  "default_config = \<lparr>
     threads = 1, nodeCount = 1,
     nodes = [''localhost''], masterNode = ''localhost'', launcher = ''ssh'',
     scheduler = 0, gpu = 0, gpuRouteTableSize = 12, gpuLocality = 0, gpuFit = 0,
     gpuLCSync = 0, gpuBufferOn = True, gpuMaxMemory = -1, gpuMaxEdts = -1,
     outgoing = 0, incoming = 0, ports = 0, protocol = ''tcp'', port = 34739,
     netInterface = '''',
     pinStride = 1, workerInitDequeSize = 2048, routeTableSize = 16,
     minIterationsPerWorker = 0, coreDump = False,
     counterFolder = ''./counters'', counterStartPoint = 1, killMode = False,
     configPath = '''', configFileExists = False, isValidFlag = False\<rparr>"

text \<open>The \<open>if\<close>/\<open>else if\<close> chain of the parser: an unknown key changes nothing.\<close>

definition apply_key :: "string \<Rightarrow> string \<Rightarrow> runtime_config \<Rightarrow> runtime_config" where
  "apply_key key val c =
    (if key = ''worker_threads'' then c\<lparr>threads := parseInt val (-1)\<rparr>
     else if key = ''node_count'' then c\<lparr>nodeCount := parseInt val (-1)\<rparr>
     else if key = ''nodes'' then c\<lparr>nodes := splitCSV val\<rparr>
     else if key = ''master_node'' then c\<lparr>masterNode := val\<rparr>
     else if key = ''launcher'' then c\<lparr>launcher := val\<rparr>
     else if key = ''scheduler'' then c\<lparr>scheduler := parseInt val 0\<rparr>
     else if key = ''gpu'' then c\<lparr>gpu := parseInt val 0\<rparr>
     else if key = ''gpu_route_table_size'' then c\<lparr>gpuRouteTableSize := parseInt val 12\<rparr>
     else if key = ''gpu_locality'' then c\<lparr>gpuLocality := parseInt val 0\<rparr>
     else if key = ''gpu_fit'' then c\<lparr>gpuFit := parseInt val 0\<rparr>
     else if key = ''gpu_lc_sync'' then c\<lparr>gpuLCSync := parseInt val 0\<rparr>
     else if key = ''gpu_buff_on'' then c\<lparr>gpuBufferOn := parseBool val True\<rparr>
     else if key = ''gpu_max_memory'' then c\<lparr>gpuMaxMemory := parseInt val (-1)\<rparr>
     else if key = ''gpu_max_edts'' then c\<lparr>gpuMaxEdts := parseInt val (-1)\<rparr>
     else if key = ''sender_threads'' then c\<lparr>outgoing := parseInt val 0\<rparr>
     else if key = ''receiver_threads'' then c\<lparr>incoming := parseInt val 0\<rparr>
     else if key = ''port_count'' then c\<lparr>ports := parseInt val 0\<rparr>
     else if key = ''protocol'' then c\<lparr>protocol := val\<rparr>
     else if key = ''default_ports'' then c\<lparr>port := parseInt val 34739\<rparr>
     else if key = ''net_interface'' then c\<lparr>netInterface := val\<rparr>
     else if key = ''pin'' then c\<lparr>pinStride := parseInt val 1\<rparr>
     else if key = ''worker_init_deque_size'' then c\<lparr>workerInitDequeSize := parseInt val 2048\<rparr>
     else if key = ''route_table_size'' then c\<lparr>routeTableSize := parseInt val 16\<rparr>
     else if key = ''min_iterations_per_worker''
       then c\<lparr>minIterationsPerWorker := parseInt val 0\<rparr>
     else if key = ''core_dump'' then c\<lparr>coreDump := parseBool val False\<rparr>
     else if key = ''counter_folder'' then c\<lparr>counterFolder := val\<rparr>
     else if key = ''counter_capture_interval'' then c\<lparr>counterStartPoint := parseInt val 1\<rparr>
     else if key = ''kill_mode'' then c\<lparr>killMode := parseBool val False\<rparr>
     else c)"

text \<open>
  The state of the \<open>while (std::getline(in, line))\<close> loop is the section flag and the
  object. One iteration is \<open>parse_line\<close>.
\<close>

type_synonym parse_state = "bool \<times> runtime_config"

definition parse_line :: "parse_state \<Rightarrow> string \<Rightarrow> parse_state" where
  "parse_line st raw =
     (case st of (inArtsSection, c) \<Rightarrow>
       let line = trim raw in
       if line = [] \<or> hd line = CHR ''#'' then (inArtsSection, c)
       else if hd line = CHR ''['' \<and> last line = CHR '']'' then (line = ''[ARTS]'', c)
       else if \<not> inArtsSection then (inArtsSection, c)
       else (case split_eq line of
               None \<Rightarrow> (inArtsSection, c)
             | Some (k, v) \<Rightarrow> (inArtsSection, apply_key (trim k) (trim v) c)))"

definition parse_lines :: "parse_state \<Rightarrow> string list \<Rightarrow> parse_state" where
  "parse_lines st ls = foldl parse_line st ls"

text \<open>The loop of \<open>parseFromFile\<close> on the text of the file.\<close>

definition parse_text :: "string \<Rightarrow> runtime_config \<Rightarrow> runtime_config" where
  "parse_text text c = snd (parse_lines (False, c) (getlines (CHR ''\<newline>'') text))"

section \<open>Validation\<close>

definition hasGpuSupport :: "runtime_config \<Rightarrow> bool" where
  "hasGpuSupport c \<longleftrightarrow> scheduler c = 3 \<and> 0 < gpu c"

text \<open>
  \<open>validateConfiguration\<close> keeps a flag that each failed check clears; \<open>nodes.size()\<close> is
  cast to \<open>int\<close> before the comparison.
\<close>

definition validateConfiguration :: "runtime_config \<Rightarrow> bool \<times> runtime_config" where
  "validateConfiguration c =
     (let isSlurm = (launcher c = ''slurm'');
          v1 = (\<not> threads c \<le> 0);
          v2 = (v1 \<and> \<not> nodeCount c \<le> 0);
          v3 = (if isSlurm then v2
                else (let w1 = (if nodes c = [] then False
                                else if wrap32 (int (length (nodes c))) \<noteq> nodeCount c
                                then False else v2)
                      in if nodes c \<noteq> [] \<and> masterNode c \<notin> set (nodes c)
                         then False else w1));
          v4 = (if hasGpuSupport c
                then (let g1 = (if gpu c \<le> 0 then False else v3)
                      in if scheduler c \<noteq> 3 then False else g1)
                else v3)
      in (v4, c\<lparr>isValidFlag := v4\<rparr>))"

section \<open>Reading the file\<close>

record os =
  current_path :: "string option"
  absolute_path :: "string \<Rightarrow> string option"
  read_file :: "string \<Rightarrow> string option"

text \<open>\<open>cwd / "arts.cfg"\<close> inserts a separator unless the left side ends with one.\<close>

definition path_append :: "string \<Rightarrow> string \<Rightarrow> string" where
  "path_append d f = (if d = [] \<or> last d = CHR ''/'' then d @ f else d @ ''/'' @ f)"

definition parseFromFile :: "os \<Rightarrow> string \<Rightarrow> runtime_config \<Rightarrow> bool \<times> runtime_config" where
  "parseFromFile fs path c =
     (case read_file fs path of
        None \<Rightarrow> (False, c)
      | Some text \<Rightarrow> (True, parse_text text (c\<lparr>configFileExists := True\<rparr>)))"

definition RuntimeConfig_new :: "os \<Rightarrow> string \<Rightarrow> runtime_config" where
  "RuntimeConfig_new fs configFile =
     (let path = (if configFile \<noteq> []
                  then (case absolute_path fs configFile of None \<Rightarrow> configFile | Some p \<Rightarrow> p)
                  else (case current_path fs of None \<Rightarrow> [] | Some d \<Rightarrow> path_append d ''arts.cfg''));
          c0 = default_config\<lparr>configPath := path\<rparr>
      in case parseFromFile fs path c0 of
           (False, c) \<Rightarrow> c\<lparr>configFileExists := False\<rparr>
         | (True, c) \<Rightarrow> snd (validateConfiguration c))"

section \<open>Derived machine facts\<close>

definition getRuntimeWorkersPerNode :: "runtime_config \<Rightarrow> int" where
  "getRuntimeWorkersPerNode c =
     (let workers = threads c;
          workers = (if nodeCount c \<le> 1
                     then wrap32 (workers + wrap32 (outgoing c + incoming c)) else workers)
      in if 0 < workers then workers else 1)"

definition getRuntimeTotalWorkers :: "runtime_config \<Rightarrow> int" where
  "getRuntimeTotalWorkers c =
     (let nodesCount = (if 0 < nodeCount c then nodeCount c else 1)
      in wrap32 (nodesCount * getRuntimeWorkersPerNode c))"

definition getExecutionMode :: "runtime_config \<Rightarrow> execution_mode" where
  "getExecutionMode c =
     (if 1 < nodeCount c then InterNode
      else if 1 < getRuntimeWorkersPerNode c then IntraNode
      else SingleThreaded)"

section \<open>Facts about the string helpers\<close>

definition joinCSV :: "string list \<Rightarrow> string" where
  "joinCSV xs = concat (map (\<lambda>x. x @ '','') (butlast xs)) @ (if xs = [] then [] else last xs)"

fun show_nat :: "nat \<Rightarrow> string" where
  "show_nat n = (if n < 10 then [char_of (48 + n)] else show_nat (n div 10) @ [char_of (48 + n mod 10)])"

declare show_nat.simps [simp del]

definition show_int :: "int \<Rightarrow> string" where
  "show_int i = (if i < 0 then CHR ''-'' # show_nat (nat (- i)) else show_nat (nat i))"

lemma trim_decompose:
  "\<exists>p q. s = p @ trim s @ q \<and> list_all isspace p \<and> list_all isspace q"
proof -
  let ?t = "dropWhile isspace s"
  have s: "s = takeWhile isspace s @ ?t" by simp
  have t: "rev ?t = takeWhile isspace (rev ?t) @ dropWhile isspace (rev ?t)" by simp
  have "?t = trim s @ rev (takeWhile isspace (rev ?t))"
    by (metis t rev_append rev_rev_ident trim_def)
  with s have "s = takeWhile isspace s @ trim s @ rev (takeWhile isspace (rev ?t))" by metis
  moreover have "list_all isspace (takeWhile isspace s)"
    and "list_all isspace (rev (takeWhile isspace (rev ?t)))"
    by (auto simp: list_all_iff dest: set_takeWhileD)
  ultimately show ?thesis by blast
qed

lemma trim_last: "trim s \<noteq> [] \<Longrightarrow> \<not> isspace (last (trim s))"
  by (metis hd_dropWhile hd_rev rev_is_Nil_conv rev_rev_ident trim_def)

lemma trim_hd: "trim s \<noteq> [] \<Longrightarrow> \<not> isspace (hd (trim s))"
proof -
  assume ne: "trim s \<noteq> []"
  let ?t = "dropWhile isspace s"
  have "rev ?t = takeWhile isspace (rev ?t) @ rev (trim s)" by (simp add: trim_def)
  then have "?t = trim s @ rev (takeWhile isspace (rev ?t))"
    by (metis rev_append rev_rev_ident)
  with ne have "hd ?t = hd (trim s)" and "?t \<noteq> []"
    by (metis hd_append2, metis append_is_Nil_conv)
  then show ?thesis by (metis hd_dropWhile)
qed

definition trimmed :: "string \<Rightarrow> bool" where
  "trimmed s \<longleftrightarrow> s = [] \<or> (\<not> isspace (hd s) \<and> \<not> isspace (last s))"

lemma trimmed_trim [simp]: "trimmed (trim s)"
  using trim_hd trim_last by (auto simp: trimmed_def)

lemma dropWhile_all: "list_all P p \<Longrightarrow> dropWhile P (p @ s) = dropWhile P s"
  by (induction p) auto

lemma trim_padded:
  assumes "list_all isspace p" "list_all isspace q" "trimmed s"
  shows "trim (p @ s @ q) = s"
proof (cases "s = []")
  case True
  have "list_all isspace (p @ q)" using assms by simp
  then have "dropWhile isspace (p @ q) = []" by (simp only: dropWhile_eq_Nil_conv list_all_iff)
  with True show ?thesis by (simp only: trim_def append_Nil dropWhile.simps rev.simps)
next
  case False
  then have h: "dropWhile isspace (s @ q) = s @ q" and l: "dropWhile isspace (rev s) = rev s"
    using assms(3) by (cases s, auto simp: trimmed_def) (cases s rule: rev_cases, auto)
  have "list_all isspace (rev q)" using assms(2) by (simp add: list_all_iff)
  with h l show ?thesis
    by (simp add: trim_def dropWhile_all [OF assms(1)] dropWhile_all)
qed

lemma trim_trimmed [simp]: "trimmed s \<Longrightarrow> trim s = s"
  using trim_padded [of "[]" "[]" s] by simp

lemma getlines_aux_item:
  "d \<notin> set x \<Longrightarrow> getlines_aux d acc (x @ d # rest) = (rev acc @ x) # getlines_aux d [] rest"
  by (induction x arbitrary: acc) auto

lemma getlines_aux_last:
  "d \<notin> set x \<Longrightarrow> getlines_aux d acc x = (if rev acc @ x = [] then [] else [rev acc @ x])"
  by (induction x arbitrary: acc) auto

lemma getlines_join:
  assumes "\<forall>x\<in>set xs. d \<notin> set x" "d \<notin> set y"
  shows "getlines d (concat (map (\<lambda>x. x @ [d]) xs) @ y) = xs @ (if y = [] then [] else [y])"
  using assms unfolding getlines_def
  by (induction xs) (simp_all add: getlines_aux_item getlines_aux_last)

lemma isdigit_char_of: "n < 10 \<Longrightarrow> isdigit (char_of (48 + n)) \<and> digit_val (char_of (48 + n)) = int n"
  by (simp add: isdigit_def digit_val_def)

lemma scan_digits_append:
  "list_all isdigit xs \<Longrightarrow> scan_digits acc (xs @ ys) = scan_digits (scan_digits acc xs) ys"
  by (induction xs arbitrary: acc) auto

lemma show_nat_digits: "list_all isdigit (show_nat n)"
proof (induction n rule: show_nat.induct)
  case (1 n)
  then show ?case
    using isdigit_char_of [of n] isdigit_char_of [of "n mod 10"]
    by (subst show_nat.simps) auto
qed

lemma show_nat_nonempty: "show_nat n \<noteq> []"
  by (subst show_nat.simps) simp

lemma scan_show_nat: "scan_digits 0 (show_nat n) = int n"
proof (induction n rule: show_nat.induct)
  case (1 n)
  show ?case
  proof (cases "n < 10")
    case True
    then show ?thesis using isdigit_char_of [of n] by (subst show_nat.simps) simp
  next
    case False
    have "int n = 10 * int (n div 10) + int (n mod 10)" by presburger
    with False 1 show ?thesis using isdigit_char_of [of "n mod 10"]
      by (subst show_nat.simps) (simp add: scan_digits_append show_nat_digits)
  qed
qed

lemma isdigit_not: "isdigit c \<Longrightarrow> \<not> isspace c \<and> c \<noteq> CHR ''-'' \<and> c \<noteq> CHR ''+''"
  by (auto simp: isdigit_def isspace_def)

lemma atoi_show_int: "in32 i \<Longrightarrow> atoi (show_int i) = i"
proof -
  assume i: "in32 i"
  then have cl: "wrap32 (clamp_long i) = i"
    by (auto simp: clamp_long_def in32_def intro: wrap32_id)
  show ?thesis
  proof (cases "i < 0")
    case True
    then show ?thesis using cl
      by (simp add: atoi_def show_int_def isspace_def scan_show_nat)
  next
    case False
    obtain c cs where s: "show_nat (nat i) = c # cs" by (metis neq_Nil_conv show_nat_nonempty)
    then have "isdigit c" using show_nat_digits [of "nat i"] by simp
    then have nc: "\<not> isspace c" "c \<noteq> CHR ''-''" "c \<noteq> CHR ''+''" using isdigit_not by auto
    have "scan_digits 0 (c # cs) = i" using scan_show_nat [of "nat i"] s False by simp
    with False cl nc s show ?thesis by (simp add: atoi_def show_int_def del: scan_digits.simps)
  qed
qed

section \<open>Facts about the parser\<close>

definition plain_key :: "string \<Rightarrow> bool" where
  "plain_key k \<longleftrightarrow> k \<noteq> [] \<and> trimmed k \<and> CHR ''='' \<notin> set k \<and> hd k \<noteq> CHR ''#'' \<and> hd k \<noteq> CHR ''[''"

lemma trimmed_assign:
  "plain_key k \<Longrightarrow> trimmed v \<Longrightarrow> trimmed (k @ CHR ''='' # v)"
  by (auto simp: plain_key_def trimmed_def isspace_def)

lemma split_eq_assign: "CHR ''='' \<notin> set k \<Longrightarrow> split_eq (k @ CHR ''='' # v) = Some (k, v)"
proof -
  assume "CHR ''='' \<notin> set k"
  then have "\<forall>c\<in>set k. c \<noteq> CHR ''=''" by metis
  then show ?thesis by (simp add: split_eq_def takeWhile_append2 dropWhile_append2)
qed

lemma parse_line_padded:
  assumes k: "plain_key k" and v: "trimmed v"
    and sp: "list_all isspace p" "list_all isspace q" "list_all isspace r" "list_all isspace t"
    and v': "v = [] \<longrightarrow> r = []"
  shows "parse_line (True, c) (p @ (k @ q @ CHR ''='' # r @ v) @ t) = (True, apply_key k v c)"
proof -
  have rv: "trimmed (k @ q @ CHR ''='' # r @ v)"
    using k v v' by (cases "v = []") (auto simp: plain_key_def trimmed_def isspace_def)
  have line: "trim (p @ (k @ q @ CHR ''='' # r @ v) @ t) = k @ q @ CHR ''='' # r @ v"
    using sp rv by (intro trim_padded)
  have ne: "CHR ''='' \<notin> set (k @ q)"
    using k sp(2) by (auto simp: plain_key_def list_all_iff isspace_def)
  have sep: "split_eq (k @ q @ CHR ''='' # r @ v) = Some (k @ q, r @ v)"
    using split_eq_assign [OF ne, of "r @ v"] by simp
  have tk: "trim (k @ q) = k" and tv: "trim (r @ v) = v"
    using trim_padded [of "[]" q k] trim_padded [of r "[]" v] k v sp by (auto simp: plain_key_def)
  show ?thesis unfolding parse_line_def line using k sep tk tv
    by (auto simp: plain_key_def Let_def hd_append)
qed

lemma parse_line_assign:
  "plain_key k \<Longrightarrow> trimmed v \<Longrightarrow> parse_line (True, c) (k @ CHR ''='' # v) = (True, apply_key k v c)"
  using parse_line_padded [of k v "[]" "[]" "[]" "[]" c] by simp

lemma parse_line_skip:
  "trim l = [] \<or> hd (trim l) = CHR ''#'' \<Longrightarrow> parse_line st l = st"
  by (auto simp: parse_line_def Let_def split: prod.splits)

lemma parse_line_outside:
  "trim l \<noteq> ''[ARTS]'' \<Longrightarrow> parse_line (False, c) l = (False, c)"
  by (auto simp: parse_line_def Let_def)

lemma parse_line_section: "parse_line (b, c) ''[ARTS]'' = (True, c)"
  by (simp add: parse_line_def trim_def isspace_def)

lemma parse_lines_simps [simp]:
  "parse_lines st [] = st"
  "parse_lines st (l # ls) = parse_lines (parse_line st l) ls"
  "parse_lines st (xs @ ys) = parse_lines (parse_lines st xs) ys"
  by (simp_all add: parse_lines_def)

lemma show_int_char: "c \<in> set (show_int i) \<Longrightarrow> isdigit c \<or> c = CHR ''-''"
  using show_nat_digits by (auto simp: show_int_def list_all_iff split: if_splits)

lemma show_int_no_space: "c \<in> set (show_int i) \<Longrightarrow> \<not> isspace c"
  using show_int_char [of c i] isdigit_not [of c] by (auto simp: isspace_def)

lemma trimmed_show_int [simp]: "trimmed (show_int i)"
  using show_int_no_space [of "hd (show_int i)" i] show_int_no_space [of "last (show_int i)" i]
  by (auto simp: trimmed_def)

lemma show_int_no_newline: "CHR ''\<newline>'' \<notin> set (show_int i)"
  using show_int_char [of "CHR ''\<newline>''" i] by (auto simp: isdigit_def)

lemma show_int_nonempty: "show_int i \<noteq> []"
  by (simp add: show_int_def show_nat_nonempty)

lemma parseInt_show_int: "in32 i \<Longrightarrow> parseInt (show_int i) d = i"
  by (simp add: parseInt_def show_int_nonempty atoi_show_int)

lemma splitCSV_join:
  assumes "xs \<noteq> []" "\<forall>x\<in>set xs. trimmed x \<and> CHR '','' \<notin> set x" "last xs \<noteq> []"
  shows "splitCSV (joinCSV xs) = xs"
proof -
  have "getlines (CHR '','') (joinCSV xs) = butlast xs @ [last xs]"
    using getlines_join [of "butlast xs" "CHR '',''" "last xs"] assms
    by (auto simp: joinCSV_def dest: in_set_butlastD)
  moreover have "map trim xs = xs" using assms(2) by (induction xs) auto
  ultimately show ?thesis using assms(1) by (simp add: splitCSV_def)
qed

lemma joinCSV_Cons: "xs \<noteq> [] \<Longrightarrow> joinCSV (x # xs) = x @ CHR '','' # joinCSV xs"
  by (simp add: joinCSV_def)

lemma joinCSV_trimmed:
  assumes "xs \<noteq> []" "\<forall>x\<in>set xs. trimmed x" "last xs \<noteq> []"
  shows "joinCSV xs \<noteq> [] \<and> trimmed (joinCSV xs)"
  using assms
proof (induction xs)
  case (Cons x xs)
  show ?case
  proof (cases "xs = []")
    case True
    with Cons.prems show ?thesis by (simp add: joinCSV_def)
  next
    case False
    with Cons have "joinCSV xs \<noteq> [] \<and> trimmed (joinCSV xs)" by auto
    with False Cons.prems show ?thesis
      by (cases x) (auto simp: joinCSV_Cons trimmed_def isspace_def)
  qed
qed simp

lemma joinCSV_set: "c \<in> set (joinCSV xs) \<Longrightarrow> c = CHR '','' \<or> (\<exists>x\<in>set xs. c \<in> set x)"
  by (auto simp: joinCSV_def dest: in_set_butlastD split: if_splits)

section \<open>Printing a configuration file\<close>

text \<open>
  The specification's printer: the file a user writes for the fields the compiler reads.
  It is not code of the repository; it states what the parser accepts.
\<close>

definition config_lines :: "runtime_config \<Rightarrow> string list" where
  "config_lines c =
     [''[ARTS]'',
      ''worker_threads='' @ show_int (threads c),
      ''node_count='' @ show_int (nodeCount c),
      ''nodes='' @ joinCSV (nodes c),
      ''master_node='' @ masterNode c,
      ''launcher='' @ launcher c,
      ''scheduler='' @ show_int (scheduler c),
      ''gpu='' @ show_int (gpu c),
      ''sender_threads='' @ show_int (outgoing c),
      ''receiver_threads='' @ show_int (incoming c),
      ''min_iterations_per_worker='' @ show_int (minIterationsPerWorker c)]"

definition render_config :: "runtime_config \<Rightarrow> string" where
  "render_config c = concat (map (\<lambda>l. l @ [CHR ''\<newline>'']) (config_lines c))"

definition text_ok :: "string \<Rightarrow> bool" where
  "text_ok s \<longleftrightarrow> trimmed s \<and> CHR ''\<newline>'' \<notin> set s"

definition printable_config :: "runtime_config \<Rightarrow> bool" where
  "printable_config c \<longleftrightarrow>
     list_all in32 [threads c, nodeCount c, scheduler c, gpu c, outgoing c, incoming c,
       minIterationsPerWorker c] \<and>
     nodes c \<noteq> [] \<and> last (nodes c) \<noteq> [] \<and>
     list_all (\<lambda>x. text_ok x \<and> CHR '','' \<notin> set x) (nodes c) \<and>
     text_ok (masterNode c) \<and> text_ok (launcher c)"

lemma plain_keys:
  "plain_key ''worker_threads''" "plain_key ''node_count''" "plain_key ''nodes''"
  "plain_key ''master_node''" "plain_key ''launcher''" "plain_key ''scheduler''"
  "plain_key ''gpu''" "plain_key ''sender_threads''" "plain_key ''receiver_threads''"
  "plain_key ''min_iterations_per_worker''"
  by (simp_all add: plain_key_def trimmed_def isspace_def)

lemma joinCSV_ok: "printable_config c \<Longrightarrow>
    trimmed (joinCSV (nodes c)) \<and> CHR ''\<newline>'' \<notin> set (joinCSV (nodes c)) \<and>
    splitCSV (joinCSV (nodes c)) = nodes c"
  using joinCSV_trimmed [of "nodes c"] splitCSV_join [of "nodes c"]
    joinCSV_set [of "CHR ''\<newline>''" "nodes c"]
  by (auto simp: printable_config_def text_ok_def list_all_iff)

lemma config_lines_no_newline:
  "printable_config c \<Longrightarrow> \<forall>l\<in>set (config_lines c). CHR ''\<newline>'' \<notin> set l"
  using joinCSV_ok [of c] show_int_no_newline
  by (simp add: config_lines_def printable_config_def text_ok_def)

lemmas parse_line_keys = plain_keys [THEN parse_line_assign, simplified]

lemma parse_config_lines:
  assumes "printable_config c"
  shows "parse_lines (False, d) (config_lines c) =
    (True, d\<lparr>threads := threads c, nodeCount := nodeCount c, nodes := nodes c,
       masterNode := masterNode c, launcher := launcher c, scheduler := scheduler c,
       gpu := gpu c, outgoing := outgoing c, incoming := incoming c,
       minIterationsPerWorker := minIterationsPerWorker c\<rparr>)"
  using assms joinCSV_ok [OF assms]
  by (simp add: config_lines_def parse_line_section parse_line_keys apply_key_def
      parseInt_show_int printable_config_def text_ok_def)

section \<open>Properties\<close>

text \<open>
  C38: \<open>trim\<close> removes exactly the white space at both ends: the input is the result between
  two blocks of white space, and the result neither starts nor ends with white space.
\<close>

theorem trim_spec:
  "\<exists>p q. s = p @ trim s @ q \<and> list_all isspace p \<and> list_all isspace q \<and>
     (trim s = [] \<or> (\<not> isspace (hd (trim s)) \<and> \<not> isspace (last (trim s))))"
  using trim_decompose [of s] trim_hd [of s] trim_last [of s] by blast

text \<open>
  C39: the list value of a configuration survives printing and parsing: joining node names
  with commas and splitting the result with \<open>splitCSV\<close> gives the names back, when they
  hold no comma, carry no white space at their ends and the last one is not empty (a
  trailing empty item is lost, as \<open>std::getline\<close> does not report it).
\<close>

theorem splitCSV_roundtrip:
  assumes "xs \<noteq> []" "\<forall>x\<in>set xs. trimmed x \<and> CHR '','' \<notin> set x" "last xs \<noteq> []"
  shows "splitCSV (joinCSV xs) = xs"
  using assms by (rule splitCSV_join)

theorem splitCSV_roundtrip_witness:
  "splitCSV (joinCSV [''node01'', '''', ''node02'']) = [''node01'', '''', ''node02'']"
  by (rule splitCSV_roundtrip) (auto simp: trimmed_def isspace_def)

text \<open>
  C26: parsing the printed configuration file restores every printed field and leaves the
  other fields of the object as they were.
\<close>

theorem parse_render_roundtrip:
  assumes "printable_config c"
  shows "parse_text (render_config c) d =
    d\<lparr>threads := threads c, nodeCount := nodeCount c, nodes := nodes c,
      masterNode := masterNode c, launcher := launcher c, scheduler := scheduler c,
      gpu := gpu c, outgoing := outgoing c, incoming := incoming c,
      minIterationsPerWorker := minIterationsPerWorker c\<rparr>"
proof -
  have "getlines (CHR ''\<newline>'') (render_config c) = config_lines c"
    using getlines_join [of "config_lines c" "CHR ''\<newline>''" "[]"]
      config_lines_no_newline [OF assms] by (simp add: render_config_def)
  then show ?thesis by (simp add: parse_text_def parse_config_lines [OF assms])
qed

definition sample_config :: runtime_config where
  "sample_config = default_config\<lparr>threads := 16, nodeCount := 2,
     nodes := [''n0'', ''n1''], masterNode := ''n0''\<rparr>"

theorem parse_render_roundtrip_witness:
  "printable_config sample_config \<and>
   nodes (parse_text (render_config sample_config) default_config) = [''n0'', ''n1'']"
proof -
  have p: "printable_config sample_config"
    by (simp add: printable_config_def sample_config_def default_config_def in32_def
        text_ok_def trimmed_def isspace_def)
  show ?thesis using p parse_render_roundtrip [OF p, of default_config]
    by (simp add: sample_config_def)
qed

text \<open>
  C40: only lines of the \<open>[ARTS]\<close> section configure the compiler. Lines before its header
  change nothing; once another section starts, lines change nothing until the next
  \<open>[ARTS]\<close> header; comment lines and blank lines can be put anywhere.
\<close>

theorem parse_section_isolation:
  assumes "\<forall>l\<in>set before. trim l \<noteq> ''[ARTS]''"
    and "\<forall>l\<in>set after. trim l \<noteq> ''[ARTS]''"
    and "hd (trim other) = CHR ''[''" "last (trim other) = CHR '']''" "trim other \<noteq> ''[ARTS]''"
    and "trim other \<noteq> []" "trim note = [] \<or> hd (trim note) = CHR ''#''"
  shows "snd (parse_lines (False, c) (before @ ''[ARTS]'' # body @ note # body' @ other # after)) =
         snd (parse_lines (True, c) (body @ body'))"
proof -
  have outside: "parse_lines (False, d) ls = (False, d)"
    if "\<forall>l\<in>set ls. trim l \<noteq> ''[ARTS]''" for d ls
    using that by (induction ls) (simp_all add: parse_line_outside)
  have other: "parse_line st other = (False, snd st)" for st
    using assms(3-6) by (auto simp: parse_line_def Let_def split: prod.splits)
  show ?thesis
    by (simp add: outside assms(1,2) parse_line_section parse_line_skip [OF assms(7)] other)
qed

theorem parse_section_isolation_witness:
  "snd (parse_lines (False, default_config)
     ([''worker_threads=4''] @ ''[ARTS]'' # [''worker_threads=8''] @ ''# 9'' #
        [''node_count=2''] @ ''[OTHER]'' # [''worker_threads=3''])) =
   snd (parse_lines (True, default_config) ([''worker_threads=8''] @ [''node_count=2'']))"
  by (rule parse_section_isolation) (auto simp: trim_def isspace_def)

lemma validate_iff:
  "fst (validateConfiguration c) \<longleftrightarrow>
     0 < threads c \<and> 0 < nodeCount c \<and>
     (launcher c = ''slurm'' \<or>
      nodes c \<noteq> [] \<and> wrap32 (int (length (nodes c))) = nodeCount c \<and>
      masterNode c \<in> set (nodes c))"
  by (auto simp: validateConfiguration_def hasGpuSupport_def Let_def)

text \<open>
  C36: what a configuration accepted by \<open>validateConfiguration\<close> satisfies, and nothing
  more: positive thread and node counts and, unless the launcher is slurm, a node list of
  exactly \<open>node_count\<close> entries (counted modulo 32 bits) that holds the master node. The GPU clause of the function
  contributes nothing.
\<close>

theorem validateConfiguration_iff:
  "fst (validateConfiguration c) \<longleftrightarrow>
     0 < threads c \<and> 0 < nodeCount c \<and>
     (launcher c = ''slurm'' \<or>
      nodes c \<noteq> [] \<and> wrap32 (int (length (nodes c))) = nodeCount c \<and>
      masterNode c \<in> set (nodes c))"
  by (rule validate_iff)

text \<open>
  The GPU error branches of \<open>validateConfiguration\<close> are unreachable: they sit under
  \<open>hasGpuSupport()\<close>, which already requires \<open>scheduler == 3\<close> and \<open>gpu > 0\<close>, so no GPU
  setting, however inconsistent, changes the verdict.
\<close>

theorem gpu_validation_is_dead:
  "fst (validateConfiguration (c\<lparr>scheduler := s, gpu := g\<rparr>)) = fst (validateConfiguration c)"
  by (simp add: validate_iff)

definition workers_spec :: "runtime_config \<Rightarrow> int" where
  "workers_spec c =
     nodeCount c * (threads c + (if nodeCount c = 1 then outgoing c + incoming c else 0))"

lemma workersPerNode_pos: "in32 (threads c) \<Longrightarrow> 1 \<le> getRuntimeWorkersPerNode c"
  by (simp add: getRuntimeWorkersPerNode_def Let_def)

lemma totalWorkers_exact:
  assumes "0 < threads c" "0 < nodeCount c" "0 \<le> outgoing c" "0 \<le> incoming c"
    "workers_spec c < 2 ^ 31"
  shows "getRuntimeTotalWorkers c = workers_spec c"
proof (cases "nodeCount c = 1")
  case True
  with assms have b: "in32 (outgoing c + incoming c)"
    "in32 (threads c + (outgoing c + incoming c))"
    by (auto simp: in32_def workers_spec_def)
  with True assms show ?thesis
    by (simp add: getRuntimeTotalWorkers_def getRuntimeWorkersPerNode_def Let_def wrap32_id
        workers_spec_def)
next
  case False
  have "0 \<le> nodeCount c * threads c" using assms by (intro mult_nonneg_nonneg) auto
  moreover have "nodeCount c * threads c < 2 ^ 31" using False assms by (simp add: workers_spec_def)
  ultimately have "in32 (nodeCount c * threads c)" unfolding in32_def by linarith
  with False assms show ?thesis
    by (simp add: getRuntimeTotalWorkers_def getRuntimeWorkersPerNode_def Let_def wrap32_id
        workers_spec_def)
qed

text \<open>
  C37: on a validated configuration with non-negative sender and receiver thread counts and
  no 32-bit overflow, the total worker count is nodes times workers per node, where a
  single node reclaims its sender and receiver threads; it is at least one, and the
  execution mode is decided by it: single-threaded exactly when there is one worker in all.
\<close>

theorem runtime_workers_and_mode:
  assumes "fst (validateConfiguration c)" "0 \<le> outgoing c" "0 \<le> incoming c"
    "workers_spec c < 2 ^ 31"
  shows "getRuntimeTotalWorkers c = workers_spec c \<and> 1 \<le> getRuntimeTotalWorkers c \<and>
    (getExecutionMode c = SingleThreaded \<longleftrightarrow> getRuntimeTotalWorkers c = 1) \<and>
    (getExecutionMode c = InterNode \<longleftrightarrow> 1 < nodeCount c)"
proof -
  have pos: "0 < threads c" "0 < nodeCount c"
    using assms(1) by (auto simp: validate_iff)
  have eq: "getRuntimeTotalWorkers c = workers_spec c"
    using pos assms by (intro totalWorkers_exact)
  show ?thesis
  proof (cases "nodeCount c = 1")
    case True
    then have "getRuntimeWorkersPerNode c = getRuntimeTotalWorkers c"
      using pos assms by (auto simp: getRuntimeTotalWorkers_def getRuntimeWorkersPerNode_def
          Let_def wrap32_id in32_def workers_spec_def)
    with True eq pos assms show ?thesis by (auto simp: getExecutionMode_def workers_spec_def)
  next
    case False
    with pos have "2 * 1 \<le> nodeCount c * threads c" by (intro mult_mono) auto
    with False eq pos show ?thesis by (auto simp: getExecutionMode_def workers_spec_def)
  qed
qed

theorem runtime_workers_and_mode_witness:
  "getRuntimeTotalWorkers sample_config = 32 \<and> getExecutionMode sample_config = InterNode"
proof -
  have "fst (validateConfiguration sample_config)"
    by (simp add: validate_iff sample_config_def default_config_def wrap32_def)
  then show ?thesis using runtime_workers_and_mode [of sample_config]
    by (simp add: workers_spec_def sample_config_def default_config_def)
qed

end
