(* ===== verification/IR.thy ===== *)
theory IR
  imports Prelude
begin

text \<open>
  The part of the MLIR data model the modelled passes read: SSA values with their defining
  operations, as the C++ sees them through \<open>Value\<close>, \<open>getDefiningOp\<close>, \<open>getOperands\<close> and
  \<open>getType\<close>, and the arithmetic meaning of the integer operations of the \<open>arith\<close>
  dialect, which is the specification the value analysis is proved against.

  A \<open>val\<close> is the use-def tree of a value. Every operation carries its identity (a
  number) and a result position where it has several results, so HOL equality of values
  is the pointer equality \<open>a == b\<close> of the code: two operations with the same shape have
  different identities. A block argument of an EDT carries the dependency it is bound to.
  A load carries the operations before it in its block, nearest first, as far as the load
  folder looks at them: a store, or an operation with the stores nested in its regions.
\<close>

section \<open>Types and attributes\<close>

datatype ty =
    IndexTy
  | IntTy nat
  | FloatTy nat
  | MemRefTy "int option list" ty
  | OpaqueTy nat

text \<open>\<open>MemRefType\<close> and \<open>Type::isIndex\<close>, \<open>Type::isIntOrIndex\<close> tests.\<close>

fun isIndex :: "ty \<Rightarrow> bool" where
  "isIndex IndexTy = True"
| "isIndex _ = False"

fun isMemRef :: "ty \<Rightarrow> bool" where
  "isMemRef (MemRefTy _ _) = True"
| "isMemRef _ = False"

fun isIntOrIndex :: "ty \<Rightarrow> bool" where
  "isIntOrIndex IndexTy = True"
| "isIntOrIndex (IntTy _) = True"
| "isIntOrIndex _ = False"

text \<open>
  An integer attribute holds its value read as signed at its own width. A boolean attribute
  is an integer attribute of type \<open>i1\<close>, so the signed reading of \<open>true\<close> is -1.
\<close>

datatype attr = IntAttr int | BoolAttr bool | FloatAttr rat | OtherAttr nat

section \<open>Operations\<close>

datatype binop =
    AddI | SubI | MulI | DivUI | DivSI | CeilDivUI | CeilDivSI | RemUI | RemSI
  | MaxUI | MaxSI | MinUI | MinSI | AndI | OrI | XOrI | ShLI | ShRUI | ShRSI

datatype castop = IndexCast | IndexCastUI | ExtSI | ExtUI | TruncI | ExtF | TruncF

datatype cmp_pred = Ceq | Cne | Cslt | Csle | Csgt | Csge | Cult | Cule | Cugt | Cuge

datatype alloc_op = Alloc | Alloca | GetGlobal

datatype view_op =
  SubView | MemCast | MemView | ReinterpretCast | SubIndex | Pointer2Memref | Memref2Pointer | GEP

datatype query_kind = TotalWorkers | TotalNodes | CurrentWorker | CurrentNode

datatype val =
    BlockArg nat nat ty "val option"
  | Const nat ty attr
  | Bin nat ty binop val val
  | Cast nat ty castop val
  | CmpI nat cmp_pred val val
  | CmpF nat val val
  | Select nat ty val val val
  | TypeSize nat ty
  | RuntimeQuery nat ty query_kind
  | AllocLike nat ty alloc_op "val list"
  | ViewLike nat ty view_op val "val list"
  | Unrealized nat nat ty "val list"
  | Load nat ty val "val list" "stmt list"
  | DbAlloc nat nat ty "val list" "val list"
  | DbAcquire nat nat ty "val option" val "val list" "val list"
  | DbRef nat ty val "val list"
  | OtherOp nat nat ty string "val list"
and stmt =
    Store val val "val list"
  | Nested "stmt list"

text \<open>\<open>getType\<close>.\<close>

fun type_of :: "val \<Rightarrow> ty" where
  "type_of (BlockArg _ _ t _) = t"
| "type_of (Const _ t _) = t"
| "type_of (Bin _ t _ _ _) = t"
| "type_of (Cast _ t _ _) = t"
| "type_of (CmpI _ _ _ _) = IntTy 1"
| "type_of (CmpF _ _ _) = IntTy 1"
| "type_of (Select _ t _ _ _) = t"
| "type_of (TypeSize _ _) = IndexTy"
| "type_of (RuntimeQuery _ t _) = t"
| "type_of (AllocLike _ t _ _) = t"
| "type_of (ViewLike _ t _ _ _) = t"
| "type_of (Unrealized _ _ t _) = t"
| "type_of (Load _ t _ _ _) = t"
| "type_of (DbAlloc _ _ t _ _) = t"
| "type_of (DbAcquire _ _ t _ _ _ _) = t"
| "type_of (DbRef _ t _ _) = t"
| "type_of (OtherOp _ _ t _ _) = t"

text \<open>\<open>getOperands\<close> of the defining operation; a block argument has no defining operation.\<close>

fun operands :: "val \<Rightarrow> val list" where
  "operands (BlockArg _ _ _ _) = []"
| "operands (Const _ _ _) = []"
| "operands (Bin _ _ _ a b) = [a, b]"
| "operands (Cast _ _ _ a) = [a]"
| "operands (CmpI _ _ a b) = [a, b]"
| "operands (CmpF _ a b) = [a, b]"
| "operands (Select _ _ c a b) = [c, a, b]"
| "operands (TypeSize _ _) = []"
| "operands (RuntimeQuery _ _ _) = []"
| "operands (AllocLike _ _ _ xs) = xs"
| "operands (ViewLike _ _ _ s xs) = s # xs"
| "operands (Unrealized _ _ _ xs) = xs"
| "operands (Load _ _ m xs _) = m # xs"
| "operands (DbAlloc _ _ _ xs ys) = xs @ ys"
| "operands (DbAcquire _ _ _ g p xs ys) = (case g of None \<Rightarrow> [] | Some a \<Rightarrow> [a]) @ p # xs @ ys"
| "operands (DbRef _ _ s xs) = s # xs"
| "operands (OtherOp _ _ _ _ xs) = xs"

text \<open>\<open>getName\<close> of the defining operation: what \<open>opA->getName() != opB->getName()\<close> compares.\<close>

datatype op_name =
    NConst | NBin binop | NCast castop | NCmpI | NCmpF | NSelect | NTypeSize | NRuntimeQuery
  | NAlloc alloc_op | NView view_op | NUnrealized | NLoad | NDbAlloc | NDbAcquire | NDbRef
  | NOther string

fun op_name_of :: "val \<Rightarrow> op_name option" where
  "op_name_of (BlockArg _ _ _ _) = None"
| "op_name_of (Const _ _ _) = Some NConst"
| "op_name_of (Bin _ _ f _ _) = Some (NBin f)"
| "op_name_of (Cast _ _ c _) = Some (NCast c)"
| "op_name_of (CmpI _ _ _ _) = Some NCmpI"
| "op_name_of (CmpF _ _ _) = Some NCmpF"
| "op_name_of (Select _ _ _ _ _) = Some NSelect"
| "op_name_of (TypeSize _ _) = Some NTypeSize"
| "op_name_of (RuntimeQuery _ _ _) = Some NRuntimeQuery"
| "op_name_of (AllocLike _ _ k _) = Some (NAlloc k)"
| "op_name_of (ViewLike _ _ k _ _) = Some (NView k)"
| "op_name_of (Unrealized _ _ _ _) = Some NUnrealized"
| "op_name_of (Load _ _ _ _ _) = Some NLoad"
| "op_name_of (DbAlloc _ _ _ _ _) = Some NDbAlloc"
| "op_name_of (DbAcquire _ _ _ _ _ _ _) = Some NDbAcquire"
| "op_name_of (DbRef _ _ _ _) = Some NDbRef"
| "op_name_of (OtherOp _ _ _ s _) = Some (NOther s)"

lemma operands_size: "x \<in> set (operands v) \<Longrightarrow> size x < size v"
  by (cases v) (auto simp: less_Suc_eq_le trans_le_add1 trans_le_add2 size_list_estimation'
      split: option.splits dest!: size_list_estimation' [of _ _ _ size, OF _ le_refl])

section \<open>Arithmetic meaning\<close>

text \<open>
  The value of an integer expression under an environment, as a signed integer at the width
  of its type (64 bits for \<open>index\<close>), following the \<open>arith\<close> dialect: arithmetic is modulo
  two to the width, \<open>u\<close> operations read their operands as unsigned, and division by zero,
  signed division overflow and oversized shifts have no value. The environment gives the
  block arguments, the results of operations outside integer arithmetic, the answers of
  the runtime queries, and type sizes.
\<close>

record env =
  arg_val :: "nat \<Rightarrow> nat \<Rightarrow> int"
  op_val :: "nat \<Rightarrow> nat \<Rightarrow> int"
  query_val :: "query_kind \<Rightarrow> int"
  type_bytes :: "ty \<Rightarrow> int"

fun width :: "ty \<Rightarrow> nat" where
  "width (IntTy n) = n"
| "width _ = 64"

definition sgn_at :: "ty \<Rightarrow> int \<Rightarrow> int" where
  "sgn_at t x = signed_take_bit (width t - 1) x"

definition uns_at :: "ty \<Rightarrow> int \<Rightarrow> int" where
  "uns_at t x = take_bit (width t) x"

fun bin_sem :: "ty \<Rightarrow> binop \<Rightarrow> int \<Rightarrow> int \<Rightarrow> int option" where
  "bin_sem t AddI x y = Some (sgn_at t (x + y))"
| "bin_sem t SubI x y = Some (sgn_at t (x - y))"
| "bin_sem t MulI x y = Some (sgn_at t (x * y))"
| "bin_sem t DivUI x y = (if y = 0 then None else Some (sgn_at t (uns_at t x div uns_at t y)))"
| "bin_sem t DivSI x y =
     (if y = 0 \<or> sgn_at t (trunc_div x y) \<noteq> trunc_div x y then None else Some (trunc_div x y))"
| "bin_sem t CeilDivUI x y =
     (if y = 0 then None else Some (sgn_at t (ceil_div (uns_at t x) (uns_at t y))))"
| "bin_sem t CeilDivSI x y =
     (if y = 0 \<or> sgn_at t (ceil_div x y) \<noteq> ceil_div x y then None else Some (ceil_div x y))"
| "bin_sem t RemUI x y = (if y = 0 then None else Some (sgn_at t (uns_at t x mod uns_at t y)))"
| "bin_sem t RemSI x y = (if y = 0 then None else Some (sgn_at t (x - y * trunc_div x y)))"
| "bin_sem t MaxUI x y = Some (if uns_at t x \<le> uns_at t y then y else x)"
| "bin_sem t MaxSI x y = Some (max x y)"
| "bin_sem t MinUI x y = Some (if uns_at t x \<le> uns_at t y then x else y)"
| "bin_sem t MinSI x y = Some (min x y)"
| "bin_sem t AndI x y = Some (sgn_at t (and x y))"
| "bin_sem t OrI x y = Some (sgn_at t (or x y))"
| "bin_sem t XOrI x y = Some (sgn_at t (xor x y))"
| "bin_sem t ShLI x y =
     (if uns_at t y \<ge> int (width t) then None else Some (sgn_at t (push_bit (nat (uns_at t y)) x)))"
| "bin_sem t ShRUI x y =
     (if uns_at t y \<ge> int (width t) then None
      else Some (sgn_at t (drop_bit (nat (uns_at t y)) (uns_at t x))))"
| "bin_sem t ShRSI x y =
     (if uns_at t y \<ge> int (width t) then None else Some (sgn_at t (drop_bit (nat (uns_at t y)) x)))"

fun cmp_sem :: "ty \<Rightarrow> cmp_pred \<Rightarrow> int \<Rightarrow> int \<Rightarrow> bool" where
  "cmp_sem t Ceq x y = (x = y)"
| "cmp_sem t Cne x y = (x \<noteq> y)"
| "cmp_sem t Cslt x y = (x < y)"
| "cmp_sem t Csle x y = (x \<le> y)"
| "cmp_sem t Csgt x y = (y < x)"
| "cmp_sem t Csge x y = (y \<le> x)"
| "cmp_sem t Cult x y = (uns_at t x < uns_at t y)"
| "cmp_sem t Cule x y = (uns_at t x \<le> uns_at t y)"
| "cmp_sem t Cugt x y = (uns_at t y < uns_at t x)"
| "cmp_sem t Cuge x y = (uns_at t y \<le> uns_at t x)"

fun cast_sem :: "ty \<Rightarrow> ty \<Rightarrow> castop \<Rightarrow> int \<Rightarrow> int option" where
  "cast_sem s t IndexCast x = Some (sgn_at t x)"
| "cast_sem s t IndexCastUI x = Some (sgn_at t (uns_at s x))"
| "cast_sem s t ExtSI x = Some (sgn_at t x)"
| "cast_sem s t ExtUI x = Some (sgn_at t (uns_at s x))"
| "cast_sem s t TruncI x = Some (sgn_at t x)"
| "cast_sem s t ExtF x = None"
| "cast_sem s t TruncF x = None"

fun const_sem :: "ty \<Rightarrow> attr \<Rightarrow> int option" where
  "const_sem t (IntAttr n) = Some (sgn_at t n)"
| "const_sem t (BoolAttr b) = Some (if b then -1 else 0)"
| "const_sem t (FloatAttr r) = None"
| "const_sem t (OtherAttr n) = None"

fun eval :: "env \<Rightarrow> val \<Rightarrow> int option" where
  "eval e (BlockArg b n t d) = Some (sgn_at t (arg_val e b n))"
| "eval e (Const i t a) = const_sem t a"
| "eval e (Bin i t f a b) =
     (case eval e a of None \<Rightarrow> None
      | Some x \<Rightarrow> (case eval e b of None \<Rightarrow> None | Some y \<Rightarrow> bin_sem t f x y))"
| "eval e (Cast i t c a) =
     (case eval e a of None \<Rightarrow> None | Some x \<Rightarrow> cast_sem (type_of a) t c x)"
| "eval e (CmpI i p a b) =
     (case eval e a of None \<Rightarrow> None
      | Some x \<Rightarrow> (case eval e b of None \<Rightarrow> None
                   | Some y \<Rightarrow> Some (if cmp_sem (type_of a) p x y then -1 else 0)))"
| "eval e (CmpF i a b) = Some (sgn_at (IntTy 1) (op_val e i 0))"
| "eval e (Select i t c a b) =
     (case eval e c of None \<Rightarrow> None | Some x \<Rightarrow> if x \<noteq> 0 then eval e a else eval e b)"
| "eval e (TypeSize i s) = Some (sgn_at IndexTy (type_bytes e s))"
| "eval e (RuntimeQuery i t k) = Some (sgn_at t (query_val e k))"
| "eval e (AllocLike i t k xs) = Some (sgn_at t (op_val e i 0))"
| "eval e (ViewLike i t k s xs) = Some (sgn_at t (op_val e i 0))"
| "eval e (Unrealized i n t xs) = Some (sgn_at t (op_val e i n))"
| "eval e (Load i t m xs ps) = Some (sgn_at t (op_val e i 0))"
| "eval e (DbAlloc i n t xs ys) = Some (sgn_at t (op_val e i n))"
| "eval e (DbAcquire i n t g p xs ys) = Some (sgn_at t (op_val e i n))"
| "eval e (DbRef i t s xs) = Some (sgn_at t (op_val e i 0))"
| "eval e (OtherOp i n t s xs) = Some (sgn_at t (op_val e i n))"

lemma sgn_at_64: "width t = 64 \<Longrightarrow> sgn_at t x = wrap64 x"
  by (simp add: sgn_at_def wrap64_def)

lemma uns_at_64: "width t = 64 \<Longrightarrow> uns_at t x = u64 x"
  by (simp add: uns_at_def u64_def)

lemma sgn_at_index [simp]: "sgn_at IndexTy x = wrap64 x"
  by (simp add: sgn_at_64)

lemma uns_at_index [simp]: "uns_at IndexTy x = u64 x"
  by (simp add: uns_at_64)

lemma sgn_at_idem [simp]: "sgn_at t (sgn_at t x) = sgn_at t x"
  by (simp add: sgn_at_def)

lemma in64_sgn_at: "width t \<le> 64 \<Longrightarrow> in64 (sgn_at t x)"
proof -
  assume "width t \<le> 64"
  then have "(2::int) ^ (width t - 1) \<le> 2 ^ 63" by (intro power_increasing) auto
  then show ?thesis
    using signed_take_bit_int_greater_eq_minus_exp [of "width t - 1" x]
      signed_take_bit_int_less_exp [of "width t - 1" x]
    unfolding sgn_at_def in64_def by linarith
qed

end
