(* ===== verification/ValueAnalysis.thy ===== *)
theory ValueAnalysis
  imports IR
begin

text \<open>
  The static value analysis shared by all dialects (\<open>ValueAnalysis.cpp\<close>, and the ARTS
  extensions of \<open>ValueAnalysisUtils.cpp\<close>): cast stripping, constant folding, equivalence
  and non-zero proofs, offset decomposition, and the tracing of memory roots.

  MLIR's bounds solver, the data layout and the module attributes are parameters (the
  record \<open>mlir\<close>); what is assumed of them is stated where it is used. \<open>Value\<close> arguments
  are non-null; a null result is \<open>None\<close>.
\<close>

section \<open>Services of MLIR the analysis calls\<close>

record mlir =
  are_equal :: "val \<Rightarrow> val \<Rightarrow> bool option"
  const_lower_bound :: "val \<Rightarrow> int option"
  const_upper_bound :: "val \<Rightarrow> int option"
  layout_size :: "ty \<Rightarrow> int"
  pointer_size :: int
  llvm_compatible :: "ty \<Rightarrow> bool"
  in_module :: "nat \<Rightarrow> bool"
  runtime_total_workers :: "int option"
  runtime_total_nodes :: "int option"

type_synonym folder = "val \<Rightarrow> nat \<Rightarrow> int option"

definition proveValuesEqualWithBounds :: "mlir \<Rightarrow> val \<Rightarrow> val \<Rightarrow> bool option" where
  "proveValuesEqualWithBounds P lhs rhs =
     (if \<not> isIndex (type_of lhs) \<or> \<not> isIndex (type_of rhs) then None
      else are_equal P lhs rhs)"

definition proveValueAtLeast :: "mlir \<Rightarrow> val \<Rightarrow> int \<Rightarrow> bool option" where
  "proveValueAtLeast P v minValue =
     (if \<not> isIndex (type_of v) then None
      else map_option (\<lambda>lb. minValue \<le> lb) (const_lower_bound P v))"

definition proveValueNonZero :: "mlir \<Rightarrow> val \<Rightarrow> bool option" where
  "proveValueNonZero P v =
     (if \<not> isIndex (type_of v) then None
      else if proveValueAtLeast P v 1 = Some True then Some True
      else map_option (\<lambda>ub. ub \<le> -1) (const_upper_bound P v))"

section \<open>Stripping casts and views\<close>

text \<open>The loop of \<open>stripNumericCasts\<close>: \<open>index_castui\<close> is not one of the casts it looks through.\<close>

fun stripNumericCasts :: "val \<Rightarrow> val" where
  "stripNumericCasts (Cast i t c a) =
     (if c = IndexCastUI then Cast i t c a else stripNumericCasts a)"
| "stripNumericCasts v = v"

fun stripMemrefViewOps :: "val \<Rightarrow> val" where
  "stripMemrefViewOps (Unrealized i n t xs) =
     (case xs of [x] \<Rightarrow> stripMemrefViewOps x | _ \<Rightarrow> Unrealized i n t xs)"
| "stripMemrefViewOps (ViewLike i t k s xs) =
     (if k \<in> {MemCast, SubView, MemView, ReinterpretCast, SubIndex}
      then stripMemrefViewOps s else ViewLike i t k s xs)"
| "stripMemrefViewOps v = v"

lemma size_stripNumericCasts: "size (stripNumericCasts v) \<le> size v"
  by (induction v rule: stripNumericCasts.induct) auto

lemma size_stripNumericCasts_le: "size v \<le> n \<Longrightarrow> size (stripNumericCasts v) \<le> n"
  using size_stripNumericCasts order_trans by blast

lemma stripNumericCasts_idem [simp]: "stripNumericCasts (stripNumericCasts v) = stripNumericCasts v"
  by (induction v rule: stripNumericCasts.induct) auto

section \<open>Constants\<close>

definition isValueConstant :: "val \<Rightarrow> bool" where
  "isValueConstant v = (case v of Const _ _ _ \<Rightarrow> True | _ \<Rightarrow> False)"

fun getConstantIndex :: "val \<Rightarrow> int option" where
  "getConstantIndex (Const i t (IntAttr n)) = Some n"
| "getConstantIndex (Const i t (BoolAttr b)) = Some (if b then -1 else 0)"
| "getConstantIndex _ = None"

fun getConstantFloat :: "val \<Rightarrow> rat option" where
  "getConstantFloat (Const i t (FloatAttr r)) = Some r"
| "getConstantFloat _ = None"

definition isConstantEqual :: "val \<Rightarrow> int \<Rightarrow> bool" where
  "isConstantEqual v n =
     (case getConstantIndex v of
        Some c \<Rightarrow> c = n
      | None \<Rightarrow> (case getConstantFloat v of Some r \<Rightarrow> r = of_int n | None \<Rightarrow> False))"

definition isZeroConstant :: "val \<Rightarrow> bool" where
  "isZeroConstant v = isConstantEqual v 0"

definition isOneConstant :: "val \<Rightarrow> bool" where
  "isOneConstant v = isConstantEqual v 1"

text \<open>
  \<open>APInt::isOne\<close> and \<open>isZero\<close> read the bits of the attribute: at one bit, \<open>true\<close> is one.
\<close>

definition isConstantBool :: "val \<Rightarrow> bool \<Rightarrow> bool" where
  "isConstantBool v expected =
     (case stripNumericCasts v of
        Const i t (BoolAttr b) \<Rightarrow> b = expected
      | Const i t (IntAttr n) \<Rightarrow> if expected then uns_at t n = 1 else uns_at t n = 0
      | _ \<Rightarrow> False)"

section \<open>Constant folding\<close>

definition tryFoldTypeSizeBytes :: "mlir \<Rightarrow> nat \<Rightarrow> ty \<Rightarrow> int option" where
  "tryFoldTypeSizeBytes P i s =
     (if \<not> in_module P i then None
      else if isMemRef s then Some (wrap64 (pointer_size P))
      else if (case s of IntTy _ \<Rightarrow> True | FloatTy _ \<Rightarrow> True | _ \<Rightarrow> llvm_compatible P s)
      then Some (wrap64 (layout_size P s))
      else None)"

text \<open>
  The search of \<open>tryFoldScalarMemrefLoad\<close>: walk the operations before the load, skip
  everything that is not a store without indices to the same root, and stop at the first
  such store.
\<close>

fun find_scalar_store :: "val \<Rightarrow> stmt list \<Rightarrow> val option" where
  "find_scalar_store m [] = None"
| "find_scalar_store m (Store v d xs # ps) =
     (if xs \<noteq> [] then find_scalar_store m ps
      else if stripMemrefViewOps d \<noteq> m then find_scalar_store m ps
      else Some v)"
| "find_scalar_store m (Nested qs # ps) = find_scalar_store m ps"

lemma find_scalar_store_size [termination_simp]:
  "find_scalar_store m ps = Some v \<Longrightarrow> size v < Suc (size_list size ps)"
  by (induction m ps rule: find_scalar_store.induct) (auto split: if_splits)

definition is_local_alloc :: "val \<Rightarrow> bool" where
  "is_local_alloc v = (case v of AllocLike _ _ k _ \<Rightarrow> k = Alloc \<or> k = Alloca | _ \<Rightarrow> False)"

definition scalar_store_of_load :: "val \<Rightarrow> val list \<Rightarrow> stmt list \<Rightarrow> val option" where
  "scalar_store_of_load m xs ps =
     (if xs \<noteq> [] then None
      else let r = stripMemrefViewOps m
           in if is_local_alloc r then find_scalar_store r ps else None)"

lemma scalar_store_of_load_size [termination_simp]:
  "scalar_store_of_load m xs ps = Some v \<Longrightarrow> size v < Suc (size_list size ps)"
  by (auto simp: scalar_store_of_load_def Let_def dest: find_scalar_store_size split: if_splits)

fun evalCmp :: "cmp_pred \<Rightarrow> int \<Rightarrow> int \<Rightarrow> int" where
  "evalCmp Ceq x y = (if x = y then 1 else 0)"
| "evalCmp Cne x y = (if x \<noteq> y then 1 else 0)"
| "evalCmp Cslt x y = (if x < y then 1 else 0)"
| "evalCmp Csle x y = (if x \<le> y then 1 else 0)"
| "evalCmp Csgt x y = (if x > y then 1 else 0)"
| "evalCmp Csge x y = (if x \<ge> y then 1 else 0)"
| "evalCmp Cult x y = (if u64 x < u64 y then 1 else 0)"
| "evalCmp Cule x y = (if u64 x \<le> u64 y then 1 else 0)"
| "evalCmp Cugt x y = (if u64 x > u64 y then 1 else 0)"
| "evalCmp Cuge x y = (if u64 x \<ge> u64 y then 1 else 0)"

definition pred_on_equal :: "cmp_pred \<Rightarrow> int" where
  "pred_on_equal p = (if p \<in> {Ceq, Csle, Csge, Cule, Cuge} then 1 else 0)"

text \<open>
  The decisions of \<open>tryFoldCmpResult\<close> in the code's order: \<open>l\<close>, \<open>r\<close> are the folded
  operands, \<open>same\<close> the answer of \<open>sameValue\<close> on the stripped operands, \<open>ls\<close>, \<open>rs\<close> the
  folded stripped operands.
\<close>

definition tryFoldCmpResult ::
  "cmp_pred \<Rightarrow> int option \<Rightarrow> int option \<Rightarrow> bool \<Rightarrow> int option \<Rightarrow> int option \<Rightarrow> int option" where
  "tryFoldCmpResult p l r same ls rs =
     (if l \<noteq> None \<and> r \<noteq> None then Some (evalCmp p (the l) (the r))
      else if same then Some (pred_on_equal p)
      else if rs = Some 0 \<and> p = Cult then Some 0
      else if rs = Some 0 \<and> p = Cuge then Some 1
      else if ls = Some 0 \<and> p = Cugt then Some 0
      else if ls = Some 0 \<and> p = Cule then Some 1
      else None)"

text \<open>The binary operations the folder knows; \<open>uint64_t\<close> results are converted back.\<close>

fun fold_bin :: "binop \<Rightarrow> int \<Rightarrow> int \<Rightarrow> int option" where
  "fold_bin AddI l r = Some (wrap64 (l + r))"
| "fold_bin SubI l r = Some (wrap64 (l - r))"
| "fold_bin MulI l r = Some (wrap64 (l * r))"
| "fold_bin DivUI l r = (if r \<noteq> 0 then Some (wrap64 (u64 l div u64 r)) else None)"
| "fold_bin DivSI l r = (if r \<noteq> 0 then Some (wrap64 (trunc_div l r)) else None)"
| "fold_bin CeilDivUI l r =
     (if l \<ge> 0 \<and> r > 0
      then Some (wrap64 (u64 l div u64 r + (if u64 l mod u64 r \<noteq> 0 then 1 else 0))) else None)"
| "fold_bin CeilDivSI l r =
     (if l \<ge> 0 \<and> r > 0 then Some (wrap64 (trunc_div (wrap64 (wrap64 (l + r) - 1)) r)) else None)"
| "fold_bin MaxUI l r = Some (wrap64 (max (u64 l) (u64 r)))"
| "fold_bin MinUI l r = Some (wrap64 (min (u64 l) (u64 r)))"
| "fold_bin _ l r = None"

definition fold_bin_opt :: "binop \<Rightarrow> int option \<Rightarrow> int option \<Rightarrow> int option" where
  "fold_bin_opt f l r =
     (case l of None \<Rightarrow> None | Some x \<Rightarrow> (case r of None \<Rightarrow> None | Some y \<Rightarrow> fold_bin f x y))"

definition noExtra :: folder where
  "noExtra v d = None"

text \<open>
  The head of every call: the depth limit, a literal constant, the dialect's own folder.
  What follows depends on the defining operation.
\<close>

definition fold_head :: "folder \<Rightarrow> nat \<Rightarrow> val \<Rightarrow> int option \<Rightarrow> int option" where
  "fold_head ex d v rest =
     (if d > 32 then None
      else case getConstantIndex v of
             Some c \<Rightarrow> Some c
           | None \<Rightarrow> (case ex v d of Some c \<Rightarrow> Some c | None \<Rightarrow> rest))"

definition same_value_core :: "mlir \<Rightarrow> val \<Rightarrow> val \<Rightarrow> int option \<Rightarrow> int option \<Rightarrow> bool" where
  "same_value_core P a b ca cb =
     (a = b \<or> proveValuesEqualWithBounds P a b = Some True \<or> (ca \<noteq> None \<and> ca = cb))"

function (sequential) tryFoldConstantIndexWithImpl ::
  "mlir \<Rightarrow> folder \<Rightarrow> nat \<Rightarrow> val \<Rightarrow> int option" where
  "tryFoldConstantIndexWithImpl P ex d (TypeSize i s) =
     fold_head ex d (TypeSize i s) (tryFoldTypeSizeBytes P i s)"
| "tryFoldConstantIndexWithImpl P ex d (Load i t m xs ps) =
     fold_head ex d (Load i t m xs ps)
       (if d + 1 > 32 then None
        else case scalar_store_of_load m xs ps of
               None \<Rightarrow> None
             | Some s \<Rightarrow> tryFoldConstantIndexWithImpl P ex (d + 2) s)"
| "tryFoldConstantIndexWithImpl P ex d (Cast i t c a) =
     fold_head ex d (Cast i t c a)
       (if c = ExtF \<or> c = TruncF then None else tryFoldConstantIndexWithImpl P ex (d + 1) a)"
| "tryFoldConstantIndexWithImpl P ex d (Bin i t f a b) =
     fold_head ex d (Bin i t f a b)
       (fold_bin_opt f (tryFoldConstantIndexWithImpl P ex (d + 1) a)
                       (tryFoldConstantIndexWithImpl P ex (d + 1) b))"
| "tryFoldConstantIndexWithImpl P ex d (CmpI i p a b) =
     fold_head ex d (CmpI i p a b)
       (let lhsValue = stripNumericCasts a; rhsValue = stripNumericCasts b
        in tryFoldCmpResult p
             (tryFoldConstantIndexWithImpl P ex (d + 2) a)
             (tryFoldConstantIndexWithImpl P ex (d + 2) b)
             (same_value_core P (stripNumericCasts lhsValue) (stripNumericCasts rhsValue)
               (tryFoldConstantIndexWithImpl P noExtra 0 (stripNumericCasts lhsValue))
               (tryFoldConstantIndexWithImpl P noExtra 0 (stripNumericCasts rhsValue)))
             (tryFoldConstantIndexWithImpl P ex (d + 2) lhsValue)
             (tryFoldConstantIndexWithImpl P ex (d + 2) rhsValue))"
| "tryFoldConstantIndexWithImpl P ex d (Select i t c a b) =
     fold_head ex d (Select i t c a b)
       (case tryFoldConstantIndexWithImpl P ex (d + 1) c of
          Some k \<Rightarrow> if k \<noteq> 0 then tryFoldConstantIndexWithImpl P ex (d + 1) a
                   else tryFoldConstantIndexWithImpl P ex (d + 1) b
        | None \<Rightarrow>
            (let tv = tryFoldConstantIndexWithImpl P ex (d + 1) a;
                 fv = tryFoldConstantIndexWithImpl P ex (d + 1) b
             in if tv \<noteq> None \<and> tv = fv then tv else None))"
| "tryFoldConstantIndexWithImpl P ex d v = fold_head ex d v None"
  by pat_completeness auto
termination
  by (relation "measure (\<lambda>(P, ex, d, v). size v)")
    (auto simp: less_Suc_eq_le trans_le_add1 trans_le_add2 size_stripNumericCasts_le
      dest!: scalar_store_of_load_size)

definition tryFoldConstantIndex :: "mlir \<Rightarrow> nat \<Rightarrow> val \<Rightarrow> int option" where
  "tryFoldConstantIndex P d v = tryFoldConstantIndexWithImpl P noExtra d v"

definition sameValue :: "mlir \<Rightarrow> val \<Rightarrow> val \<Rightarrow> bool" where
  "sameValue P x y =
     (let a = stripNumericCasts x; b = stripNumericCasts y
      in same_value_core P a b (tryFoldConstantIndex P 0 a) (tryFoldConstantIndex P 0 b))"

section \<open>What folding is sound for\<close>

text \<open>
  The folder computes in \<open>int64_t\<close> and looks through every integer cast, so it agrees with
  the arithmetic only where 64-bit arithmetic and the casts lose nothing. \<open>fold_safe\<close> says
  so node by node: arithmetic is on 64-bit types, casts keep the value and do not start or
  end at \<open>i1\<close>, compared values are not \<open>i1\<close>, ceiling division does not overflow, and a
  scalar load reads what the nearest store before it wrote. \<open>agrees\<close> compares results: on
  \<open>i1\<close> only zero against non-zero matters, since the folder answers 1 for true.
\<close>

definition agrees :: "ty \<Rightarrow> int \<Rightarrow> int \<Rightarrow> bool" where
  "agrees t c x = (if t = IntTy 1 then (c = 0) = (x = 0) else c = x)"

definition width_ok :: "ty \<Rightarrow> bool" where
  "width_ok t \<longleftrightarrow> 1 \<le> width t \<and> width t \<le> 64"

definition attr_ok :: "ty \<Rightarrow> attr \<Rightarrow> bool" where
  "attr_ok t a = (case a of IntAttr n \<Rightarrow> sgn_at t n = n | BoolAttr b \<Rightarrow> t = IntTy 1 | _ \<Rightarrow> True)"

definition no_ceil_overflow :: "int option \<Rightarrow> int option \<Rightarrow> bool" where
  "no_ceil_overflow l r =
     (case l of None \<Rightarrow> True
      | Some x \<Rightarrow> (case r of None \<Rightarrow> True | Some y \<Rightarrow> x + y - 1 < 2 ^ 63))"

function (sequential) fold_safe :: "env \<Rightarrow> val \<Rightarrow> bool" where
  "fold_safe e (Const i t a) = (width_ok t \<and> attr_ok t a)"
| "fold_safe e (Bin i t f a b) =
     (width t = 64 \<and> type_of a = t \<and> type_of b = t \<and> fold_safe e a \<and> fold_safe e b \<and>
      (f = CeilDivSI \<longrightarrow> no_ceil_overflow (eval e a) (eval e b)))"
| "fold_safe e (Cast i t c a) =
     (width_ok t \<and> t \<noteq> IntTy 1 \<and> type_of a \<noteq> IntTy 1 \<and> fold_safe e a \<and>
      eval e (Cast i t c a) = eval e a)"
| "fold_safe e (CmpI i p a b) =
     (type_of a = type_of b \<and> type_of a \<noteq> IntTy 1 \<and> fold_safe e a \<and> fold_safe e b)"
| "fold_safe e (Select i t c a b) =
     (type_of c = IntTy 1 \<and> type_of a = t \<and> type_of b = t \<and>
      fold_safe e c \<and> fold_safe e a \<and> fold_safe e b)"
| "fold_safe e (RuntimeQuery i t k) = (width_ok t \<and> t \<noteq> IntTy 1 \<and> sgn_at t (query_val e k) = query_val e k)"
| "fold_safe e (Load i t m xs ps) =
     (width_ok t \<and>
      (case scalar_store_of_load m xs ps of
         None \<Rightarrow> True
       | Some s \<Rightarrow> type_of s = t \<and> fold_safe e s \<and> eval e s = eval e (Load i t m xs ps)))"
| "fold_safe e v = width_ok (type_of v)"
  by pat_completeness auto
termination
  by (relation "measure (\<lambda>(e, v). size v)")
    (auto simp: less_Suc_eq_le trans_le_add1 trans_le_add2 dest!: scalar_store_of_load_size)

text \<open>The documented promises of the bounds solver and of the data layout.\<close>

definition services_sound :: "mlir \<Rightarrow> env \<Rightarrow> bool" where
  "services_sound P e \<longleftrightarrow>
     (\<forall>a b x y. are_equal P a b = Some True \<and> eval e a = Some x \<and> eval e b = Some y \<longrightarrow> x = y) \<and>
     (\<forall>v l x. const_lower_bound P v = Some l \<and> eval e v = Some x \<longrightarrow> l \<le> x) \<and>
     (\<forall>v u x. const_upper_bound P v = Some u \<and> eval e v = Some x \<longrightarrow> x \<le> u) \<and>
     (\<forall>s. type_bytes e s = (if isMemRef s then pointer_size P else layout_size P s))"

lemma cast_sem_range: "cast_sem s t c y = Some x \<Longrightarrow> sgn_at t x = x"
  by (cases c) auto

lemma eval_sgn_at: "fold_safe e v \<Longrightarrow> eval e v = Some x \<Longrightarrow> sgn_at (type_of v) x = x"
proof (induction e v arbitrary: x rule: fold_safe.induct)
  case (1 e i t a)
  then show ?case by (cases a) (auto simp: attr_ok_def sgn_at_def)
next
  case (2 e i t f a b)
  then show ?case by (cases f) (auto split: option.splits if_splits)
next
  case (3 e i t c a)
  then obtain y where "cast_sem (type_of a) t c y = Some x"
    by (auto simp del: cast_sem.simps split: option.splits)
  then show ?case using cast_sem_range by simp
next
  case (4 e i p a b)
  then show ?case by (auto simp: sgn_at_def split: option.splits if_splits)
next
  case (5 e i t c a b)
  then show ?case by (auto split: option.splits if_splits)
qed auto

lemma width_safe: "fold_safe e v \<Longrightarrow> width_ok (type_of v)"
  by (induction e v rule: fold_safe.induct) (auto simp: width_ok_def)

lemma eval_in64: "fold_safe e v \<Longrightarrow> eval e v = Some x \<Longrightarrow> in64 x"
  by (metis eval_sgn_at width_safe width_ok_def in64_sgn_at)

lemma strip_safe:
  "fold_safe e v \<Longrightarrow> fold_safe e (stripNumericCasts v) \<and>
     eval e (stripNumericCasts v) = eval e v \<and>
     (type_of v \<noteq> IntTy 1 \<longrightarrow> type_of (stripNumericCasts v) \<noteq> IntTy 1)"
  by (induction v rule: stripNumericCasts.induct) auto

lemma sgn_at_range:
  assumes "width_ok t" "sgn_at t x = x"
  shows "- (2 ^ (width t - 1)) \<le> x \<and> x < 2 ^ (width t - 1)"
  using assms by (simp add: sgn_at_def signed_take_bit_int_eq_self_iff)

lemma uns_at_neg:
  assumes "width_ok t" "sgn_at t x = x"
  shows "uns_at t x = (if x < 0 then x + 2 ^ width t else x)"
proof -
  obtain w where w: "width t = Suc w" using assms(1) by (cases "width t") (auto simp: width_ok_def)
  have r: "- (2 ^ w) \<le> x" "x < 2 ^ w" using sgn_at_range [OF assms] w by auto
  show ?thesis
  proof (cases "x < 0")
    case True
    have "take_bit (Suc w) x = take_bit (Suc w) (x + 2 ^ Suc w)" by (simp add: take_bit_eq_mod)
    also have "\<dots> = x + 2 ^ Suc w" using True r by (intro take_bit_int_eq_self) auto
    finally show ?thesis using True w by (simp add: uns_at_def)
  next
    case False
    then show ?thesis using r w by (auto simp: uns_at_def intro!: take_bit_int_eq_self)
  qed
qed

lemma uns_at_order:
  assumes "width_ok t" "sgn_at t x = x" "sgn_at t y = y"
  shows "(u64 x < u64 y) = (uns_at t x < uns_at t y)"
    and "(u64 x \<le> u64 y) = (uns_at t x \<le> uns_at t y)"
proof -
  have lift: "sgn_at IndexTy z = z" if "sgn_at t z = z" for z
    using in64_sgn_at [of t z] that assms(1) wrap64_id by (auto simp: width_ok_def)
  have u: "u64 z = (if z < 0 then z + 2 ^ 64 else z)" if "sgn_at t z = z" for z
    using uns_at_neg [of IndexTy z] lift [OF that] by (simp add: width_ok_def)
  have p: "(2::int) ^ (width t - 1) + 2 ^ (width t - 1) = 2 ^ width t"
    using assms(1) by (cases "width t") (auto simp: width_ok_def)
  have q: "(2::int) ^ width t \<le> 2 ^ 64" using assms(1)
    by (intro power_increasing) (auto simp: width_ok_def)
  show "(u64 x < u64 y) = (uns_at t x < uns_at t y)" "(u64 x \<le> u64 y) = (uns_at t x \<le> uns_at t y)"
    unfolding u [OF assms(2)] u [OF assms(3)] uns_at_neg [OF assms(1,2)] uns_at_neg [OF assms(1,3)]
    using sgn_at_range [OF assms(1,2)] sgn_at_range [OF assms(1,3)] p q by auto
qed

lemma evalCmp_sem:
  assumes "width_ok t" "sgn_at t x = x" "sgn_at t y = y"
  shows "(evalCmp p x y = 0) = (\<not> cmp_sem t p x y)"
  using uns_at_order [OF assms] uns_at_order [OF assms(1,3,2)] by (cases p) auto

lemma ceil_div_mod: "0 < y \<Longrightarrow> x div y + (if x mod y \<noteq> 0 then 1 else 0) = ceil_div x y"
proof -
  assume y: "0 < y"
  define q r where "q = x div y" and "r = x mod y"
  have x: "x = y * q + r" and m: "0 \<le> r" "r < y" using y by (simp_all add: q_def r_def)
  have "(x + y - 1) div y = q + (if r \<noteq> 0 then 1 else 0)"
    using x m by (intro int_div_pos_eq [where r = "if r \<noteq> 0 then r - 1 else y - 1"])
      (auto simp: algebra_simps)
  then show ?thesis using ceil_div_alt [OF y] by (simp add: q_def r_def)
qed

lemma wrap64_of_u64: "in64 x \<Longrightarrow> wrap64 (u64 x) = x"
  by (simp add: wrap64_id)

lemma fold_bin_sound:
  assumes "width t = 64" "in64 x" "in64 y"
    and "f = CeilDivSI \<longrightarrow> x + y - 1 < 2 ^ 63"
    and "fold_bin f x y = Some c" "bin_sem t f x y = Some z"
  shows "c = z"
proof (cases f)
  case DivSI
  then show ?thesis using assms by (auto simp: sgn_at_64 split: if_splits)
next
  case CeilDivUI
  with assms(5) have pos: "0 \<le> x" "0 < y" and
    c: "c = wrap64 (u64 x div u64 y + (if u64 x mod u64 y \<noteq> 0 then 1 else 0))"
    by (auto split: if_splits)
  have "u64 x = x" "u64 y = y" using pos assms u64_of_nonneg by auto
  then have "c = wrap64 (ceil_div x y)" using c ceil_div_mod [OF pos(2), of x] by simp
  with CeilDivUI assms(1,6) pos \<open>u64 x = x\<close> \<open>u64 y = y\<close> show ?thesis
    by (auto simp: sgn_at_64 uns_at_64)
next
  case CeilDivSI
  with assms(5) have pos: "0 \<le> x" "0 < y" and
    c: "c = wrap64 (trunc_div (wrap64 (wrap64 (x + y) - 1)) y)" by (auto split: if_splits)
  have "wrap64 (wrap64 (x + y) - 1) = wrap64 (x + y - 1)"
    using wrap64_diff [of "x + y" 1] by (simp add: wrap64_id in64_def)
  also have "\<dots> = x + y - 1"
    using pos assms(4) CeilDivSI by (intro wrap64_id) (auto simp: in64_def)
  finally have "c = wrap64 (ceil_div x y)"
    using c pos by (simp add: trunc_div_pos ceil_div_alt)
  with CeilDivSI assms(1,6) show ?thesis by (auto simp: sgn_at_64 split: if_splits)
next
  case MaxUI
  then show ?thesis using assms by (auto simp: uns_at_64 max_def wrap64_of_u64 wrap64_id split: if_splits)
next
  case MinUI
  then show ?thesis using assms by (auto simp: uns_at_64 min_def wrap64_of_u64 wrap64_id split: if_splits)
qed (use assms in \<open>auto simp: sgn_at_64 uns_at_64 split: if_splits\<close>)

section \<open>The contract of a folding hook\<close>

text \<open>
  \<open>tryFoldConstantIndexWith\<close> takes a dialect-owned hook. Its contract: on a value the
  folder may look at, an answer agrees with the value. Everything the folder promises
  follows from the contract; the dialects' hooks are its instances.
\<close>

locale fold_hook =
  fixes e :: env and ex :: folder
  assumes hook_sound:
    "fold_safe e v \<Longrightarrow> ex v d = Some c \<Longrightarrow> eval e v = Some x \<Longrightarrow> agrees (type_of v) c x"

lemma fold_hook_noExtra: "fold_hook e noExtra"
  by unfold_locales (simp add: noExtra_def)

lemma agrees_int: "t \<noteq> IntTy 1 \<Longrightarrow> agrees t c x \<longleftrightarrow> c = x"
  by (simp add: agrees_def)

lemma const_sound:
  assumes "fold_safe e v" "getConstantIndex v = Some c" "eval e v = Some x"
  shows "agrees (type_of v) c x"
  using assms by (cases v rule: getConstantIndex.cases) (auto simp: attr_ok_def agrees_def)

lemma type_size_sound:
  assumes "services_sound P e" "tryFoldTypeSizeBytes P i s = Some c" "eval e (TypeSize i s) = Some x"
  shows "c = x"
  using assms by (auto simp: services_sound_def tryFoldTypeSizeBytes_def split: if_splits)

lemma fold_head_sound:
  assumes "fold_hook e ex" "fold_safe e v" "eval e v = Some x"
    and "fold_head ex d v rest = Some c"
    and "\<And>c. rest = Some c \<Longrightarrow> agrees (type_of v) c x"
  shows "agrees (type_of v) c x"
  using assms const_sound fold_hook.hook_sound
  by (fastforce simp: fold_head_def split: if_splits option.splits)

lemma same_value_sound:
  assumes "services_sound P e" "same_value_core P a b ca cb"
    and "eval e a = Some x" "eval e b = Some y"
    and "\<And>c. ca = Some c \<Longrightarrow> c = x" "\<And>c. cb = Some c \<Longrightarrow> c = y"
  shows "x = y"
  using assms
  by (auto simp: same_value_core_def proveValuesEqualWithBounds_def services_sound_def
      split: if_splits)

lemma fold_cmp_sound:
  assumes "width_ok t" "sgn_at t x = x" "sgn_at t y = y"
    and "\<And>c. l = Some c \<Longrightarrow> c = x" "\<And>c. r = Some c \<Longrightarrow> c = y"
    and "same \<Longrightarrow> x = y"
    and "\<And>c. ls = Some c \<Longrightarrow> c = x" "\<And>c. rs = Some c \<Longrightarrow> c = y"
    and "tryFoldCmpResult p l r same ls rs = Some c"
  shows "(c = 0) = (\<not> cmp_sem t p x y)"
proof -
  have "uns_at t 0 = 0" by (simp add: uns_at_def)
  moreover have "0 \<le> uns_at t x" "0 \<le> uns_at t y" by (simp_all add: uns_at_def)
  moreover have "(pred_on_equal p = 0) = (\<not> cmp_sem t p x x)"
    by (cases p) (auto simp: pred_on_equal_def)
  ultimately show ?thesis using assms evalCmp_sem [OF assms(1-3), of p]
    by (auto simp: tryFoldCmpResult_def split: if_splits)
qed

text \<open>
  \<open>sub_ok e a l\<close>: the folded operand \<open>l\<close> of a node is right about the operand \<open>a\<close>. The
  soundness of each kind of node is stated over it; the induction puts them together.
\<close>

definition sub_ok :: "env \<Rightarrow> val \<Rightarrow> int option \<Rightarrow> bool" where
  "sub_ok e a l \<longleftrightarrow> (\<forall>c y. l = Some c \<and> eval e a = Some y \<longrightarrow> agrees (type_of a) c y)"

lemma sub_okD: "sub_ok e a (Some c) \<Longrightarrow> eval e a = Some y \<Longrightarrow> type_of a \<noteq> IntTy 1 \<Longrightarrow> c = y"
  by (auto simp: sub_ok_def agrees_int)

lemma fold_bin_node:
  assumes safe: "fold_safe e (Bin i t f a b)" and x: "eval e (Bin i t f a b) = Some x"
    and sub: "sub_ok e a l" "sub_ok e b r" and c: "fold_bin_opt f l r = Some c"
  shows "agrees t c x"
proof -
  obtain y z where y: "eval e a = Some y" and z: "eval e b = Some z"
    and bx: "bin_sem t f y z = Some x" using x by (auto split: option.splits)
  have s: "width t = 64" "type_of a = t" "type_of b = t" "fold_safe e a" "fold_safe e b"
    and o: "f = CeilDivSI \<longrightarrow> y + z - 1 < 2 ^ 63" using safe y z by (auto simp: no_ceil_overflow_def)
  have i1: "t \<noteq> IntTy 1" using s(1) by auto
  obtain u v where u: "l = Some u" and v: "r = Some v" and fc: "fold_bin f u v = Some c"
    using c by (auto simp: fold_bin_opt_def split: option.splits)
  have "u = y" "v = z" using sub_okD sub u v y z i1 s(2,3) by metis+
  then have "fold_bin f y z = Some c" using fc by simp
  then have "c = x" using fold_bin_sound [OF s(1) eval_in64 [OF s(4) y] eval_in64 [OF s(5) z] o] bx
    by simp
  then show ?thesis using i1 by (simp add: agrees_int)
qed

lemma fold_cmp_node:
  assumes svc: "services_sound P e"
    and safe: "fold_safe e (CmpI i p a b)" and x: "eval e (CmpI i p a b) = Some x"
    and sub: "sub_ok e a l" "sub_ok e b r"
      "sub_ok e (stripNumericCasts a) ls" "sub_ok e (stripNumericCasts b) rs"
      "sub_ok e (stripNumericCasts a) l0" "sub_ok e (stripNumericCasts b) r0"
    and c: "tryFoldCmpResult p l r (same_value_core P (stripNumericCasts a) (stripNumericCasts b) l0 r0) ls rs
              = Some c"
  shows "agrees (IntTy 1) c x"
proof -
  obtain y z where y: "eval e a = Some y" and z: "eval e b = Some z"
    and xc: "x = (if cmp_sem (type_of a) p y z then -1 else 0)" using x by (auto split: option.splits)
  have s: "fold_safe e a" "fold_safe e b" and ty: "type_of a = type_of b" "type_of a \<noteq> IntTy 1"
    using safe by auto
  note sa = strip_safe [OF s(1)] and sb = strip_safe [OF s(2)]
  have ne: "type_of (stripNumericCasts a) \<noteq> IntTy 1" "type_of (stripNumericCasts b) \<noteq> IntTy 1"
    "eval e (stripNumericCasts a) = Some y" "eval e (stripNumericCasts b) = Some z"
    using sa sb ty y z by auto
  have same: "y = z" if "same_value_core P (stripNumericCasts a) (stripNumericCasts b) l0 r0"
    using same_value_sound [OF svc that ne(3,4)] sub(5,6) ne sub_okD by blast
  have rng: "sgn_at (type_of a) y = y" "sgn_at (type_of a) z = z"
    using eval_sgn_at s y z ty by metis+
  have "(c = 0) = (\<not> cmp_sem (type_of a) p y z)"
    by (rule fold_cmp_sound [OF width_safe [OF s(1)] rng _ _ same _ _ c])
      (use sub ne ty y z sub_okD in \<open>metis\<close>)+
  then show ?thesis using xc by (simp add: agrees_def)
qed

definition fold_select_opt :: "int option \<Rightarrow> int option \<Rightarrow> int option \<Rightarrow> int option" where
  "fold_select_opt k l r =
     (case k of Some j \<Rightarrow> if j \<noteq> 0 then l else r
      | None \<Rightarrow> if l \<noteq> None \<and> l = r then l else None)"

lemma fold_select_node:
  assumes safe: "fold_safe e (Select i t k a b)" and x: "eval e (Select i t k a b) = Some x"
    and sub: "sub_ok e k kc" "kc \<noteq> Some 0 \<Longrightarrow> sub_ok e a l"
      "(kc = None \<or> kc = Some 0) \<Longrightarrow> sub_ok e b r"
    and c: "fold_select_opt kc l r = Some c"
  shows "agrees t c x"
proof -
  obtain z where z: "eval e k = Some z" and ab: "(if z \<noteq> 0 then eval e a else eval e b) = Some x"
    using x by (auto split: option.splits)
  have ty: "type_of k = IntTy 1" "type_of a = t" "type_of b = t" using safe by auto
  have k: "(j = 0) = (z = 0)" if "kc = Some j" for j
    using sub(1) that z ty by (auto simp: sub_ok_def agrees_def)
  show ?thesis using c k ab ty sub(2,3)
    by (cases kc) (auto simp: fold_select_opt_def sub_ok_def split: if_splits)
qed


lemma sub_okI:
  "(\<And>c y. l = Some c \<Longrightarrow> eval e a = Some y \<Longrightarrow> agrees (type_of a) c y) \<Longrightarrow> sub_ok e a l"
  by (auto simp: sub_ok_def)

lemma fold_head_none_ok: "fold_hook e ex \<Longrightarrow> fold_safe e v \<Longrightarrow> sub_ok e v (fold_head ex d v None)"
  by (rule sub_okI, rule fold_head_sound, assumption+) simp

lemma tryFold_sub_ok:
  "services_sound P e \<Longrightarrow> fold_hook e ex \<Longrightarrow> fold_safe e v \<Longrightarrow>
     sub_ok e v (tryFoldConstantIndexWithImpl P ex d v)"
proof (induction P ex d v rule: tryFoldConstantIndexWithImpl.induct)
  case (1 P ex d i s)
  show ?case
    by (rule sub_okI, unfold tryFoldConstantIndexWithImpl.simps,
        rule fold_head_sound [OF "1.prems"(2,3)], assumption, assumption)
      (use type_size_sound [OF "1.prems"(1)] in \<open>auto simp: agrees_int simp del: eval.simps\<close>)
next
  case (2 P ex d i t m xs ps)
  show ?case
  proof (rule sub_okI, unfold tryFoldConstantIndexWithImpl.simps,
      rule fold_head_sound [OF "2.prems"(2,3)], assumption, assumption)
    fix x c'
    assume x: "eval e (Load i t m xs ps) = Some x" and
      "(if d + 1 > 32 then None
        else case scalar_store_of_load m xs ps of None \<Rightarrow> None
             | Some s \<Rightarrow> tryFoldConstantIndexWithImpl P ex (d + 2) s) = Some c'"
    then obtain s where s: "scalar_store_of_load m xs ps = Some s" and d: "\<not> d + 1 > 32"
      and c': "tryFoldConstantIndexWithImpl P ex (d + 2) s = Some c'"
      by (auto split: if_splits option.splits)
    have "fold_safe e s" "type_of s = t" "eval e s = Some x" using "2.prems"(3) x s by auto
    then show "agrees (type_of (Load i t m xs ps)) c' x"
      using "2.IH" [OF d s "2.prems"(1,2)] c' by (simp add: sub_ok_def)
  qed
next
  case (3 P ex d i t c a)
  have s: "fold_safe e a" "t \<noteq> IntTy 1" "type_of a \<noteq> IntTy 1"
    "eval e (Cast i t c a) = eval e a" using "3.prems"(3) by simp_all
  show ?case
    by (rule sub_okI, unfold tryFoldConstantIndexWithImpl.simps,
        rule fold_head_sound [OF "3.prems"(2,3)], assumption, assumption)
      (use "3.IH" [OF _ "3.prems"(1,2) s(1)] s in \<open>auto simp: agrees_def sub_ok_def simp del: eval.simps split: if_splits\<close>)
next
  case (4 P ex d i t f a b)
  have s: "fold_safe e a" "fold_safe e b" using "4.prems"(3) by simp_all
  show ?case
    by (rule sub_okI, unfold tryFoldConstantIndexWithImpl.simps,
        rule fold_head_sound [OF "4.prems"(2,3)], assumption, assumption)
      (use fold_bin_node [OF "4.prems"(3)] "4.IH"(1) [OF "4.prems"(1,2) s(1)]
         "4.IH"(2) [OF "4.prems"(1,2) s(2)] in simp)
next
  case (5 P ex d i p a b)
  have s: "fold_safe e a" "fold_safe e b" using "5.prems"(3) by simp_all
  note sa = strip_safe [OF s(1), THEN conjunct1] and sb = strip_safe [OF s(2), THEN conjunct1]
  note ih = "5.IH"(1) [OF refl refl "5.prems"(1,2) s(1)] "5.IH"(2) [OF refl refl "5.prems"(1,2) s(2)]
    "5.IH"(5) [OF refl refl "5.prems"(1,2) sa] "5.IH"(6) [OF refl refl "5.prems"(1,2) sb]
    "5.IH"(3) [OF refl refl "5.prems"(1) fold_hook_noExtra, simplified, OF sa]
    "5.IH"(4) [OF refl refl "5.prems"(1) fold_hook_noExtra, simplified, OF sb]
  show ?case
    by (rule sub_okI, unfold tryFoldConstantIndexWithImpl.simps,
        rule fold_head_sound [OF "5.prems"(2,3)], assumption, assumption)
      (unfold Let_def stripNumericCasts_idem type_of.simps,
       rule fold_cmp_node [OF "5.prems"(1,3) _ ih])
next
  case (6 P ex d i t k a b)
  have s: "fold_safe e k" "fold_safe e a" "fold_safe e b" using "6.prems"(3) by simp_all
  let ?fold = "tryFoldConstantIndexWithImpl P ex (d + 1)"
  have k: "sub_ok e k (?fold k)" using "6.IH"(1) [OF "6.prems"(1,2) s(1)] .
  have a: "?fold k \<noteq> Some 0 \<Longrightarrow> sub_ok e a (?fold a)"
    using "6.IH"(4) [OF _ _ "6.prems"(1,2) s(2)] "6.IH"(2) [OF _ "6.prems"(1,2) s(2)]
    by (cases "?fold k") auto
  have b: "?fold k = None \<or> ?fold k = Some 0 \<Longrightarrow> sub_ok e b (?fold b)"
    using "6.IH"(5) [OF _ _ "6.prems"(1,2) s(3)] "6.IH"(3) [OF _ refl "6.prems"(1,2) s(3)] by auto
  show ?case
    by (rule sub_okI, unfold tryFoldConstantIndexWithImpl.simps,
        rule fold_head_sound [OF "6.prems"(2,3)], assumption, assumption)
      (unfold Let_def type_of.simps,
       rule fold_select_node [OF "6.prems"(3) _ k a b, unfolded fold_select_opt_def])
qed (simp_all only: tryFoldConstantIndexWithImpl.simps fold_head_none_ok)

context fold_hook
begin

lemma fold_sound:
  assumes "services_sound P e" "fold_safe e v"
    and "tryFoldConstantIndexWithImpl P ex d v = Some c" "eval e v = Some x"
  shows "agrees (type_of v) c x"
  using tryFold_sub_ok [OF assms(1) fold_hook_axioms assms(2), of d] assms(3,4)
  by (simp add: sub_ok_def)

lemma fold_stripped_sound:
  assumes "services_sound P e" "fold_safe e v" "type_of v \<noteq> IntTy 1"
    and "tryFoldConstantIndexWithImpl P ex d (stripNumericCasts v) = Some c" "eval e v = Some x"
  shows "c = x"
proof -
  have "eval e (stripNumericCasts v) = Some x" "fold_safe e (stripNumericCasts v)"
    "type_of (stripNumericCasts v) \<noteq> IntTy 1"
    using strip_safe [OF assms(2)] assms(3,5) by auto
  then show ?thesis using fold_sound [OF assms(1) _ assms(4)] by (simp add: agrees_int)
qed

end

section \<open>The hooks of the two folders\<close>

interpretation generic: fold_hook e noExtra for e
  by (rule fold_hook_noExtra)

text \<open>
  \<open>foldRuntimeQuery\<close>, the hook of the ARTS folder: the totals recorded on the module. The
  compiler records them only when the run is fixed to that configuration, so at run time
  the queries answer them: \<open>with_module\<close> is an environment of such a run.
\<close>

fun foldRuntimeQuery :: "mlir \<Rightarrow> folder" where
  "foldRuntimeQuery P (RuntimeQuery i t k) d =
     (if \<not> in_module P i then None
      else case k of
             TotalWorkers \<Rightarrow> runtime_total_workers P
           | TotalNodes \<Rightarrow> runtime_total_nodes P
           | _ \<Rightarrow> None)"
| "foldRuntimeQuery P _ d = None"

definition with_module :: "mlir \<Rightarrow> env \<Rightarrow> env" where
  "with_module P e = e\<lparr>query_val := (\<lambda>k.
     case k of
       TotalWorkers \<Rightarrow> (case runtime_total_workers P of Some n \<Rightarrow> n | None \<Rightarrow> query_val e k)
     | TotalNodes \<Rightarrow> (case runtime_total_nodes P of Some n \<Rightarrow> n | None \<Rightarrow> query_val e k)
     | _ \<Rightarrow> query_val e k)\<rparr>"

lemma foldRuntimeQuery_sound:
  assumes "fold_safe (with_module P e) v" "foldRuntimeQuery P v d = Some c"
    and "eval (with_module P e) v = Some x"
  shows "agrees (type_of v) c x"
  using assms
  by (cases "(P, v, d)" rule: foldRuntimeQuery.cases)
    (auto simp: with_module_def agrees_int simp del: One_nat_def split: if_splits query_kind.splits option.splits)

interpretation runtime: fold_hook "with_module P e" "foldRuntimeQuery P" for P e
  by unfold_locales (rule foldRuntimeQuery_sound)

definition arts_tryFoldConstantIndex :: "mlir \<Rightarrow> nat \<Rightarrow> val \<Rightarrow> int option" where
  "arts_tryFoldConstantIndex P d v = tryFoldConstantIndexWithImpl P (foldRuntimeQuery P) d v"

definition getConstantIndexStripped :: "mlir \<Rightarrow> val \<Rightarrow> int option" where
  "getConstantIndexStripped P v = tryFoldConstantIndex P 0 (stripNumericCasts v)"

definition arts_getConstantIndexStripped :: "mlir \<Rightarrow> val \<Rightarrow> int option" where
  "arts_getConstantIndexStripped P v = arts_tryFoldConstantIndex P 0 (stripNumericCasts v)"

subsection \<open>Properties\<close>

text \<open>
  C12: Constant folding is sound. Where 64-bit arithmetic and the casts on the way lose
  nothing (\<open>fold_safe\<close>), an answer of \<open>tryFoldConstantIndex\<close>, at any depth, is the value the
  expression has under the semantics of the \<open>arith\<close> dialect; on \<open>i1\<close> it is zero exactly when
  the value is.
\<close>

theorem tryFoldConstantIndex_sound:
  assumes "services_sound P e" "fold_safe e v"
    and "tryFoldConstantIndex P d v = Some c" "eval e v = Some x"
  shows "agrees (type_of v) c x"
  using generic.fold_sound assms unfolding tryFoldConstantIndex_def by blast

definition no_services :: mlir where
  "no_services = \<lparr>are_equal = (\<lambda>a b. None), const_lower_bound = (\<lambda>v. None),
     const_upper_bound = (\<lambda>v. None), layout_size = (\<lambda>t. 8), pointer_size = 8,
     llvm_compatible = (\<lambda>t. True), in_module = (\<lambda>i. True),
     runtime_total_workers = Some 16, runtime_total_nodes = Some 2\<rparr>"

definition no_env :: env where
  "no_env = \<lparr>arg_val = (\<lambda>b n. 7), op_val = (\<lambda>i n. 0), query_val = (\<lambda>k. 3), type_bytes = (\<lambda>t. 8)\<rparr>"

text \<open>\<open>ceildiv(20 + 3, 4) < 6 ? 10 : 20\<close>: the comparison is false, the fold answers 20.\<close>

abbreviation index_const :: "nat \<Rightarrow> int \<Rightarrow> val" where
  "index_const i n \<equiv> Const i IndexTy (IntAttr n)"

definition sample_select :: val where
  "sample_select =
     Select 0 IndexTy
       (CmpI 1 Cslt (Bin 2 IndexTy CeilDivSI (Bin 3 IndexTy AddI (index_const 4 20) (index_const 5 3))
                       (index_const 6 4)) (index_const 7 6))
       (index_const 8 10) (index_const 9 20)"

lemma services_no_services: "services_sound no_services no_env"
  by (simp add: services_sound_def no_services_def no_env_def)

lemma tryFoldConstantIndex_sound_witness:
  "agrees (type_of sample_select) 20 20 \<and> tryFoldConstantIndex no_services 0 sample_select = Some 20"
proof -
  have v: "eval no_env sample_select = Some 20" by code_simp
  have f: "tryFoldConstantIndex no_services 0 sample_select = Some 20" by code_simp
  have s: "fold_safe no_env sample_select" by code_simp
  show ?thesis using tryFoldConstantIndex_sound [OF services_no_services s f v] f by blast
qed

text \<open>
  The ARTS folder, which also answers the runtime queries from the totals recorded on the
  module, is sound on \<open>fold_safe\<close> values in every run with those totals, and so is what it
  reads through casts that keep the value (\<open>getConstantIndexStripped\<close>).
\<close>

theorem arts_fold_sound:
  assumes "services_sound P (with_module P e)" "fold_safe (with_module P e) v"
    and "type_of v \<noteq> IntTy 1" "eval (with_module P e) v = Some x"
    and "arts_tryFoldConstantIndex P d v = Some c \<or> arts_getConstantIndexStripped P v = Some c"
  shows "c = x"
  using runtime.fold_sound [OF assms(1,2) _ assms(4)]
    runtime.fold_stripped_sound [OF assms(1-3) _ assms(4)] assms(3,5)
  unfolding arts_tryFoldConstantIndex_def arts_getConstantIndexStripped_def agrees_def by auto

definition sample_query :: val where
  "sample_query =
     Cast 0 (IntTy 64) IndexCast
       (Bin 1 IndexTy DivUI (RuntimeQuery 2 IndexTy TotalWorkers) (RuntimeQuery 3 IndexTy TotalNodes))"

lemma arts_fold_sound_witness:
  "arts_tryFoldConstantIndex no_services 0 sample_query = Some (the (eval (with_module no_services no_env) sample_query))"
proof -
  have m: "services_sound no_services (with_module no_services no_env)"
    by (simp add: services_sound_def no_services_def no_env_def with_module_def)
  obtain x where v: "eval (with_module no_services no_env) sample_query = Some x"
    by (rule that [of 8]) code_simp
  have f: "arts_tryFoldConstantIndex no_services 0 sample_query = Some 8" by code_simp
  have s: "fold_safe (with_module no_services no_env) sample_query" by code_simp
  have t: "type_of sample_query \<noteq> IntTy 1" by code_simp
  have "8 = x" using f by (intro arts_fold_sound [OF m s t v]) blast
  then show ?thesis using f v by simp
qed

section \<open>Where the hypotheses matter\<close>

text \<open>
  Folding looks through \<open>trunci\<close> and \<open>extui\<close> without truncating: 256 truncated to eight
  bits folds to 256, though its value is 0, and \<open>extsi\<close> of \<open>i1\<close> true against a compare that
  folds to 1.
\<close>

lemma fold_ignores_truncation:
  "tryFoldConstantIndex no_services 0 (Cast 0 (IntTy 8) TruncI (Const 1 (IntTy 32) (IntAttr 256)))
     = Some 256"
  "eval no_env (Cast 0 (IntTy 8) TruncI (Const 1 (IntTy 32) (IntAttr 256))) = Some 0"
  by code_simp+

lemma fold_bool_extension:
  "tryFoldConstantIndex no_services 0
     (Cast 0 (IntTy 32) ExtSI (CmpI 1 Ceq (index_const 2 0) (index_const 3 0))) = Some 1"
  "eval no_env (Cast 0 (IntTy 32) ExtSI (CmpI 1 Ceq (index_const 2 0) (index_const 3 0)))
     = Some (-1)"
  by code_simp+

text \<open>
  A scalar load folds to the nearest store before it in its own block, even when an
  operation in between stores to the same buffer inside a region: the second statement
  of the load's block, which holds such a store, is passed over.
\<close>

lemma fold_skips_nested_store:
  "let buf = AllocLike 0 (MemRefTy [] IndexTy) Alloca [];
       ld = Load 1 IndexTy buf [] [Nested [Store (index_const 2 5) buf []], Store (index_const 3 4) buf []]
   in tryFoldConstantIndex no_services 0 ld = Some 4"
  by code_simp

end
