(* ===== verification/ValueQueries.thy ===== *)
theory ValueQueries
  imports ValueAnalysis
begin

text \<open>
  The queries the passes ask about index expressions (\<open>ValueAnalysis.cpp\<close>, second half, and
  \<open>arts/Utils/ValueAnalysisUtils.cpp\<close>): clamps, structural equivalence, non-zero proofs,
  dependence, constant offsets, memory roots, and the two ways a value is made available
  at another place (\<open>traceValueToDominating\<close>, \<open>cloneValuesIntoRegion\<close>).
\<close>

section \<open>Clamps and structural equivalence\<close>

definition areValueRangesIdentical :: "val list \<Rightarrow> val list \<Rightarrow> bool" where
  "areValueRangesIdentical xs ys =
     (if length xs \<noteq> length ys then False else list_all (\<lambda>(x, y). x = y) (zip xs ys))"

definition areValueRangesEquivalent :: "mlir \<Rightarrow> val list \<Rightarrow> val list \<Rightarrow> bool" where
  "areValueRangesEquivalent P xs ys =
     (if length xs \<noteq> length ys then False else list_all (\<lambda>(x, y). sameValue P x y) (zip xs ys))"

function (sequential) strip_clamp_loop :: "val \<Rightarrow> val" where
  "strip_clamp_loop (Bin i t f a b) =
     (if f = MaxUI
      then let lhs = stripNumericCasts a; rhs = stripNumericCasts b
           in if isOneConstant lhs then strip_clamp_loop rhs
              else if isOneConstant rhs then strip_clamp_loop lhs
              else Bin i t f a b
      else Bin i t f a b)"
| "strip_clamp_loop v = v"
  by pat_completeness auto
termination
  by (relation "measure size") (auto simp: less_Suc_eq_le trans_le_add1 trans_le_add2 size_stripNumericCasts_le)

definition stripClampOne :: "val \<Rightarrow> val" where
  "stripClampOne v = strip_clamp_loop (stripNumericCasts v)"

function areValuesEquivalent :: "mlir \<Rightarrow> nat \<Rightarrow> val \<Rightarrow> val \<Rightarrow> bool" where
  "areValuesEquivalent P d x y =
     (if x = y then True
      else if d > 6 then False
      else
        let a = stripNumericCasts x; b = stripNumericCasts y in
        if a = b then True
        else if proveValuesEqualWithBounds P a b = Some True then True
        else if getConstantIndex a \<noteq> None \<and> getConstantIndex b \<noteq> None
        then getConstantIndex a = getConstantIndex b
        else if op_name_of a = None \<or> op_name_of b = None then False
        else if op_name_of a \<noteq> op_name_of b then False
        else if length (operands a) \<noteq> length (operands b) then False
        else if op_name_of a \<in> {Some (NBin AddI), Some (NBin MulI), Some (NBin MaxUI), Some (NBin MinUI)}
        then (areValuesEquivalent P (d + 1) (operands a ! 0) (operands b ! 0) \<and>
              areValuesEquivalent P (d + 1) (operands a ! 1) (operands b ! 1)) \<or>
             (areValuesEquivalent P (d + 1) (operands a ! 0) (operands b ! 1) \<and>
              areValuesEquivalent P (d + 1) (operands a ! 1) (operands b ! 0))
        else list_all (\<lambda>(u, w). areValuesEquivalent P (d + 1) u w) (zip (operands a) (operands b)))"
  by pat_completeness auto
termination by (relation "measure (\<lambda>(P, d, x, y). 7 - d)") auto

declare areValuesEquivalent.simps [simp del]

section \<open>Lower bounds and non-zero proofs\<close>

definition isConstantAtLeastOne :: "mlir \<Rightarrow> val \<Rightarrow> bool" where
  "isConstantAtLeastOne P u =
     (let v = stripNumericCasts u in
      case proveValueAtLeast P v 1 of
        Some b \<Rightarrow> b
      | None \<Rightarrow> (case getConstantIndex v of Some n \<Rightarrow> n \<ge> 1 | None \<Rightarrow> False))"

function isProvablyNonZero :: "mlir \<Rightarrow> nat \<Rightarrow> val \<Rightarrow> bool" where
  "isProvablyNonZero P d u =
     (if d > 4 then False
      else
        let v = stripNumericCasts u in
        case proveValueNonZero P v of
          Some b \<Rightarrow> b
        | None \<Rightarrow>
            if isConstantAtLeastOne P v then True
            else case v of
                   Bin i t f a b \<Rightarrow>
                     if f = MaxUI then isProvablyNonZero P (d + 1) a \<or> isProvablyNonZero P (d + 1) b
                     else if f = MaxSI then isProvablyNonZero P (d + 1) a \<or> isProvablyNonZero P (d + 1) b
                     else False
                 | _ \<Rightarrow> False)"
  by pat_completeness auto
termination by (relation "measure (\<lambda>(P, d, v). 5 - d)") auto

declare isProvablyNonZero.simps [simp del]

definition isOneLikeValue :: "val \<Rightarrow> bool" where
  "isOneLikeValue v =
     (if isOneConstant v then True
      else case v of
        Bin i t f a b \<Rightarrow>
          if f \<noteq> AddI then False
          else (case (if isOneConstant a then Some b else if isOneConstant b then Some a else None) of
            Some (Bin j u g x y) \<Rightarrow>
              if g \<noteq> SubI then False
              else if x = y then True
              else (case x of
                      Bin k s h p q \<Rightarrow> if h = MinUI then p = y \<or> q = y else False
                    | _ \<Rightarrow> False)
          | _ \<Rightarrow> False)
      | _ \<Rightarrow> False)"

section \<open>Dependence and offsets\<close>

text \<open>The operations dependence is followed through.\<close>

fun follows :: "val \<Rightarrow> bool" where
  "follows (Bin _ _ f _ _) =
     (f \<in> {AddI, SubI, MulI, DivSI, DivUI, RemSI, RemUI, MinSI, MinUI, MaxSI, MaxUI})"
| "follows (Cast _ _ c _) = (c \<in> {IndexCast, IndexCastUI, ExtSI, ExtUI, TruncI})"
| "follows (Select _ _ _ _ _) = True"
| "follows (CmpI _ _ _ _) = True"
| "follows (CmpF _ _ _) = True"
| "follows _ = False"

function dependsOn :: "nat \<Rightarrow> val \<Rightarrow> val \<Rightarrow> bool" where
  "dependsOn d v base =
     (if d > 8 then False
      else if v = base then True
      else if \<not> follows v then False
      else list_ex (\<lambda>x. dependsOn (d + 1) x base) (operands v))"
  by pat_completeness auto
termination by (relation "measure (\<lambda>(d, v, base). 9 - d)") auto

declare dependsOn.simps [simp del]

function (sequential) strip_offset_loop :: "int \<Rightarrow> val \<Rightarrow> val \<times> int" where
  "strip_offset_loop acc (Bin i t f a b) =
     (if f = AddI
      then (case getConstantIndex a of
              Some c \<Rightarrow> strip_offset_loop (wrap64 (acc + c)) (stripNumericCasts b)
            | None \<Rightarrow>
                (case getConstantIndex b of
                   Some c \<Rightarrow> strip_offset_loop (wrap64 (acc + c)) (stripNumericCasts a)
                 | None \<Rightarrow> (Bin i t f a b, acc)))
      else if f = SubI
      then (case getConstantIndex b of
              Some c \<Rightarrow> strip_offset_loop (wrap64 (acc - c)) (stripNumericCasts a)
            | None \<Rightarrow> (Bin i t f a b, acc))
      else (Bin i t f a b, acc))"
| "strip_offset_loop acc v = (v, acc)"
  by pat_completeness auto
termination
  by (relation "measure (\<lambda>(acc, v). size v)")
    (auto simp: less_Suc_eq_le trans_le_add1 trans_le_add2 size_stripNumericCasts_le)

text \<open>
  Each turn of the loop starts by stripping casts, so its own \<open>index_cast\<close> branch is never
  taken; the model starts every turn on the stripped value.
\<close>

definition stripConstantOffset :: "val \<Rightarrow> val \<times> int" where
  "stripConstantOffset v = strip_offset_loop 0 (stripNumericCasts v)"

section \<open>Soundness of the queries\<close>

lemma const_eval:
  assumes "fold_safe e v" "getConstantIndex v = Some c" "eval e v = Some x" "type_of v \<noteq> IntTy 1"
  shows "x = c"
  using const_sound [OF assms(1-3)] assms(4) by (simp add: agrees_int)

lemma one_constant_eval:
  assumes "isOneConstant v" "eval e v = Some x" "fold_safe e v"
  shows "x = 1"
  using assms by (cases v rule: getConstantIndex.cases)
    (auto simp: isOneConstant_def isConstantEqual_def attr_ok_def split: if_splits option.splits)

lemma max_one_sem:
  assumes "width t = 64" "in64 y"
  shows "bin_sem t MaxUI 1 y = Some (if y = 0 then 1 else y)"
    and "bin_sem t MaxUI y 1 = Some (if y = 0 then 1 else y)"
proof -
  have u: "u64 1 = 1" by (simp add: u64_def)
  have z: "u64 y = 0 \<longleftrightarrow> y = 0" using u64_eq_0_iff assms(2) by blast
  have n: "0 \<le> u64 y" by simp
  have one: "u64 y = 1 \<longleftrightarrow> y = 1"
    using u u64_inj [of y 1] assms(2) by (auto simp: in64_def)
  have pos: "1 \<le> u64 y" if "y \<noteq> 0" using that z n by linarith
  show "bin_sem t MaxUI 1 y = Some (if y = 0 then 1 else y)"
    using u z pos assms(1) by (cases "y = 0") (auto simp: uns_at_64)
  show "bin_sem t MaxUI y 1 = Some (if y = 0 then 1 else y)"
    using u z pos one assms(1) by (cases "y = 0") (auto simp: uns_at_64)
qed

lemma strip_clamp_loop_sound:
  "fold_safe e v \<Longrightarrow> eval e v = Some x \<Longrightarrow>
     \<exists>y. eval e (strip_clamp_loop v) = Some y \<and> (x = y \<or> x = 1 \<and> y = 0)"
proof (induction v arbitrary: x rule: strip_clamp_loop.induct)
  case (1 i t f a b)
  show ?case
  proof (cases "f = MaxUI")
    case max: True
    have s: "width t = 64" "fold_safe e a" "fold_safe e b" using "1.prems"(1) by auto
    obtain y z where y: "eval e a = Some y" and z: "eval e b = Some z"
      and x: "bin_sem t MaxUI y z = Some x" using "1.prems"(2) max by (auto split: option.splits)
    note sa = strip_safe [OF s(2)] and sb = strip_safe [OF s(3)]
    have yz: "in64 y" "in64 z" using eval_in64 s y z by blast+
    consider (l) "isOneConstant (stripNumericCasts a)"
      | (r) "\<not> isOneConstant (stripNumericCasts a)" "isOneConstant (stripNumericCasts b)"
      | (n) "\<not> isOneConstant (stripNumericCasts a)" "\<not> isOneConstant (stripNumericCasts b)"
      by blast
    then show ?thesis
    proof cases
      case l
      have "y = 1" using one_constant_eval [OF l] sa y by auto
      moreover obtain w where "eval e (strip_clamp_loop (stripNumericCasts b)) = Some w"
        "z = w \<or> z = 1 \<and> w = 0" using "1.IH"(1) [OF max refl refl l] sb z by auto
      ultimately show ?thesis using l x max max_one_sem(1) [OF s(1) yz(2)]
        by (auto simp: Let_def split: if_splits)
    next
      case r
      have "z = 1" using one_constant_eval [OF r(2)] sb z by auto
      moreover obtain w where "eval e (strip_clamp_loop (stripNumericCasts a)) = Some w"
        "y = w \<or> y = 1 \<and> w = 0" using "1.IH"(2) [OF max refl refl r] sa y by auto
      ultimately show ?thesis using r x max max_one_sem(2) [OF s(1) yz(1)]
        by (auto simp: Let_def split: if_splits)
    next
      case n
      then show ?thesis using "1.prems"(2) max by (simp add: Let_def del: eval.simps)
    qed
  next
    case False
    then show ?thesis using "1.prems"(2) by (simp del: eval.simps)
  qed
qed auto

lemma stripClampOne_value:
  assumes "fold_safe e v" "eval e v = Some x"
  obtains y where "eval e (stripClampOne v) = Some y" "x = y \<or> x = 1 \<and> y = 0"
  using strip_clamp_loop_sound [of e "stripNumericCasts v" x] strip_safe [OF assms(1)] assms(2)
  unfolding stripClampOne_def by auto

subsection \<open>Equivalence\<close>

text \<open>
  The structural comparison looks at operation names and operands, never at attributes:
  it decides equality of values only where the name determines the operation.
\<close>

fun attr_free :: "val \<Rightarrow> bool" where
  "attr_free (BlockArg _ _ _ _) = True"
| "attr_free (Const _ _ a) = (case a of IntAttr _ \<Rightarrow> True | BoolAttr _ \<Rightarrow> True | _ \<Rightarrow> False)"
| "attr_free (Bin _ _ _ a b) = (attr_free a \<and> attr_free b)"
| "attr_free (Cast _ _ _ a) = attr_free a"
| "attr_free (Select _ _ c a b) = (attr_free c \<and> attr_free a \<and> attr_free b)"
| "attr_free _ = False"

lemma strip_attr_free: "attr_free v \<Longrightarrow> attr_free (stripNumericCasts v)"
  by (induction v rule: stripNumericCasts.induct) auto

lemma bin_sem_width: "width t = width u \<Longrightarrow> bin_sem t f x y = bin_sem u f x y"
  by (cases f) (simp_all add: sgn_at_def uns_at_def)

lemma bin_sem_comm:
  assumes "f \<in> {AddI, MulI, MaxUI, MinUI}" "width t = 64" "in64 x" "in64 y"
  shows "bin_sem t f x y = bin_sem t f y x"
proof -
  have "u64 x = u64 y \<longleftrightarrow> x = y" using u64_inj assms(3,4) by blast
  then show ?thesis using assms(1,2) by (auto simp: uns_at_64 algebra_simps)
qed

lemma operands_fold_safe:
  "fold_safe e v \<Longrightarrow> attr_free v \<Longrightarrow> x \<in> set (operands v) \<Longrightarrow> fold_safe e x \<and> attr_free x"
  by (cases v) auto

text \<open>Same operation, operands with the same values: the same value.\<close>

lemma same_op_same_value:
  assumes safe: "fold_safe e a" "fold_safe e b" "attr_free a" "attr_free b"
    and op: "op_name_of a = op_name_of b" "op_name_of a \<noteq> None" "op_name_of a \<noteq> Some NConst"
    and len: "length (operands a) = length (operands b)"
    and eq: "\<And>n u w. n < length (operands a) \<Longrightarrow> eval e (operands a ! n) = Some u \<Longrightarrow>
               eval e (operands b ! n) = Some w \<Longrightarrow> u = w"
    and x: "eval e a = Some x" and y: "eval e b = Some y"
  shows "x = y"
proof (cases a)
  case (Bin i t f p q)
  then obtain j u r s where b: "b = Bin j u f r s" using op by (cases b) auto
  obtain vp vq vr vs where v: "eval e p = Some vp" "eval e q = Some vq"
    "eval e r = Some vr" "eval e s = Some vs" "bin_sem t f vp vq = Some x" "bin_sem u f vr vs = Some y"
    using x y Bin b by (auto split: option.splits)
  have "vp = vr" by (rule eq [of 0]) (use Bin b v in simp_all)
  moreover have "vq = vs" by (rule eq [of 1]) (use Bin b v in simp_all)
  moreover have "width t = width u" using safe Bin b by simp
  ultimately show ?thesis using v bin_sem_width [of t u] by simp
next
  case (Cast i t c p)
  then obtain j u r where b: "b = Cast j u c r" using op by (cases b) auto
  have "eval e p = Some x" "eval e r = Some y" using safe x y Cast b by (auto simp del: eval.simps)
  then show ?thesis by (intro eq [of 0]) (use Cast b in simp_all)
next
  case (Select i t c p q)
  then obtain j u d r s where b: "b = Select j u d r s" using op by (cases b) auto
  obtain vc vd where v: "eval e c = Some vc" "eval e d = Some vd"
    "(if vc \<noteq> 0 then eval e p else eval e q) = Some x" "(if vd \<noteq> 0 then eval e r else eval e s) = Some y"
    using x y Select b by (auto split: option.splits)
  have c: "vc = vd" by (rule eq [of 0]) (use Select b v(1,2) in simp_all)
  have "u = w" if "eval e p = Some u" "eval e r = Some w" for u w
    by (rule eq [of 1]) (use Select b that in simp_all)
  moreover have "u = w" if "eval e q = Some u" "eval e s = Some w" for u w
    by (rule eq [of 2]) (use Select b that in simp_all)
  ultimately show ?thesis using c v(3,4) by (metis (full_types))
qed (use safe op in auto)

lemma sameValue_value:
  assumes "services_sound P e" "sameValue P a b" "fold_safe e a" "fold_safe e b"
    and "type_of a \<noteq> IntTy 1" "type_of b \<noteq> IntTy 1" "eval e a = Some x" "eval e b = Some y"
  shows "x = y"
proof (rule same_value_sound [OF assms(1)])
  show "same_value_core P (stripNumericCasts a) (stripNumericCasts b)
      (tryFoldConstantIndex P 0 (stripNumericCasts a)) (tryFoldConstantIndex P 0 (stripNumericCasts b))"
    using assms(2) unfolding sameValue_def Let_def .
  show "eval e (stripNumericCasts a) = Some x" "eval e (stripNumericCasts b) = Some y"
    using assms strip_safe by simp_all
  show "c = x" if "tryFoldConstantIndex P 0 (stripNumericCasts a) = Some c" for c
    using generic.fold_stripped_sound [of P e a 0 c x] that assms by (simp add: tryFoldConstantIndex_def)
  show "c = y" if "tryFoldConstantIndex P 0 (stripNumericCasts b) = Some c" for c
    using generic.fold_stripped_sound [of P e b 0 c y] that assms by (simp add: tryFoldConstantIndex_def)
qed

lemma constant_value:
  assumes "fold_safe e v" "getConstantIndex v = Some c" "eval e v = Some x"
  shows "x = c"
  using assms by (cases v rule: getConstantIndex.cases) (auto simp: attr_ok_def)

lemma literal_constant: "op_name_of v = Some NConst \<Longrightarrow> attr_free v \<Longrightarrow> getConstantIndex v \<noteq> None"
  by (cases v) (auto split: attr.splits)

lemma binop_operands: "op_name_of v = Some (NBin f) \<Longrightarrow> \<exists>p q. operands v = [p, q]"
  by (cases v) auto

lemma equivalent_cases:
  assumes "areValuesEquivalent P d x y"
  obtains (same) "x = y"
  | (stripped) "stripNumericCasts x = stripNumericCasts y"
  | (bounds) "proveValuesEqualWithBounds P (stripNumericCasts x) (stripNumericCasts y) = Some True"
  | (literal) c where "getConstantIndex (stripNumericCasts x) = Some c"
      "getConstantIndex (stripNumericCasts y) = Some c"
  | (comm) a b p q r s where "\<not> d > 6" "a = stripNumericCasts x" "b = stripNumericCasts y"
      "op_name_of a = op_name_of b" "operands a = [p, q]" "operands b = [r, s]"
      "op_name_of a \<in> {Some (NBin AddI), Some (NBin MulI), Some (NBin MaxUI), Some (NBin MinUI)}"
      "areValuesEquivalent P (d + 1) p s" "areValuesEquivalent P (d + 1) q r"
  | (pairwise) a b where "\<not> d > 6" "a = stripNumericCasts x" "b = stripNumericCasts y"
      "op_name_of a = op_name_of b" "op_name_of a \<noteq> None"
      "getConstantIndex a = None \<or> getConstantIndex b = None"
      "length (operands a) = length (operands b)"
      "\<forall>n < length (operands a). areValuesEquivalent P (d + 1) (operands a ! n) (operands b ! n)"
proof -
  let ?a = "stripNumericCasts x" and ?b = "stripNumericCasts y"
  let ?comm = "{Some (NBin AddI), Some (NBin MulI), Some (NBin MaxUI), Some (NBin MinUI)}"
  let ?eq = "areValuesEquivalent P (d + 1)"
  show thesis
  proof (cases "x = y \<or> ?a = ?b \<or> proveValuesEqualWithBounds P ?a ?b = Some True \<or>
      (getConstantIndex ?a \<noteq> None \<and> getConstantIndex ?b \<noteq> None)")
    case True
    then show ?thesis using assms same stripped bounds literal
      unfolding areValuesEquivalent.simps [of P d x y] by (auto simp: Let_def split: if_splits)
  next
    case False
    then have n: "\<not> d > 6" "op_name_of ?a = op_name_of ?b" "op_name_of ?a \<noteq> None"
      "length (operands ?a) = length (operands ?b)"
      "getConstantIndex ?a = None \<or> getConstantIndex ?b = None"
      and e: "if op_name_of ?a \<in> ?comm
        then (?eq (operands ?a ! 0) (operands ?b ! 0) \<and> ?eq (operands ?a ! 1) (operands ?b ! 1)) \<or>
             (?eq (operands ?a ! 0) (operands ?b ! 1) \<and> ?eq (operands ?a ! 1) (operands ?b ! 0))
        else list_all (\<lambda>(u, w). ?eq u w) (zip (operands ?a) (operands ?b))"
      using assms unfolding areValuesEquivalent.simps [of P d x y]
      by (auto simp: Let_def split: if_splits)
    show ?thesis
    proof (cases "op_name_of ?a \<in> ?comm")
      case True
      then obtain p q r s where o: "operands ?a = [p, q]" "operands ?b = [r, s]"
        using binop_operands n(2) by (metis insertE singletonD)
      have "(?eq p r \<and> ?eq q s) \<or> (?eq p s \<and> ?eq q r)" using e True o by simp
      then show ?thesis
        using comm [OF n(1) refl refl n(2) o True] pairwise [OF n(1) refl refl n(2,3,5,4)] o
        by (auto simp: less_Suc_eq nth_Cons')
    next
      case False
      then have "list_all (\<lambda>(u, w). ?eq u w) (zip (operands ?a) (operands ?b))" using e by simp
      then have "\<forall>n < length (operands ?a). ?eq (operands ?a ! n) (operands ?b ! n)"
        using n(4) by (simp add: list_all_length)
      then show ?thesis using pairwise [OF n(1) refl refl n(2,3,5,4)] by blast
    qed
  qed
qed

lemma equivalent_sound_aux:
  "areValuesEquivalent P d x y \<Longrightarrow> services_sound P e \<Longrightarrow>
     fold_safe e x \<Longrightarrow> fold_safe e y \<Longrightarrow> attr_free x \<Longrightarrow> attr_free y \<Longrightarrow>
     eval e x = Some u \<Longrightarrow> eval e y = Some w \<Longrightarrow> u = w"
proof (induction "7 - d" arbitrary: d x y u w rule: less_induct)
  case less
  let ?a = "stripNumericCasts x" and ?b = "stripNumericCasts y"
  note svc = less.prems(2)
  have s: "fold_safe e ?a" "fold_safe e ?b" "attr_free ?a" "attr_free ?b"
    and ev: "eval e ?a = Some u" "eval e ?b = Some w"
    using strip_safe strip_attr_free less.prems by auto
  have ih: "u' = w'" if "\<not> d > 6" "areValuesEquivalent P (d + 1) p q" "p \<in> set (operands ?a)"
    "q \<in> set (operands ?b)" "eval e p = Some u'" "eval e q = Some w'" for p q u' w'
    by (rule less.hyps [OF _ that(2) svc _ _ _ _ that(5,6)])
      (use that operands_fold_safe [OF s(1,3)] operands_fold_safe [OF s(2,4)] in auto)
  show ?case using less.prems(1)
  proof (cases rule: equivalent_cases)
    case (comm a b p q r t)
    obtain f i ty j tz where f: "?a = Bin i ty f p q" "?b = Bin j tz f r t"
      and fc: "f \<in> {AddI, MulI, MaxUI, MinUI}"
      using comm by (cases ?a; cases ?b) auto
    obtain vp vq vr vt where v: "eval e p = Some vp" "eval e q = Some vq"
      "eval e r = Some vr" "eval e t = Some vt" "bin_sem ty f vp vq = Some u" "bin_sem tz f vr vt = Some w"
      using ev f by (auto split: option.splits)
    have o: "operands ?a = [p, q]" "operands ?b = [r, t]" using f by simp_all
    have "vp = vt" by (rule ih [OF comm(1,8) _ _ v(1,4)]) (simp_all add: o)
    moreover have "vq = vr" by (rule ih [OF comm(1,9) _ _ v(2,3)]) (simp_all add: o)
    moreover have wd: "width ty = 64" "width tz = 64" "fold_safe e p" "fold_safe e q" using s f by auto
    ultimately show ?thesis
      using v(5,6) bin_sem_comm [OF fc wd(1) eval_in64 [OF wd(3) v(1)] eval_in64 [OF wd(4) v(2)]]
        bin_sem_width [of ty tz f vq vp] by simp
  next
    case (pairwise a b)
    have nc: "op_name_of ?a \<noteq> Some NConst"
    proof
      assume "op_name_of ?a = Some NConst"
      then have "op_name_of ?b = Some NConst" "op_name_of ?a = Some NConst" using pairwise by simp_all
      then have "getConstantIndex ?a \<noteq> None" "getConstantIndex ?b \<noteq> None"
        using s(3,4) literal_constant by blast+
      then show False using pairwise by auto
    qed
    show ?thesis
    proof (rule same_op_same_value [OF s _ _ nc _ _ ev])
      show "op_name_of ?a = op_name_of ?b" "op_name_of ?a \<noteq> None"
        "length (operands ?a) = length (operands ?b)" using pairwise by simp_all
      fix n u' w'
      assume "n < length (operands ?a)" "eval e (operands ?a ! n) = Some u'"
        "eval e (operands ?b ! n) = Some w'"
      then show "u' = w'" using pairwise by (intro ih [OF pairwise(1)]) auto
    qed
  qed (use ev less.prems svc constant_value [OF s(1) _ ev(1)] constant_value [OF s(2) _ ev(2)] in
        \<open>auto simp: proveValuesEqualWithBounds_def services_sound_def split: if_splits\<close>)
qed

lemma nonzero_by_bounds:
  assumes "services_sound P e" "proveValueNonZero P v = Some True" "eval e v = Some x"
  shows "x \<noteq> 0"
proof -
  have l: "l \<le> x" if "const_lower_bound P v = Some l" for l
    using assms that by (auto simp: services_sound_def)
  have r: "x \<le> r" if "const_upper_bound P v = Some r" for r
    using assms that by (auto simp: services_sound_def)
  show ?thesis using assms(2) l r
    by (fastforce simp: proveValueNonZero_def proveValueAtLeast_def split: if_splits)
qed

lemma at_least_one_sound:
  assumes "services_sound P e" "fold_safe e v" "type_of v \<noteq> IntTy 1"
    and "isConstantAtLeastOne P v" "eval e v = Some x"
  shows "1 \<le> x"
proof -
  let ?v = "stripNumericCasts v"
  have s: "fold_safe e ?v" "eval e ?v = Some x" "type_of ?v \<noteq> IntTy 1"
    using strip_safe [OF assms(2)] assms by auto
  have l: "l \<le> x" if "const_lower_bound P ?v = Some l" for l
    using assms(1) s that by (auto simp: services_sound_def)
  have c: "c = x" if "getConstantIndex ?v = Some c" for c
    using const_eval [OF s(1) that s(2,3)] by simp
  show ?thesis using assms(4) l c
    by (fastforce simp: isConstantAtLeastOne_def Let_def proveValueAtLeast_def split: if_splits option.splits)
qed

text \<open>
  A value whose non-zero proof goes through \<open>maxui\<close> only: the rule for \<open>maxsi\<close> is
  unsound, since the larger of a negative number and zero is zero.
\<close>

fun max_unsigned :: "val \<Rightarrow> bool" where
  "max_unsigned (Bin i t f a b) = (f \<noteq> MaxSI \<and> (f = MaxUI \<longrightarrow> max_unsigned a \<and> max_unsigned b))"
| "max_unsigned (Cast i t c a) = (c \<noteq> IndexCastUI \<longrightarrow> max_unsigned a)"
| "max_unsigned _ = True"

lemma strip_max_unsigned: "max_unsigned v \<Longrightarrow> max_unsigned (stripNumericCasts v)"
  by (induction v rule: stripNumericCasts.induct) auto

lemma umax_nonzero:
  assumes "bin_sem t MaxUI y z = Some x" "width t = 64" "in64 y" "in64 z" "y \<noteq> 0 \<or> z \<noteq> 0"
  shows "x \<noteq> 0"
proof -
  have "u64 y \<noteq> 0 \<or> u64 z \<noteq> 0" using u64_eq_0_iff assms(3-5) by blast
  moreover have "u64 x = max (u64 y) (u64 z)" using assms(1,2) by (auto simp: uns_at_64 max_def)
  moreover have "0 \<le> u64 y" "0 \<le> u64 z" by simp_all
  ultimately have "u64 x \<noteq> 0" by linarith
  then show ?thesis by (auto simp: u64_def)
qed

lemma nonzero_sound_aux:
  "isProvablyNonZero P d v \<Longrightarrow> services_sound P e \<Longrightarrow> fold_safe e v \<Longrightarrow> max_unsigned v \<Longrightarrow>
     type_of v \<noteq> IntTy 1 \<Longrightarrow> eval e v = Some x \<Longrightarrow> x \<noteq> 0"
proof (induction P d v arbitrary: x rule: isProvablyNonZero.induct)
  case (1 P d u)
  let ?v = "stripNumericCasts u"
  have s: "fold_safe e ?v" "eval e ?v = Some x" "type_of ?v \<noteq> IntTy 1" "max_unsigned ?v"
    using strip_safe [OF "1.prems"(3)] strip_max_unsigned "1.prems" by auto
  have d: "\<not> d > 4" using "1.prems"(1) isProvablyNonZero.simps by metis
  consider (b) "proveValueNonZero P ?v = Some True" | (c) "isConstantAtLeastOne P ?v"
    | (m) i t a b where "proveValueNonZero P ?v = None" "\<not> isConstantAtLeastOne P ?v" "?v = Bin i t MaxUI a b"
        "isProvablyNonZero P (d + 1) a \<or> isProvablyNonZero P (d + 1) b"
    using "1.prems"(1) s(4) unfolding isProvablyNonZero.simps [of P d u]
    by (auto simp: Let_def split: if_splits option.splits val.splits)
  then show ?case
  proof cases
    case b
    then show ?thesis using nonzero_by_bounds "1.prems"(2) s(2) by blast
  next
    case c
    then show ?thesis using at_least_one_sound [OF "1.prems"(2) s(1,3) c s(2)] by simp
  next
    case m
    obtain y z where yz: "eval e a = Some y" "eval e b = Some z" "bin_sem t MaxUI y z = Some x"
      using s(2) m(3) by (auto split: option.splits)
    have t: "fold_safe e a" "fold_safe e b" "width t = 64" "type_of a = t" "type_of b = t"
      "max_unsigned a" "max_unsigned b" using s(1,4) m(3) by auto
    then have i1: "type_of a \<noteq> IntTy 1" "type_of b \<noteq> IntTy 1" by auto
    have "y \<noteq> 0 \<or> z \<noteq> 0"
      using "1.IH"(1) [OF d refl m(1,2,3) refl _ "1.prems"(2) t(1,6) i1(1) yz(1)]
        "1.IH"(2) [OF d refl m(1,2,3) refl _ "1.prems"(2) t(2,7) i1(2) yz(2)] m(4) by blast
    then show ?thesis
      using umax_nonzero [OF yz(3) t(3) eval_in64 [OF t(1) yz(1)] eval_in64 [OF t(2) yz(2)]] by simp
  qed
qed

subsection \<open>Dependence\<close>

definition followed :: "(val \<times> val) set" where
  "followed = {(x, y). follows y \<and> x \<in> set (operands y)}"

lemma dependsOn_path:
  "dependsOn d v base \<longleftrightarrow> (\<exists>n. d + n \<le> 8 \<and> (base, v) \<in> followed ^^ n)"
proof (induction d v base rule: dependsOn.induct)
  case (1 d v base)
  show ?case
  proof (cases "d > 8 \<or> v = base \<or> \<not> follows v")
    case True
    have "(base, v) \<notin> followed ^^ n" if "v \<noteq> base" "\<not> follows v" for n
      using that by (cases n) (auto simp: followed_def)
    with True show ?thesis by (subst dependsOn.simps) (force intro: exI [of _ 0])
  next
    case False
    then have d: "\<not> d > 8" "v \<noteq> base" "\<not> \<not> follows v" by auto
    have "(\<exists>x\<in>set (operands v). \<exists>n. d + 1 + n \<le> 8 \<and> (base, x) \<in> followed ^^ n) \<longleftrightarrow>
          (\<exists>n. d + n \<le> 8 \<and> (base, v) \<in> followed ^^ n)" (is "?l \<longleftrightarrow> ?r")
    proof
      assume ?l
      then obtain x n where "x \<in> set (operands v)" "d + 1 + n \<le> 8" "(base, x) \<in> followed ^^ n" by blast
      then show ?r using d by (intro exI [of _ "Suc n"]) (auto simp: followed_def)
    next
      assume ?r
      then obtain n where n: "d + n \<le> 8" "(base, v) \<in> followed ^^ n" by blast
      then obtain m where "n = Suc m" using d(2) by (cases n) auto
      then show ?l using n by (auto simp: followed_def)
    qed
    then show ?thesis using d "1.IH" [OF d] by (subst dependsOn.simps) (auto simp: list_ex_iff)
  qed
qed

subsection \<open>Constant offsets\<close>

lemma wrap64_shift: "wrap64 (wrap64 (a + c) + y) = wrap64 (a + wrap64 (c + y))"
  using wrap64_add [of "wrap64 (a + c)" y] wrap64_add [of "a + c" y] wrap64_add [of a "wrap64 (c + y)"]
    wrap64_add [of a "c + y"] by (simp add: add.assoc)

lemma strip_offset_sound:
  "strip_offset_loop acc v = (w, k) \<Longrightarrow> fold_safe e v \<Longrightarrow> eval e v = Some x \<Longrightarrow>
     \<exists>y. eval e w = Some y \<and> wrap64 (acc + x) = wrap64 (k + y)"
proof (induction acc v arbitrary: x rule: strip_offset_loop.induct)
  case (1 acc i t f a b)
  show ?case
  proof (cases "strip_offset_loop acc (Bin i t f a b) = (Bin i t f a b, acc)")
    case True
    then show ?thesis using "1.prems" by (auto simp del: eval.simps)
  next
    case False
    have s: "fold_safe e a" "fold_safe e b" "width t = 64" using "1.prems"(2) by auto
    obtain y z where y: "eval e a = Some y" and z: "eval e b = Some z"
      and x: "bin_sem t f y z = Some x" using "1.prems"(3) by (auto split: option.splits)
    note sa = strip_safe [OF s(1)] and sb = strip_safe [OF s(2)]
    consider (l) c where "f = AddI" "getConstantIndex a = Some c"
      | (r) c where "f = AddI" "getConstantIndex a = None" "getConstantIndex b = Some c"
      | (m) c where "f = SubI" "getConstantIndex b = Some c"
      using False by (auto split: if_splits option.splits)
    then show ?thesis
    proof cases
      case l
      have c: "y = c" using constant_value [OF s(1) l(2) y] .
      obtain u where "eval e w = Some u" "wrap64 (wrap64 (acc + c) + z) = wrap64 (k + u)"
        using "1.IH"(2) [OF l] "1.prems"(1) l sb z by auto
      then show ?thesis using x c l s(3) by (auto simp: sgn_at_64 wrap64_shift)
    next
      case r
      have c: "z = c" using constant_value [OF s(2) r(3) z] .
      obtain u where "eval e w = Some u" "wrap64 (wrap64 (acc + c) + y) = wrap64 (k + u)"
        using "1.IH"(1) [OF r] "1.prems"(1) r sa y by auto
      then show ?thesis using x c r s(3) by (auto simp: sgn_at_64 wrap64_shift add.commute [of y c])
    next
      case m
      have c: "z = c" using constant_value [OF s(2) m(2) z] .
      have "f \<noteq> AddI" using m by simp
      then obtain u where "eval e w = Some u" "wrap64 (wrap64 (acc - c) + y) = wrap64 (k + u)"
        using "1.IH"(3) [OF _ m] "1.prems"(1) m sa y by auto
      moreover have "wrap64 (wrap64 (acc + - c) + y) = wrap64 (acc + wrap64 (- c + y))"
        by (rule wrap64_shift)
      ultimately show ?thesis using x c m s(3) by (auto simp: sgn_at_64)
    qed
  qed
qed auto

subsection \<open>Properties\<close>

text \<open>
  C28: The structural comparison of index expressions is sound, with commuted operands and
  value-preserving casts: values declared equivalent, at any starting depth, are equal
  whenever both have a value. This is for expressions of arguments, integer and boolean
  constants, arithmetic, casts and selects (\<open>attr_free\<close>, so that the operation's name
  determines it) that are \<open>fold_safe\<close>: arithmetic on 64-bit types, and every cast keeps the
  value and is not to or from \<open>i1\<close>. A value and its truncation are declared equivalent too,
  so the statement fails for casts that lose bits. The bounds solver is right.
\<close>

theorem areValuesEquivalent_sound:
  assumes "areValuesEquivalent P d x y" "services_sound P e"
    and "fold_safe e x" "fold_safe e y" "attr_free x" "attr_free y"
    and "eval e x = Some u" "eval e y = Some w"
  shows "u = w"
  using equivalent_sound_aux assms by blast

lemma areValuesEquivalent_sound_witness:
  "let arg = BlockArg 0 0 IndexTy None;
       x = Bin 1 IndexTy AddI (Bin 2 IndexTy MulI arg (index_const 3 4)) arg;
       y = Bin 4 IndexTy AddI arg (Bin 5 IndexTy MulI (index_const 6 4) arg)
   in areValuesEquivalent no_services 0 x y \<and> the (eval no_env x) = the (eval no_env y)"
proof -
  let ?arg = "BlockArg 0 0 IndexTy None"
  let ?x = "Bin 1 IndexTy AddI (Bin 2 IndexTy MulI ?arg (index_const 3 4)) ?arg"
  let ?y = "Bin 4 IndexTy AddI ?arg (Bin 5 IndexTy MulI (index_const 6 4) ?arg)"
  have q: "areValuesEquivalent no_services 0 ?x ?y" by code_simp
  have s: "fold_safe no_env ?x" "fold_safe no_env ?y" "attr_free ?x" "attr_free ?y" by code_simp+
  obtain u w where e: "eval no_env ?x = Some u" "eval no_env ?y = Some w"
    by (rule that [of 35 35]) code_simp+
  have "u = w" by (rule areValuesEquivalent_sound [OF q services_no_services s e])
  then show ?thesis using q e by (simp add: Let_def del: eval.simps)
qed

text \<open>
  On expressions whose arithmetic is 64-bit and whose casts keep the value (\<open>fold_safe\<close>), a
  non-zero proof is right where it does not go through \<open>maxsi\<close>: the value is not zero,
  so that a division or remainder by it is defined.
\<close>

theorem isProvablyNonZero_sound:
  assumes "isProvablyNonZero P d v" "services_sound P e" "fold_safe e v" "max_unsigned v"
    and "type_of v \<noteq> IntTy 1" "eval e v = Some x"
  shows "x \<noteq> 0"
  using nonzero_sound_aux assms by blast

lemma isProvablyNonZero_sound_witness:
  "let v = Bin 0 IndexTy MaxUI (BlockArg 1 0 IndexTy None) (index_const 2 1)
   in isProvablyNonZero no_services 0 v \<and> the (eval no_env v) \<noteq> 0"
proof -
  let ?v = "Bin 0 IndexTy MaxUI (BlockArg 1 0 IndexTy None) (index_const 2 1)"
  have q: "isProvablyNonZero no_services 0 ?v" by code_simp
  have s: "fold_safe no_env ?v" "max_unsigned ?v" "type_of ?v \<noteq> IntTy 1" by code_simp+
  obtain x where e: "eval no_env ?v = Some x" by (rule that [of 7]) code_simp
  have "x \<noteq> 0" by (rule isProvablyNonZero_sound [OF q services_no_services s e])
  then show ?thesis using q e by (simp add: Let_def del: eval.simps)
qed

text \<open>
  \<open>stripClampOne\<close> and \<open>stripConstantOffset\<close> decompose values that fold safely: what the clamp stripper
  returns differs from the value only where the value is 1 and the result is 0; and the
  value is the returned base plus the returned offset, modulo 64-bit arithmetic.
\<close>

theorem strip_decomposition:
  assumes "fold_safe e v" "eval e v = Some x"
  shows "\<exists>y z. eval e (stripClampOne v) = Some y \<and> (x = y \<or> x = 1 \<and> y = 0) \<and>
           eval e (fst (stripConstantOffset v)) = Some z \<and> x = wrap64 (snd (stripConstantOffset v) + z)"
proof -
  obtain y where y: "eval e (stripClampOne v) = Some y" "x = y \<or> x = 1 \<and> y = 0"
    using stripClampOne_value [OF assms] .
  have "\<exists>z. eval e (fst (stripConstantOffset v)) = Some z \<and>
      wrap64 (0 + x) = wrap64 (snd (stripConstantOffset v) + z)"
    using strip_safe [OF assms(1)] assms(2)
    by (intro strip_offset_sound [of 0 "stripNumericCasts v"])
      (simp_all add: stripConstantOffset_def)
  then show ?thesis using y eval_in64 [OF assms] by (auto simp: wrap64_id)
qed

lemma strip_decomposition_witness:
  "let v = Bin 0 IndexTy SubI (Bin 1 IndexTy AddI (BlockArg 2 0 IndexTy None) (index_const 3 5)) (index_const 4 2)
   in stripConstantOffset v = (BlockArg 2 0 IndexTy None, 3) \<and>
      the (eval no_env v) = wrap64 (3 + the (eval no_env (BlockArg 2 0 IndexTy None)))"
proof -
  let ?v = "Bin 0 IndexTy SubI (Bin 1 IndexTy AddI (BlockArg 2 0 IndexTy None) (index_const 3 5)) (index_const 4 2)"
  have s: "fold_safe no_env ?v" by code_simp
  obtain x where e: "eval no_env ?v = Some x" by (rule that [of 10]) code_simp
  have o: "stripConstantOffset ?v = (BlockArg 2 0 IndexTy None, 3)" by code_simp
  show ?thesis using strip_decomposition [OF s e] o e by (auto simp: Let_def simp del: eval.simps)
qed

text \<open>
  C35: \<open>dependsOn\<close> is bounded reachability: it answers true exactly when the base is reached
  from the value through at most eight steps (counted from the starting depth) from the
  result of a followed operation to one of its operands.
\<close>

theorem dependsOn_iff:
  "dependsOn d v base \<longleftrightarrow> (\<exists>n. d + n \<le> 8 \<and> (base, v) \<in> followed ^^ n)"
  by (rule dependsOn_path)

section \<open>Where the hypotheses matter\<close>

text \<open>Comparisons with different predicates, and different runtime queries, are equivalent.\<close>

lemma equivalent_ignores_attributes:
  "areValuesEquivalent no_services 0
     (CmpI 0 Cslt (index_const 1 2) (index_const 2 3)) (CmpI 3 Csge (index_const 4 2) (index_const 5 3))"
  "areValuesEquivalent no_services 0 (RuntimeQuery 0 IndexTy TotalWorkers) (RuntimeQuery 1 IndexTy CurrentNode)"
  "areValuesEquivalent no_services 0 (Const 0 (FloatTy 64) (FloatAttr 1)) (Const 1 (FloatTy 64) (FloatAttr 2))"
  by code_simp+

text \<open>The signed maximum of -1, which the bounds prove non-zero, and an argument that is zero.\<close>

definition minus_one_bounds :: mlir where
  "minus_one_bounds = no_services\<lparr>const_upper_bound :=
     (\<lambda>v. if v = index_const 1 (-1) then Some (-1) else None)\<rparr>"

lemma nonzero_maxsi_unsound:
  "isProvablyNonZero minus_one_bounds 0
     (Bin 0 IndexTy MaxSI (index_const 1 (-1)) (BlockArg 2 0 IndexTy None))"
  "eval (no_env\<lparr>arg_val := (\<lambda>b n. 0)\<rparr>)
     (Bin 0 IndexTy MaxSI (index_const 1 (-1)) (BlockArg 2 0 IndexTy None)) = Some 0"
  by code_simp+

text \<open>\<open>1 + (min(x, y) - y)\<close> is accepted as one-like; with \<open>x = 0\<close> and \<open>y = 5\<close> it is -4.\<close>

lemma one_like_not_one:
  "isOneLikeValue
     (Bin 0 IndexTy AddI (index_const 1 1)
       (Bin 2 IndexTy SubI (Bin 3 IndexTy MinUI (index_const 4 0) (index_const 5 5)) (index_const 5 5)))"
  "eval no_env
     (Bin 0 IndexTy AddI (index_const 1 1)
       (Bin 2 IndexTy SubI (Bin 3 IndexTy MinUI (index_const 4 0) (index_const 5 5)) (index_const 5 5)))
     = Some (-4)"
  by code_simp+

end
