(* ===== verification/ValueTracing.thy ===== *)
theory ValueTracing
  imports ValueQueries
begin

text \<open>
  Following values: the memory root of a pointer or view (\<open>getUnderlyingValue\<close>,
  \<open>isDerivedFromPtr\<close>, both in the generic form and in the ARTS form that crosses EDT and
  datablock boundaries), the rebuilding of a value at a dominating place
  (\<open>traceValueToDominating\<close>), the cloning of values into a region
  (\<open>cloneValuesIntoRegion\<close>), and the ARTS offset helpers of \<open>ValueAnalysisUtils.cpp\<close>.
\<close>

section \<open>Memory roots\<close>

text \<open>
  One turn of \<open>getUnderlyingValueImpl\<close>: the value is a root, or the trace goes on through one
  operand, or it is lost.
\<close>

datatype trace = Root | Through val | Lost

fun root_step :: "val \<Rightarrow> trace" where
  "root_step (BlockArg b n t d) = Root"
| "root_step (AllocLike i t k xs) = Root"
| "root_step (ViewLike i t k s xs) = Through s"
| "root_step (Unrealized i n t xs) = (case xs of [] \<Rightarrow> Lost | x # _ \<Rightarrow> Through x)"
| "root_step _ = Lost"

fun arts_root_step :: "val \<Rightarrow> trace" where
  "arts_root_step (BlockArg b n t d) = (case d of Some x \<Rightarrow> Through x | None \<Rightarrow> Root)"
| "arts_root_step (DbAlloc i n t xs ys) = Root"
| "arts_root_step (AllocLike i t k xs) = Root"
| "arts_root_step (DbAcquire i n t g p xs ys) = Through p"
| "arts_root_step (DbRef i t s xs) = Through s"
| "arts_root_step (ViewLike i t k s xs) = Through s"
| "arts_root_step (Unrealized i n t xs) = (case xs of [] \<Rightarrow> Lost | x # _ \<Rightarrow> Through x)"
| "arts_root_step _ = Lost"

function getUnderlyingValueImpl :: "(val \<Rightarrow> trace) \<Rightarrow> val list \<Rightarrow> nat \<Rightarrow> val \<Rightarrow> val option" where
  "getUnderlyingValueImpl step visited depth v =
     (if depth > 64 \<or> v \<in> set visited then None
      else case step v of
             Root \<Rightarrow> Some v
           | Through u \<Rightarrow> getUnderlyingValueImpl step (v # visited) (depth + 1) u
           | Lost \<Rightarrow> None)"
  by pat_completeness auto
termination by (relation "measure (\<lambda>(step, visited, depth, v). 65 - depth)") auto

definition getUnderlyingValue :: "val \<Rightarrow> val option" where
  "getUnderlyingValue v = getUnderlyingValueImpl root_step [] 0 v"

definition arts_getUnderlyingValue :: "val \<Rightarrow> val option" where
  "arts_getUnderlyingValue v = getUnderlyingValueImpl arts_root_step [] 0 v"

text \<open>
  The operand \<open>isDerivedFromPtrImpl\<close> follows. The named view operations and the fallback both
  take the first operand, which is the base, source or view source of those operations.
\<close>

definition first_operand :: "val \<Rightarrow> val option" where
  "first_operand v = (case operands v of [] \<Rightarrow> None | x # _ \<Rightarrow> Some x)"

fun arts_derived_step :: "val \<Rightarrow> val option" where
  "arts_derived_step (BlockArg b n t d) = d"
| "arts_derived_step (DbAcquire i n t g p xs ys) = Some p"
| "arts_derived_step v = first_operand v"

function isDerivedFromPtrImpl :: "(val \<Rightarrow> val option) \<Rightarrow> val list \<Rightarrow> nat \<Rightarrow> val \<Rightarrow> val \<Rightarrow> bool" where
  "isDerivedFromPtrImpl step visited depth v source =
     (if depth > 64 then False
      else if v = source then True
      else if v \<in> set visited then False
      else case step v of
             None \<Rightarrow> False
           | Some u \<Rightarrow> isDerivedFromPtrImpl step (v # visited) (depth + 1) u source)"
  by pat_completeness auto
termination by (relation "measure (\<lambda>(step, visited, depth, v, source). 65 - depth)") auto

definition isDerivedFromPtr :: "val \<Rightarrow> val \<Rightarrow> bool" where
  "isDerivedFromPtr v source = isDerivedFromPtrImpl first_operand [] 0 v source"

definition arts_isDerivedFromPtr :: "val \<Rightarrow> val \<Rightarrow> bool" where
  "arts_isDerivedFromPtr v source = isDerivedFromPtrImpl arts_derived_step [] 0 v source"

definition sameMemrefRoot :: "mlir \<Rightarrow> val \<Rightarrow> val \<Rightarrow> bool" where
  "sameMemrefRoot P x y = sameValue P (stripMemrefViewOps x) (stripMemrefViewOps y)"

declare getUnderlyingValueImpl.simps [simp del] isDerivedFromPtrImpl.simps [simp del]

subsection \<open>The contract of a tracer\<close>

text \<open>
  What the two tracing loops need of the step they iterate: it goes to a smaller value.
  Then the visited set never cuts a trace, and the only limit is the depth.
\<close>

definition stepped :: "(val \<Rightarrow> val option) \<Rightarrow> (val \<times> val) set" where
  "stepped f = {(v, u). f v = Some u}"

definition through :: "(val \<Rightarrow> trace) \<Rightarrow> val \<Rightarrow> val option" where
  "through f v = (case f v of Through u \<Rightarrow> Some u | _ \<Rightarrow> None)"

lemma stepped_0: "(v, w) \<in> stepped f ^^ 0 \<longleftrightarrow> v = w"
  by simp

lemma stepped_Suc: "(v, w) \<in> stepped f ^^ Suc n \<longleftrightarrow> (\<exists>u. f v = Some u \<and> (u, w) \<in> stepped f ^^ n)"
  by (metis (mono_tags, lifting) case_prodD case_prodI mem_Collect_eq relpow_Suc_D2 relpow_Suc_I2 stepped_def)

text \<open>Unrolling a bounded search: the target is here, or one step on with one step less to go.\<close>

lemma bounded_path:
  "(\<exists>n. d + n \<le> (64::nat) \<and> (v, w) \<in> stepped f ^^ n \<and> R) \<longleftrightarrow>
     d \<le> 64 \<and> (v = w \<and> R \<or> (\<exists>u. f v = Some u \<and> (\<exists>n. d + 1 + n \<le> 64 \<and> (u, w) \<in> stepped f ^^ n \<and> R)))"
  (is "?l \<longleftrightarrow> ?r")
proof
  assume ?l
  then obtain n where n: "d + n \<le> 64" "(v, w) \<in> stepped f ^^ n" R by blast
  show ?r
  proof (cases n)
    case 0
    then show ?thesis using n by simp
  next
    case (Suc m)
    then obtain u where "f v = Some u" "(u, w) \<in> stepped f ^^ m" using n stepped_Suc by metis
    moreover have "d + 1 + m \<le> 64" "d \<le> 64" using n Suc by auto
    ultimately show ?thesis using n(3) by blast
  qed
next
  assume r: ?r
  show ?l
  proof (cases "v = w \<and> R")
    case True
    then show ?thesis using r by (intro exI [of _ 0]) simp
  next
    case False
    then obtain u n where "f v = Some u" "d + 1 + n \<le> 64" "(u, w) \<in> stepped f ^^ n" R
      using r by blast
    then show ?thesis by (intro exI [of _ "Suc n"]) (auto simp: stepped_Suc simp del: relpow.simps)
  qed
qed

locale tracer =
  fixes step :: "val \<Rightarrow> val option"
  assumes step_smaller: "step v = Some u \<Longrightarrow> size u < size v"
begin

lemma derived_from:
  "\<forall>u\<in>set visited. size v < size u \<Longrightarrow>
     isDerivedFromPtrImpl step visited depth v source \<longleftrightarrow>
       (\<exists>n. depth + n \<le> 64 \<and> (v, source) \<in> stepped step ^^ n \<and> True)"
proof (induction "65 - depth" arbitrary: visited depth v rule: less_induct)
  case less
  have nv: "v \<notin> set visited" using less.prems by auto
  have ih: "isDerivedFromPtrImpl step (v # visited) (depth + 1) u source \<longleftrightarrow>
      (\<exists>n. depth + 1 + n \<le> 64 \<and> (u, source) \<in> stepped step ^^ n \<and> True)"
    if "step v = Some u" "depth \<le> 64" for u
    by (rule less.hyps) (use that less.prems step_smaller [OF that(1)] in auto)
  show ?case
  proof (cases "step v")
    case None
    then show ?thesis using nv
      by (subst isDerivedFromPtrImpl.simps, subst bounded_path) auto
  next
    case (Some u)
    then show ?thesis using nv ih
      by (subst isDerivedFromPtrImpl.simps, subst bounded_path) auto
  qed
qed

end

locale root_tracer = tracer +
  fixes root :: "val \<Rightarrow> trace"
  assumes through_step: "root v = Through u \<Longrightarrow> step v = Some u"
begin

lemma underlying:
  "\<forall>u\<in>set visited. size v < size u \<Longrightarrow>
     getUnderlyingValueImpl root visited depth v = Some w \<longleftrightarrow>
       (\<exists>n. depth + n \<le> 64 \<and> (v, w) \<in> stepped (through root) ^^ n \<and> root w = Root)"
proof (induction "65 - depth" arbitrary: visited depth v rule: less_induct)
  case less
  have nv: "v \<notin> set visited" using less.prems by auto
  have ih: "getUnderlyingValueImpl root (v # visited) (depth + 1) u = Some w \<longleftrightarrow>
      (\<exists>n. depth + 1 + n \<le> 64 \<and> (u, w) \<in> stepped (through root) ^^ n \<and> root w = Root)"
    if "root v = Through u" "depth \<le> 64" for u
    by (rule less.hyps) (use that less.prems step_smaller [OF through_step [OF that(1)]] in auto)
  show ?case
    using nv ih by (subst getUnderlyingValueImpl.simps, subst bounded_path)
      (auto simp: through_def split: trace.splits)
qed

lemma through_path: "(v, w) \<in> stepped (through root) ^^ n \<Longrightarrow> (v, w) \<in> stepped step ^^ n"
proof (induction n arbitrary: v)
  case (Suc n)
  then obtain u where u: "through root v = Some u" "(u, w) \<in> stepped (through root) ^^ n"
    using stepped_Suc by metis
  have "step v = Some u" using u(1) through_step by (simp add: through_def split: trace.splits)
  moreover have "(u, w) \<in> stepped step ^^ n" using Suc.IH u(2) .
  ultimately
  show ?case using stepped_Suc by metis
qed simp

text \<open>The root is a root, the value is derived from it, and a second trace stops at once.\<close>

lemma underlying_spec:
  assumes "getUnderlyingValueImpl root [] 0 v = Some w"
  shows "root w = Root \<and> isDerivedFromPtrImpl step [] 0 v w \<and>
    getUnderlyingValueImpl root [] 0 w = Some w"
proof -
  obtain n where n: "n \<le> 64" "(v, w) \<in> stepped (through root) ^^ n" "root w = Root"
    using assms underlying [of "[]" v 0 w] by auto
  have "isDerivedFromPtrImpl step [] 0 v w"
    using derived_from [of "[]" v 0 w] through_path [OF n(2)] n(1) by auto
  moreover have "getUnderlyingValueImpl root [] 0 w = Some w"
    using n(3) by (subst getUnderlyingValueImpl.simps) simp
  ultimately show ?thesis using n(3) by simp
qed

end

lemma first_operand_smaller: "first_operand v = Some u \<Longrightarrow> size u < size v"
  using operands_size [of u v] by (auto simp: first_operand_def split: list.splits)

lemma arts_derived_smaller: "arts_derived_step v = Some u \<Longrightarrow> size u < size v"
  using first_operand_smaller [of v u] by (cases v) auto

interpretation generic_root: root_tracer first_operand root_step
proof
  show "first_operand v = Some u \<Longrightarrow> size u < size v" for v u by (rule first_operand_smaller)
  show "root_step v = Through u \<Longrightarrow> first_operand v = Some u" for v u
    by (cases v) (auto simp: first_operand_def split: list.splits)
qed

interpretation arts_root: root_tracer arts_derived_step arts_root_step
proof
  show "arts_derived_step v = Some u \<Longrightarrow> size u < size v" for v u by (rule arts_derived_smaller)
  show "arts_root_step v = Through u \<Longrightarrow> arts_derived_step v = Some u" for v u
    by (cases v) (auto simp: first_operand_def split: list.splits option.splits)
qed

text \<open>
  What a memory root of the ARTS analysis is: a value is based on the memref it views, the first
  operand it is cast from, the dependency its block argument is bound to, the datablock it
  acquires or the datablock it refers to.
\<close>

inductive based_on :: "val \<Rightarrow> val \<Rightarrow> bool" where
  view: "based_on (ViewLike i t k s xs) s"
| cast: "based_on (Unrealized i n t (x # xs)) x"
| bound: "based_on (BlockArg b n t (Some d)) d"
| acquired: "based_on (DbAcquire i n t g p xs ys) p"
| referred: "based_on (DbRef i t s xs) s"

inductive_simps based_on_simps: "based_on v u"

fun is_memory_root :: "val \<Rightarrow> bool" where
  "is_memory_root (BlockArg b n t d) = (d = None)"
| "is_memory_root (DbAlloc i n t xs ys) = True"
| "is_memory_root (AllocLike i t k xs) = True"
| "is_memory_root v = False"

lemma based_on_through: "stepped (through arts_root_step) = {(v, u). based_on v u}"
proof -
  have "through arts_root_step v = Some u \<longleftrightarrow> based_on v u" for v u
    by (cases v) (auto simp: through_def based_on_simps split: list.splits option.splits)
  then show ?thesis by (simp add: stepped_def)
qed

text \<open>The ARTS analysis finds the root exactly when it is at most 64 such steps away.\<close>

lemma arts_underlying_iff:
  "arts_getUnderlyingValue v = Some w \<longleftrightarrow>
     is_memory_root w \<and> (\<exists>n\<le>64. (v, w) \<in> {(v, u). based_on v u} ^^ n)"
proof -
  have "arts_root_step w = Root \<longleftrightarrow> is_memory_root w"
    by (cases w) (auto split: list.splits option.splits)
  then show ?thesis
    using arts_root.underlying [of "[]" v 0 w] unfolding arts_getUnderlyingValue_def based_on_through by auto
qed

definition sample_view :: val where
  "sample_view =
     ViewLike 5 (MemRefTy [None] IndexTy) SubView
       (DbRef 4 (MemRefTy [None] IndexTy)
         (BlockArg 3 0 (MemRefTy [None] IndexTy)
           (Some (DbAcquire 2 1 (MemRefTy [None] IndexTy) None
             (DbAlloc 1 1 (MemRefTy [None] IndexTy) [] []) [] []))) []) []"

lemma sample_view_roots:
  "arts_getUnderlyingValue sample_view = Some (DbAlloc 1 1 (MemRefTy [None] IndexTy) [] [])"
  "getUnderlyingValue sample_view = None"
  by code_simp+

section \<open>Rebuilding a value at a dominating place\<close>

text \<open>
  \<open>traceValueToDominating\<close>: \<open>dm\<close> is \<open>properlyDominates(_, insertBefore)\<close>, \<open>before\<close> the
  statements before the insertion point (what a load built there sees), and the builder is
  the counter of fresh operation identities, threaded through. Operations built before a
  failing operand stay behind, so the counter advances on failure too.
\<close>

definition trace_head ::
  "(val \<Rightarrow> bool) \<Rightarrow> nat \<Rightarrow> val \<Rightarrow> nat \<Rightarrow> val option \<times> nat \<Rightarrow> val option \<times> nat" where
  "trace_head dm d v n rest =
     (if d > 16 then (None, n) else if dm v then (Some v, n) else rest)"

definition cloneable_load :: "(val \<Rightarrow> bool) \<Rightarrow> val \<Rightarrow> ty \<Rightarrow> bool" where
  "cloneable_load dm m t =
     ((case type_of m of MemRefTy dims elt \<Rightarrow> dims = [] | _ \<Rightarrow> False) \<and> \<not> isMemRef t \<and> dm m)"

fun traceValueToDominating ::
  "(val \<Rightarrow> bool) \<Rightarrow> stmt list \<Rightarrow> nat \<Rightarrow> val \<Rightarrow> nat \<Rightarrow> val option \<times> nat" where
  "traceValueToDominating dm before d (Bin i t f a b) n =
     trace_head dm d (Bin i t f a b) n
       (let (lhs, n1) = traceValueToDominating dm before (d + 1) a n;
            (rhs, n2) = traceValueToDominating dm before (d + 1) b n1
        in case (lhs, rhs) of
             (Some l, Some r) \<Rightarrow> (Some (Bin n2 (type_of l) f l r), Suc n2)
           | _ \<Rightarrow> (None, n2))"
| "traceValueToDominating dm before d (CmpI i p a b) n =
     trace_head dm d (CmpI i p a b) n
       (let (lhs, n1) = traceValueToDominating dm before (d + 1) a n;
            (rhs, n2) = traceValueToDominating dm before (d + 1) b n1
        in case (lhs, rhs) of
             (Some l, Some r) \<Rightarrow> (Some (CmpI n2 p l r), Suc n2)
           | _ \<Rightarrow> (None, n2))"
| "traceValueToDominating dm before d (Select i t c a b) n =
     trace_head dm d (Select i t c a b) n
       (let (cond, n1) = traceValueToDominating dm before (d + 1) c n;
            (tv, n2) = traceValueToDominating dm before (d + 1) a n1;
            (fv, n3) = traceValueToDominating dm before (d + 1) b n2
        in case (cond, tv, fv) of
             (Some k, Some l, Some r) \<Rightarrow> (Some (Select n3 (type_of l) k l r), Suc n3)
           | _ \<Rightarrow> (None, n3))"
| "traceValueToDominating dm before d (Cast i t c a) n =
     trace_head dm d (Cast i t c a) n
       (if c = ExtF \<or> c = TruncF then (None, n)
        else
          let (src, n1) = traceValueToDominating dm before (d + 1) a n
          in case src of
               None \<Rightarrow> (None, n1)
             | Some s \<Rightarrow>
                 if (c = IndexCast \<or> c = IndexCastUI) \<and> type_of s = t then (Some s, n1)
                 else (Some (Cast n1 t c s), Suc n1))"
| "traceValueToDominating dm before d (Const i t a) n =
     trace_head dm d (Const i t a) n (Some (Const n t a), Suc n)"
| "traceValueToDominating dm before d (TypeSize i s) n =
     trace_head dm d (TypeSize i s) n (Some (TypeSize n s), Suc n)"
| "traceValueToDominating dm before d (Load i t m xs ps) n =
     trace_head dm d (Load i t m xs ps) n
       (if cloneable_load dm m t then (Some (Load n t m [] before), Suc n) else (None, n))"
| "traceValueToDominating dm before d v n = trace_head dm d v n (None, n)"

text \<open>
  The specification: what may be used at the insertion point is a value that dominates it,
  or an operation built there (its identity is fresh) from such values. Types follow the
  rules of the \<open>arith\<close> dialect, and no load is rebuilt, since nothing says the buffer
  still holds the same value at the insertion point.
\<close>

fun well_typed :: "val \<Rightarrow> bool" where
  "well_typed (Const i t a) = attr_ok t a"
| "well_typed (Bin i t f a b) = (type_of a = t \<and> type_of b = t \<and> well_typed a \<and> well_typed b)"
| "well_typed (Cast i t c a) = (0 < width t \<and> well_typed a)"
| "well_typed (CmpI i p a b) = (type_of a = type_of b \<and> well_typed a \<and> well_typed b)"
| "well_typed (Select i t c a b) =
     (type_of c = IntTy 1 \<and> type_of a = t \<and> type_of b = t \<and> well_typed c \<and> well_typed a \<and> well_typed b)"
| "well_typed _ = True"

fun rebuilt_pure :: "(val \<Rightarrow> bool) \<Rightarrow> val \<Rightarrow> bool" where
  "rebuilt_pure dm (Bin i t f a b) = (dm (Bin i t f a b) \<or> rebuilt_pure dm a \<and> rebuilt_pure dm b)"
| "rebuilt_pure dm (CmpI i p a b) = (dm (CmpI i p a b) \<or> rebuilt_pure dm a \<and> rebuilt_pure dm b)"
| "rebuilt_pure dm (Select i t c a b) =
     (dm (Select i t c a b) \<or> rebuilt_pure dm c \<and> rebuilt_pure dm a \<and> rebuilt_pure dm b)"
| "rebuilt_pure dm (Cast i t c a) = (dm (Cast i t c a) \<or> rebuilt_pure dm a)"
| "rebuilt_pure dm (Load i t m xs ps) = dm (Load i t m xs ps)"
| "rebuilt_pure dm _ = True"

fun op_id :: "val \<Rightarrow> nat option" where
  "op_id (BlockArg _ _ _ _) = None"
| "op_id (Const i _ _) = Some i"
| "op_id (Bin i _ _ _ _) = Some i"
| "op_id (Cast i _ _ _) = Some i"
| "op_id (CmpI i _ _ _) = Some i"
| "op_id (CmpF i _ _) = Some i"
| "op_id (Select i _ _ _ _) = Some i"
| "op_id (TypeSize i _) = Some i"
| "op_id (RuntimeQuery i _ _) = Some i"
| "op_id (AllocLike i _ _ _) = Some i"
| "op_id (ViewLike i _ _ _ _) = Some i"
| "op_id (Unrealized i _ _ _) = Some i"
| "op_id (Load i _ _ _ _) = Some i"
| "op_id (DbAlloc i _ _ _ _) = Some i"
| "op_id (DbAcquire i _ _ _ _ _ _) = Some i"
| "op_id (DbRef i _ _ _) = Some i"
| "op_id (OtherOp i _ _ _ _) = Some i"

inductive available :: "(val \<Rightarrow> bool) \<Rightarrow> nat \<Rightarrow> nat \<Rightarrow> val \<Rightarrow> bool" for dm n0 where
  dominating: "dm v \<Longrightarrow> available dm n0 n v"
| built: "op_id v = Some i \<Longrightarrow> n0 \<le> i \<Longrightarrow> i < n \<Longrightarrow> (\<forall>x \<in> set (operands v). available dm n0 i x) \<Longrightarrow>
    available dm n0 n v"

lemma available_mono: "available dm n0 n v \<Longrightarrow> n \<le> m \<Longrightarrow> available dm n0 m v"
  by (erule available.cases) (auto intro: available.dominating available.built)

lemma well_typed_sgn: "well_typed v \<Longrightarrow> eval e v = Some x \<Longrightarrow> sgn_at (type_of v) x = x"
proof (induction v arbitrary: x rule: well_typed.induct)
  case (1 i t a)
  then show ?case by (cases a) (auto simp: attr_ok_def sgn_at_def)
next
  case (2 i t f a b)
  then show ?case by (cases f) (auto split: option.splits if_splits)
next
  case (3 i t c a)
  then obtain y where "cast_sem (type_of a) t c y = Some x"
    by (auto simp del: cast_sem.simps split: option.splits)
  then show ?case using cast_sem_range by simp
next
  case (4 i p a b)
  then show ?case by (auto simp: sgn_at_def split: option.splits if_splits)
next
  case (5 i t c a b)
  then show ?case by (auto split: option.splits if_splits)
qed auto

definition traced_ok :: "(val \<Rightarrow> bool) \<Rightarrow> env \<Rightarrow> nat \<Rightarrow> nat \<Rightarrow> val \<Rightarrow> val option \<times> nat \<Rightarrow> bool" where
  "traced_ok dm e n0 n v r \<longleftrightarrow> n \<le> snd r \<and>
     (\<forall>w. fst r = Some w \<longrightarrow> type_of w = type_of v \<and> eval e w = eval e v \<and> available dm n0 (snd r) w)"

lemma traced_head:
  "(\<not> d > 16 \<Longrightarrow> \<not> dm v \<Longrightarrow> traced_ok dm e n0 n v rest) \<Longrightarrow>
     traced_ok dm e n0 n v (trace_head dm d v n rest)"
  by (auto simp: trace_head_def traced_ok_def intro: available.dominating)

lemma sgn_uns: "0 < width t \<Longrightarrow> sgn_at t (uns_at t x) = sgn_at t x"
  by (cases "width t") (simp_all add: sgn_at_def uns_at_def signed_take_bit_take_bit)

lemma traced_step:
  assumes "traced_ok dm e n0 n v (w, m)" "n0 \<le> n"
  shows "n0 \<le> m" "n \<le> m"
    and "w = Some u \<Longrightarrow> type_of u = type_of v \<and> eval e u = eval e v \<and> available dm n0 m u"
  using assms by (auto simp: traced_ok_def)

lemma traced_failed: "n \<le> m \<Longrightarrow> traced_ok dm e n0 n v (None, m)"
  by (simp add: traced_ok_def)

lemma traced_built:
  assumes "op_id w = Some m" "n0 \<le> m" "n \<le> m" "\<forall>x \<in> set (operands w). available dm n0 m x"
    and "type_of w = type_of v" "eval e w = eval e v"
  shows "traced_ok dm e n0 n v (Some w, Suc m)"
  using assms available.built [OF assms(1,2) _ assms(4)] by (simp add: traced_ok_def)

lemma trace_sound:
  "well_typed v \<Longrightarrow> rebuilt_pure dm v \<Longrightarrow> n0 \<le> n \<Longrightarrow>
     traced_ok dm e n0 n v (traceValueToDominating dm before d v n)"
proof (induction dm before d v n rule: traceValueToDominating.induct)
  case (1 dm before d i t f a b n)
  let ?T = "traceValueToDominating dm before (d + 1)"
  show ?case
  proof (subst traceValueToDominating.simps, rule traced_head)
    assume "\<not> dm (Bin i t f a b)"
    then have p: "rebuilt_pure dm a" "rebuilt_pure dm b" "well_typed a" "well_typed b"
      "type_of a = t" "type_of b = t" using "1.prems" by auto
    obtain l n1 where l: "?T a n = (l, n1)" by fastforce
    obtain r n2 where r: "?T b n1 = (r, n2)" by fastforce
    note s1 = traced_step [OF "1.IH"(1) [OF p(3,1) "1.prems"(3), unfolded l] "1.prems"(3)]
    note s2 = traced_step [OF "1.IH"(2) [OF l [symmetric] refl p(4,2) s1(1), unfolded r] s1(1)]
    show "traced_ok dm e n0 n (Bin i t f a b)
      (let (lhs, n1) = ?T a n; (rhs, n2) = ?T b n1
       in case (lhs, rhs) of (Some l, Some r) \<Rightarrow> (Some (Bin n2 (type_of l) f l r), Suc n2)
          | _ \<Rightarrow> (None, n2))"
      unfolding l r Let_def prod.case using s1 s2 p available_mono [OF _ s2(2)]
      by (auto split: option.splits intro!: traced_failed traced_built)
  qed
next
  case (2 dm before d i p a b n)
  let ?T = "traceValueToDominating dm before (d + 1)"
  show ?case
  proof (subst traceValueToDominating.simps, rule traced_head)
    assume "\<not> dm (CmpI i p a b)"
    then have p: "rebuilt_pure dm a" "rebuilt_pure dm b" "well_typed a" "well_typed b"
      "type_of a = type_of b" using "2.prems" by auto
    obtain l n1 where l: "?T a n = (l, n1)" by fastforce
    obtain r n2 where r: "?T b n1 = (r, n2)" by fastforce
    note s1 = traced_step [OF "2.IH"(1) [OF p(3,1) "2.prems"(3), unfolded l] "2.prems"(3)]
    note s2 = traced_step [OF "2.IH"(2) [OF l [symmetric] refl p(4,2) s1(1), unfolded r] s1(1)]
    show "traced_ok dm e n0 n (CmpI i p a b)
      (let (lhs, n1) = ?T a n; (rhs, n2) = ?T b n1
       in case (lhs, rhs) of (Some l, Some r) \<Rightarrow> (Some (CmpI n2 p l r), Suc n2)
          | _ \<Rightarrow> (None, n2))"
      unfolding l r Let_def prod.case using s1 s2 p available_mono [OF _ s2(2)]
      by (auto split: option.splits intro!: traced_failed traced_built)
  qed
next
  case (3 dm before d i t c a b n)
  let ?T = "traceValueToDominating dm before (d + 1)"
  show ?case
  proof (subst traceValueToDominating.simps, rule traced_head)
    assume "\<not> dm (Select i t c a b)"
    then have p: "rebuilt_pure dm c" "rebuilt_pure dm a" "rebuilt_pure dm b"
      "well_typed c" "well_typed a" "well_typed b" "type_of a = t" "type_of b = t"
      using "3.prems" by auto
    obtain k n1 where k: "?T c n = (k, n1)" by fastforce
    obtain l n2 where l: "?T a n1 = (l, n2)" by fastforce
    obtain r n3 where r: "?T b n2 = (r, n3)" by fastforce
    note s1 = traced_step [OF "3.IH"(1) [OF p(4,1) "3.prems"(3), unfolded k] "3.prems"(3)]
    note s2 = traced_step [OF "3.IH"(2) [OF k [symmetric] refl p(5,2) s1(1), unfolded l] s1(1)]
    note s3 = traced_step [OF "3.IH"(3) [OF k [symmetric] refl l [symmetric] refl p(6,3) s2(1), unfolded r] s2(1)]
    show "traced_ok dm e n0 n (Select i t c a b)
      (let (cond, n1) = ?T c n; (tv, n2) = ?T a n1; (fv, n3) = ?T b n2
       in case (cond, tv, fv) of (Some k, Some l, Some r) \<Rightarrow> (Some (Select n3 (type_of l) k l r), Suc n3)
          | _ \<Rightarrow> (None, n3))"
      unfolding k l r Let_def prod.case
      using s1 s2 s3 p available_mono [OF _ s3(2)] available_mono [OF available_mono [OF _ s2(2)] s3(2)]
      by (auto split: option.splits intro!: traced_failed traced_built)
  qed
next
  case (4 dm before d i t c a n)
  let ?T = "traceValueToDominating dm before (d + 1)"
  show ?case
  proof (subst traceValueToDominating.simps, rule traced_head)
    assume "\<not> dm (Cast i t c a)"
    then have p: "well_typed a" "rebuilt_pure dm a" "0 < width t" using "4.prems" by auto
    obtain l n1 where l: "?T a n = (l, n1)" by fastforce
    show "traced_ok dm e n0 n (Cast i t c a)
      (if c = ExtF \<or> c = TruncF then (None, n)
       else let (src, n1) = ?T a n
            in case src of None \<Rightarrow> (None, n1)
               | Some s \<Rightarrow> if (c = IndexCast \<or> c = IndexCastUI) \<and> type_of s = t then (Some s, n1)
                          else (Some (Cast n1 t c s), Suc n1))"
    proof (cases "c = ExtF \<or> c = TruncF")
      case False
      note s1 = traced_step [OF "4.IH" [OF False p(1,2) "4.prems"(3), unfolded l] "4.prems"(3)]
      have same: "eval e (Cast i t c a) = eval e a"
        if "c = IndexCast \<or> c = IndexCastUI" "type_of a = t"
        using that well_typed_sgn [OF p(1)] sgn_uns [OF p(3)]
        by (cases "eval e a") auto
      have cong: "eval e (Cast j t c w) = eval e (Cast i t c a)"
        if "type_of w = type_of a" "eval e w = eval e a" for j w
        using that by (cases "eval e a") auto
      show ?thesis
      proof (cases l)
        case None
        then show ?thesis unfolding l Let_def prod.case using False s1(2) by (simp add: traced_failed)
      next
        case (Some w)
        note w = s1(3) [OF Some]
        have "eval e w = eval e (Cast i t c a)" if "(c = IndexCast \<or> c = IndexCastUI) \<and> type_of w = t"
          using same that w by simp
        moreover have "eval e (Cast n1 t c w) = eval e (Cast i t c a)" using cong w by blast
        ultimately show ?thesis unfolding l Let_def prod.case Some using False s1(1,2) w
          by (auto intro!: traced_built simp: traced_ok_def [of _ _ _ _ _ "(Some w, n1)"] simp del: eval.simps)
      qed
    qed (auto intro: traced_failed)
  qed
qed (simp_all only: traceValueToDominating.simps, auto intro!: traced_head traced_built traced_failed)


text \<open>
  C23: Rebuilding a value at a dominating place preserves it: on a well-typed value with no
  load to rebuild, a successful trace returns a value of the same type and meaning, made
  only of values that dominate the place and operations built there in order, each after
  its operands; the builder only ever moves forward.
\<close>

theorem traceValueToDominating_sound:
  assumes "well_typed v" "rebuilt_pure dm v"
    and "traceValueToDominating dm before d v n = (Some w, m)"
  shows "type_of w = type_of v \<and> eval e w = eval e v \<and> available dm n m w \<and> n \<le> m"
  using trace_sound [OF assms(1,2), of n n e before d] assms(3) by (simp add: traced_ok_def)

definition sample_chain :: val where
  "sample_chain =
     Select 0 IndexTy (CmpI 1 Cult (BlockArg 0 0 IndexTy None) (index_const 2 16))
       (Bin 3 IndexTy MulI (Cast 4 IndexTy IndexCast (BlockArg 0 1 (IntTy 32) None)) (index_const 5 4))
       (BlockArg 0 0 IndexTy None)"

lemma traceValueToDominating_sound_witness:
  "the (eval no_env (the (fst (traceValueToDominating (\<lambda>v. op_id v = None) [] 0 sample_chain 100))))
     = the (eval no_env sample_chain)"
proof -
  let ?r = "traceValueToDominating (\<lambda>v. op_id v = None) [] 0 sample_chain 100"
  have s: "well_typed sample_chain" "rebuilt_pure (\<lambda>v. op_id v = None) sample_chain" by code_simp+
  have "fst ?r \<noteq> None" by code_simp
  then have r: "?r = (Some (the (fst ?r)), snd ?r)" by (cases ?r) auto
  show ?thesis using traceValueToDominating_sound [OF s r, of no_env] by simp
qed

text \<open>
  A load is rebuilt whenever its buffer dominates the place, whatever is stored in between:
  the load below reads 5, the one built for it at a place before that store reads 4.
\<close>

lemma rebuilt_load_sees_other_store:
  "let buf = AllocLike 0 (MemRefTy [] IndexTy) Alloca [];
       first = Store (index_const 1 4) buf []; second = Store (index_const 2 5) buf [];
       ld = Load 3 IndexTy buf [] [second, first]
   in tryFoldConstantIndex no_services 0 ld = Some 5 \<and>
      map_option (tryFoldConstantIndex no_services 0)
        (fst (traceValueToDominating (\<lambda>v. v = buf) [first] 0 ld 10)) = Some (Some 4)"
  by code_simp

section \<open>Cloning values into a region\<close>

text \<open>
  \<open>cloneValuesIntoRegion\<close> sweeps over the values still to clone until a sweep makes no
  progress. The region tree and the effects interface are parameters: \<open>related x\<close> says that
  the region that owns \<open>x\<close> contains the target region or lies in it, \<open>can_clone\<close> is
  \<open>canCloneOperation\<close>. The mapper is the list of what was put into it, last first: a value
  the caller mapped, or an operation that was cloned, which maps all its results.
\<close>

definition canCloneOperation :: "bool \<Rightarrow> (val \<Rightarrow> bool) \<Rightarrow> (val \<Rightarrow> bool) \<Rightarrow> val \<Rightarrow> bool" where
  "canCloneOperation allowMemoryEffectFree isMemoryEffectFree extraAllowed v =
     (if op_id v = None then False
      else if isValueConstant v then True
      else if allowMemoryEffectFree \<and> isMemoryEffectFree v then True
      else extraAllowed v)"

datatype mapping = Given val | CloneOf val

fun maps :: "val \<Rightarrow> mapping \<Rightarrow> bool" where
  "maps v (Given u) = (u = v)"
| "maps v (CloneOf u) = (op_id v \<noteq> None \<and> op_id u = op_id v)"

definition mapped :: "mapping list \<Rightarrow> val \<Rightarrow> bool" where
  "mapped mapper v = list_ex (maps v) mapper"

definition operands_available :: "(val \<Rightarrow> bool) \<Rightarrow> mapping list \<Rightarrow> val \<Rightarrow> bool" where
  "operands_available rel mapper v = list_all (\<lambda>x. mapped mapper x \<or> rel x) (operands v)"

fun clone_sweep ::
  "(val \<Rightarrow> bool) \<Rightarrow> (val \<Rightarrow> bool) \<Rightarrow> val list \<Rightarrow> val list \<Rightarrow> bool \<Rightarrow> mapping list \<Rightarrow> val list \<times> bool \<times> mapping list" where
  "clone_sweep can rel [] nextRemaining progress mapper = (rev nextRemaining, progress, mapper)"
| "clone_sweep can rel (v # vs) nextRemaining progress mapper =
     (if mapped mapper v then clone_sweep can rel vs nextRemaining True mapper
      else if op_id v = None then clone_sweep can rel vs (v # nextRemaining) progress mapper
      else if \<not> can v then clone_sweep can rel vs (v # nextRemaining) progress mapper
      else if \<not> operands_available rel mapper v
      then clone_sweep can rel vs (v # nextRemaining) progress mapper
      else clone_sweep can rel vs nextRemaining True (CloneOf v # mapper))"

text \<open>What makes a value cloneable now, and the mappers reachable by cloning such values.\<close>

definition clone_ok :: "(val \<Rightarrow> bool) \<Rightarrow> (val \<Rightarrow> bool) \<Rightarrow> mapping list \<Rightarrow> val \<Rightarrow> bool" where
  "clone_ok can rel m v \<longleftrightarrow>
     \<not> mapped m v \<and> op_id v \<noteq> None \<and> can v \<and> operands_available rel m v"

inductive clones :: "(val \<Rightarrow> bool) \<Rightarrow> (val \<Rightarrow> bool) \<Rightarrow> mapping list \<Rightarrow> mapping list \<Rightarrow> bool" for can rel m0 where
  start: "clones can rel m0 m0"
| clone: "clones can rel m0 m \<Longrightarrow> clone_ok can rel m v \<Longrightarrow> clones can rel m0 (CloneOf v # m)"

lemma clone_sweep_Cons:
  "clone_sweep can rel (v # vs) acc p m =
     (if mapped m v then clone_sweep can rel vs acc True m
      else if clone_ok can rel m v then clone_sweep can rel vs acc True (CloneOf v # m)
      else clone_sweep can rel vs (v # acc) p m)"
  by (auto simp: clone_ok_def)

declare clone_sweep.simps(2) [simp del]

lemmas clone_sweep_cases = clone_sweep.simps(1) clone_sweep_Cons

lemma clone_sweep_length:
  "clone_sweep can rel vs acc p m = (rest, p', m') \<Longrightarrow>
     length rest \<le> length vs + length acc \<and> (p' \<longrightarrow> p \<or> length rest < length vs + length acc)"
proof (induction vs arbitrary: acc p m)
  case (Cons v vs)
  consider (m) "mapped m v" | (c) "\<not> mapped m v" "clone_ok can rel m v"
    | (k) "\<not> mapped m v" "\<not> clone_ok can rel m v" by blast
  then show ?case
  proof cases
    case m
    then show ?thesis using Cons.IH [of acc True m] Cons.prems by (auto simp: clone_sweep_Cons)
  next
    case c
    then show ?thesis using Cons.IH [of acc True "CloneOf v # m"] Cons.prems by (auto simp: clone_sweep_Cons)
  next
    case k
    then show ?thesis using Cons.IH [of "v # acc" p m] Cons.prems by (auto simp: clone_sweep_Cons)
  qed
qed auto

function cloneValuesIntoRegion ::
  "(val \<Rightarrow> bool) \<Rightarrow> (val \<Rightarrow> bool) \<Rightarrow> val list \<Rightarrow> mapping list \<Rightarrow> bool \<times> mapping list" where
  "cloneValuesIntoRegion can rel remaining mapper =
     (if remaining = [] then (True, mapper)
      else case clone_sweep can rel remaining [] False mapper of
             (rest, progress, mapper') \<Rightarrow>
               if progress then cloneValuesIntoRegion can rel rest mapper'
               else (rest = [], mapper'))"
  by pat_completeness auto
termination
  by (relation "measure (\<lambda>(can, rel, remaining, mapper). length remaining)")
    (auto dest!: clone_sweep_length [OF sym])

declare cloneValuesIntoRegion.simps [simp del]

lemma mapped_Cons: "mapped m v \<Longrightarrow> mapped (u # m) v"
  by (auto simp: mapped_def)

lemma clones_mapped: "clones can rel m m' \<Longrightarrow> mapped m v \<Longrightarrow> mapped m' v"
  by (induction rule: clones.induct) (auto intro: mapped_Cons)

lemma clones_trans: "clones can rel m1 m2 \<Longrightarrow> clones can rel m0 m1 \<Longrightarrow> clones can rel m0 m2"
  by (induction rule: clones.induct) (auto intro: clones.clone)

lemma clone_sweep_spec:
  "clone_sweep can rel vs acc p m = (rest, p', m') \<Longrightarrow>
     clones can rel m m' \<and> set acc \<subseteq> set rest \<and> set rest \<subseteq> set acc \<union> set vs \<and>
     (\<forall>v\<in>set vs. v \<in> set rest \<or> mapped m' v) \<and> (p \<longrightarrow> p') \<and>
     (\<not> p' \<longrightarrow> m' = m \<and> (\<forall>v\<in>set vs. \<not> mapped m v \<and> \<not> clone_ok can rel m v))"
proof (induction vs arbitrary: acc p m)
  case Nil
  then show ?case by (auto intro: clones.start)
next
  case (Cons v vs)
  consider (m) "mapped m v" | (c) "\<not> mapped m v" "clone_ok can rel m v"
    | (k) "\<not> mapped m v" "\<not> clone_ok can rel m v" by blast
  then show ?case
  proof cases
    case m
    then have "clone_sweep can rel vs acc True m = (rest, p', m')"
      using Cons.prems by (simp add: clone_sweep_Cons)
    from Cons.IH [OF this] m show ?thesis using clones_mapped by (auto 4 3)
  next
    case c
    then have "clone_sweep can rel vs acc True (CloneOf v # m) = (rest, p', m')"
      using Cons.prems by (simp add: clone_sweep_Cons)
    note ih = Cons.IH [OF this]
    have "clones can rel m (CloneOf v # m)" using c by (intro clones.intros)
    moreover have "mapped m' v"
      using ih clones_mapped [of can rel "CloneOf v # m" m' v] c by (simp add: mapped_def clone_ok_def)
    ultimately show ?thesis using ih clones_trans [of can rel "CloneOf v # m" m' m] by auto
  next
    case k
    then have "clone_sweep can rel vs (v # acc) p m = (rest, p', m')"
      using Cons.prems by (simp add: clone_sweep_Cons)
    from Cons.IH [OF this] k show ?thesis by auto
  qed
qed

lemma cloneValues_spec:
  "cloneValuesIntoRegion can rel vs m = (ok, m') \<Longrightarrow>
     clones can rel m m' \<and> (ok \<longleftrightarrow> (\<forall>v\<in>set vs. mapped m' v)) \<and>
     (\<forall>v\<in>set vs. \<not> clone_ok can rel m' v)"
proof (induction can rel vs m rule: cloneValuesIntoRegion.induct)
  case (1 can rel vs m)
  show ?case
  proof (cases "vs = []")
    case True
    then show ?thesis using "1.prems" by (subst (asm) cloneValuesIntoRegion.simps) (auto intro: clones.start)
  next
    case False
    obtain rest p m1 where sw: "clone_sweep can rel vs [] False m = (rest, p, m1)"
      using prod_cases3 by blast
    note sp = clone_sweep_spec [OF sw]
    show ?thesis
    proof (cases p)
      case True
      then have r: "cloneValuesIntoRegion can rel rest m1 = (ok, m')"
        using "1.prems" False sw by (subst (asm) cloneValuesIntoRegion.simps) simp
      note ih = "1.IH" [OF False sw [symmetric] refl True r]
      have mono: "mapped m' v" if "mapped m1 v" for v using clones_mapped ih that by blast
      have "clones can rel m m'" using clones_trans ih sp by blast
      moreover have "(\<forall>v\<in>set vs. mapped m' v) \<longleftrightarrow> (\<forall>v\<in>set rest. mapped m' v)" using sp mono by auto
      moreover have "\<not> clone_ok can rel m' v" if "v \<in> set vs" for v
      proof -
        have "v \<in> set rest \<or> mapped m' v" using that sp mono by blast
        moreover have "\<forall>v\<in>set rest. \<not> clone_ok can rel m' v" using ih by blast
        ultimately show ?thesis unfolding clone_ok_def by blast
      qed
      ultimately show ?thesis using ih by blast
    next
      case np: False
      then have "ok = (rest = [])" "m' = m1"
        using "1.prems" False sw by (subst (asm) cloneValuesIntoRegion.simps; simp)+
      moreover have "rest \<noteq> []" using sp np False by (cases vs) auto
      ultimately show ?thesis using sp np False by (cases vs) auto
    qed
  qed
qed

text \<open>
  C24: Cloning values into a region terminates, clones an operation only when every operand
  is mapped already or visible from the region and never twice, reports success exactly
  when every requested value is mapped, and stops only when no requested value could
  still be cloned. A value counts as mapped when the caller mapped it or its operation was
  cloned.
\<close>

theorem cloneValuesIntoRegion_spec:
  assumes "cloneValuesIntoRegion can rel vs m = (ok, m')"
  shows "clones can rel m m' \<and> (ok \<longleftrightarrow> (\<forall>v\<in>set vs. mapped m' v)) \<and>
    (\<forall>v\<in>set vs. \<not> clone_ok can rel m' v)"
  using cloneValues_spec assms by blast

lemma cloneValuesIntoRegion_spec_witness:
  "let x = index_const 1 4; y = Bin 2 IndexTy AddI x (BlockArg 0 0 IndexTy None);
       can = (\<lambda>v. True); rel = (\<lambda>v. op_id v = None)
   in cloneValuesIntoRegion can rel [y, x] [] = (True, [CloneOf y, CloneOf x]) \<and>
      clones can rel [] [CloneOf y, CloneOf x]"
proof -
  let ?x = "index_const 1 4"
  let ?y = "Bin 2 IndexTy AddI ?x (BlockArg 0 0 IndexTy None)"
  let ?can = "\<lambda>v::val. True" and ?rel = "\<lambda>v. op_id v = None"
  have r: "cloneValuesIntoRegion ?can ?rel [?y, ?x] [] = (True, [CloneOf ?y, CloneOf ?x])" by code_simp
  show ?thesis using cloneValuesIntoRegion_spec [OF r] r by (simp add: Let_def)
qed

section \<open>Offsets relative to a loop\<close>

function stripSelectClamp :: "mlir \<Rightarrow> nat \<Rightarrow> val \<Rightarrow> val" where
  "stripSelectClamp P maxDepth u =
     (if maxDepth = 0 then u
      else
        let value = stripNumericCasts u in
        case value of
          Select i t c a b \<Rightarrow>
            (let trueVal = stripNumericCasts a; falseVal = stripNumericCasts b;
                 clamp = (case c of
                   CmpI j p x y \<Rightarrow>
                     (let lhs = stripNumericCasts x; rhs = stripNumericCasts y
                      in if p \<in> {Cslt, Cult, Csgt, Cugt}
                         then if sameValue P trueVal rhs \<and> sameValue P falseVal lhs then Some lhs
                              else if sameValue P trueVal lhs \<and> sameValue P falseVal rhs then Some rhs
                              else None
                         else None)
                 | _ \<Rightarrow> None);
                 trueConst = getConstantIndex trueVal; falseConst = getConstantIndex falseVal
             in case clamp of
                  Some w \<Rightarrow> stripSelectClamp P (maxDepth - 1) w
                | None \<Rightarrow>
                    if trueConst \<noteq> None \<and> falseConst = None then stripSelectClamp P (maxDepth - 1) falseVal
                    else if falseConst \<noteq> None \<and> trueConst = None then stripSelectClamp P (maxDepth - 1) trueVal
                    else value)
        | _ \<Rightarrow> value)"
  by pat_completeness auto
termination by (relation "measure (\<lambda>(P, maxDepth, u). maxDepth)") auto

declare stripSelectClamp.simps [simp del]

function getOffsetStride :: "nat \<Rightarrow> val \<Rightarrow> val \<Rightarrow> int option" where
  "getOffsetStride d u w =
     (if d > 8 then None
      else
        let idx = stripNumericCasts u; base = stripNumericCasts w in
        if idx = base then Some 1
        else case idx of
          Bin i t f a b \<Rightarrow>
            if f = AddI
            then let lhsDep = dependsOn (d + 1) a base; rhsDep = dependsOn (d + 1) b base
                 in if lhsDep \<and> \<not> rhsDep then getOffsetStride (d + 1) a base
                    else if rhsDep \<and> \<not> lhsDep then getOffsetStride (d + 1) b base
                    else None
            else if f = SubI
            then let lhsDep = dependsOn (d + 1) a base; rhsDep = dependsOn (d + 1) b base
                 in if lhsDep \<and> \<not> rhsDep then getOffsetStride (d + 1) a base else None
            else if f = MulI
            then (if getConstantIndex a \<noteq> None \<and> dependsOn (d + 1) b base then getConstantIndex a
                  else if getConstantIndex b \<noteq> None \<and> dependsOn (d + 1) a base then getConstantIndex b
                  else None)
            else None
        | _ \<Rightarrow> None)"
  by pat_completeness auto
termination by (relation "measure (\<lambda>(d, u, w). 9 - d)") auto

declare getOffsetStride.simps [simp del]

text \<open>
  \<open>delta idx ops\<close> is the bounds solver's answer to \<open>idx\<close> minus the sum of \<open>ops\<close> being constant.
\<close>

definition proveConstantOffsetWithBounds ::
  "(val \<Rightarrow> val list \<Rightarrow> int option) \<Rightarrow> val \<Rightarrow> val \<Rightarrow> val \<Rightarrow> int option" where
  "proveConstantOffsetWithBounds delta idx loopIV chunkOffset =
     (let idx = stripNumericCasts idx; iv = stripNumericCasts loopIV; off = stripNumericCasts chunkOffset;
          ops = (if isIndex (type_of iv) then [iv] else []) @ (if isIndex (type_of off) then [off] else [])
      in if \<not> isIndex (type_of idx) then None
         else if ops = [] then None
         else delta idx ops)"

definition isBaseValue :: "val \<Rightarrow> val \<Rightarrow> val \<Rightarrow> bool" where
  "isBaseValue loopIV chunkOffset v = (v = loopIV \<or> v = chunkOffset)"

definition isBasePattern :: "val \<Rightarrow> val \<Rightarrow> val \<Rightarrow> bool" where
  "isBasePattern loopIV chunkOffset v =
     (case v of
        Bin i t f a b \<Rightarrow>
          f = AddI \<and> ((a = loopIV \<and> b = chunkOffset) \<or> (a = chunkOffset \<and> b = loopIV))
      | _ \<Rightarrow> False)"

function (sequential) offset_loop :: "(val \<Rightarrow> bool) \<Rightarrow> int \<Rightarrow> val \<Rightarrow> int option" where
  "offset_loop base acc (Bin i t f a b) =
     (if base (Bin i t f a b) then Some acc
      else if f = AddI
      then (case getConstantIndex b of
              Some c \<Rightarrow> offset_loop base (wrap64 (acc + c)) a
            | None \<Rightarrow>
               (case getConstantIndex a of
                  Some c \<Rightarrow> offset_loop base (wrap64 (acc + c)) b
                | None \<Rightarrow>
                    if base a \<and> base b then Some acc
                    else if base a then offset_loop base acc b
                    else if base b then offset_loop base acc a
                    else None))
      else if f = SubI
      then (case getConstantIndex b of
              Some c \<Rightarrow> offset_loop base (wrap64 (acc - c)) a
            | None \<Rightarrow> None)
      else None)"
| "offset_loop base acc (Cast i t c a) =
     (if base (Cast i t c a) then Some acc
      else if c = IndexCast then offset_loop base acc a
      else None)"
| "offset_loop base acc v = (if base v then Some acc else None)"
  by pat_completeness auto
termination by (relation "measure (\<lambda>(base, acc, v). size v)") auto

definition extractConstantOffset ::
  "(val \<Rightarrow> val list \<Rightarrow> int option) \<Rightarrow> val \<Rightarrow> val \<Rightarrow> val \<Rightarrow> int option" where
  "extractConstantOffset delta idx loopIV chunkOffset =
     (case proveConstantOffsetWithBounds delta idx loopIV chunkOffset of
        Some c \<Rightarrow> Some c
      | None \<Rightarrow>
          offset_loop (\<lambda>v. isBaseValue loopIV chunkOffset v \<or> isBasePattern loopIV chunkOffset v) 0 idx)"

subsection \<open>Soundness\<close>

text \<open>\<open>x\<close> is a combination of the bases with the constant \<open>k\<close>, in 64-bit arithmetic.\<close>

definition offset_from :: "int \<Rightarrow> int \<Rightarrow> int \<Rightarrow> int \<Rightarrow> bool" where
  "offset_from p q k x \<longleftrightarrow> (\<exists>m n t. x = k + int m * p + int n * q + 2 ^ 64 * t)"

lemma wrap64_decomp: "\<exists>t. wrap64 x = x + 2 ^ 64 * t"
proof -
  have "take_bit 64 (wrap64 x) = take_bit 64 x" by (simp add: wrap64_def take_bit_signed_take_bit)
  then have "(2::int) ^ 64 dvd wrap64 x - x" by (simp add: take_bit_eq_mod mod_eq_dvd_iff)
  then obtain t where "wrap64 x - x = 2 ^ 64 * t" by (elim dvdE)
  then show ?thesis by (intro exI [of _ t]) simp
qed

lemma offset_from_plus:
  assumes "offset_from p q k x" "offset_from p q l y"
  shows "offset_from p q (k + l) (x + y)"
proof -
  obtain m n t m' n' t' where "x = k + int m * p + int n * q + 2 ^ 64 * t"
    "y = l + int m' * p + int n' * q + 2 ^ 64 * t'" using assms by (auto simp: offset_from_def)
  then have "x + y = (k + l) + int (m + m') * p + int (n + n') * q + 2 ^ 64 * (t + t')"
    by (simp add: algebra_simps)
  then show ?thesis unfolding offset_from_def by blast
qed

lemma offset_from_const: "offset_from p q k k"
  unfolding offset_from_def by (intro exI [of _ 0]) simp

lemma offset_from_wrap: "offset_from p q k (wrap64 x) \<longleftrightarrow> offset_from p q k x"
proof -
  obtain t where t: "wrap64 x = x + 2 ^ 64 * t" using wrap64_decomp by blast
  show ?thesis
  proof
    assume "offset_from p q k (wrap64 x)"
    then obtain m n u where "x + 2 ^ 64 * t = k + int m * p + int n * q + 2 ^ 64 * u"
      using t by (auto simp: offset_from_def)
    then have "x = k + int m * p + int n * q + 2 ^ 64 * (u - t)" by (simp add: algebra_simps)
    then show "offset_from p q k x" unfolding offset_from_def by blast
  next
    assume "offset_from p q k x"
    then obtain m n u where "x = k + int m * p + int n * q + 2 ^ 64 * u"
      by (auto simp: offset_from_def)
    then have "wrap64 x = k + int m * p + int n * q + 2 ^ 64 * (u + t)"
      using t by (simp add: algebra_simps)
    then show "offset_from p q k (wrap64 x)" unfolding offset_from_def by blast
  qed
qed

lemma offset_from_wrap_plus: "offset_from p q k (wrap64 a + b) \<longleftrightarrow> offset_from p q k (a + b)"
proof -
  have "wrap64 (wrap64 a + b) = wrap64 (a + b)"
    by (metis wrap64_add wrap64_idem)
  then show ?thesis using offset_from_wrap by metis
qed

lemma offset_from_assoc:
  assumes "offset_from p q k (wrap64 (a + c) + y)"
  shows "offset_from p q k (a + wrap64 (c + y))" "offset_from p q k (a + wrap64 (y + c))"
proof -
  have "offset_from p q k (wrap64 (c + y) + a)"
    using assms offset_from_wrap_plus [of p q k "c + y" a] offset_from_wrap_plus [of p q k "a + c" y]
    by (simp add: ac_simps)
  then show "offset_from p q k (a + wrap64 (c + y))" "offset_from p q k (a + wrap64 (y + c))"
    by (simp_all add: ac_simps)
qed

lemma offset_base:
  assumes "isBaseValue iv off v \<or> isBasePattern iv off v" "fold_safe e v"
    and "eval e v = Some x" "eval e iv = Some p" "eval e off = Some q"
  shows "offset_from p q 0 x"
proof -
  have one: "offset_from p q 0 p" "offset_from p q 0 q"
    unfolding offset_from_def by (rule exI [of _ 1], rule exI [of _ 0], rule exI [of _ 0], simp)
      (rule exI [of _ 0], rule exI [of _ 1], rule exI [of _ 0], simp)
  consider (iv) "v = iv" | (off) "v = off"
    | (add) i t a b where "v = Bin i t AddI a b" "a = iv \<and> b = off \<or> a = off \<and> b = iv"
    using assms(1) by (auto simp: isBaseValue_def isBasePattern_def split: val.splits)
  then show ?thesis
  proof cases
    case add
    then have "x = wrap64 (p + q)" using assms by (auto simp: sgn_at_64 add.commute)
    then show ?thesis using offset_from_plus [OF one] by (simp add: offset_from_wrap)
  qed (use one assms in auto)
qed

lemma offset_loop_sound:
  assumes base: "\<And>v x. base v \<Longrightarrow> fold_safe e v \<Longrightarrow> eval e v = Some x \<Longrightarrow> offset_from p q 0 x"
  shows "offset_loop base acc v = Some k \<Longrightarrow> fold_safe e v \<Longrightarrow> eval e v = Some x \<Longrightarrow>
    offset_from p q k (acc + x)"
  using base
proof (induction base acc v arbitrary: x rule: offset_loop.induct)
  case (1 base acc i t f a b)
  note base = "1.prems"(4)
  have s: "fold_safe e a" "fold_safe e b" "width t = 64" using "1.prems"(2) by auto
  obtain y z where y: "eval e a = Some y" and z: "eval e b = Some z"
    and x: "bin_sem t f y z = Some x" using "1.prems"(3) by (auto split: option.splits)
  let ?v = "Bin i t f a b"
  consider (here) "base ?v" "acc = k"
    | (r) c where "\<not> base ?v" "f = AddI" "getConstantIndex b = Some c"
    | (l) c where "\<not> base ?v" "f = AddI" "getConstantIndex b = None" "getConstantIndex a = Some c"
    | (both) "f = AddI" "base a" "base b" "acc = k"
    | (ba) "\<not> base ?v" "f = AddI" "getConstantIndex b = None" "getConstantIndex a = None"
        "base a" "\<not> base b"
    | (bb) "\<not> base ?v" "f = AddI" "getConstantIndex b = None" "getConstantIndex a = None"
        "\<not> base a" "base b"
    | (m) c where "\<not> base ?v" "f = SubI" "getConstantIndex b = Some c"
    using "1.prems"(1) by (auto split: if_splits option.splits)
  then show ?case
  proof cases
    case here
    then show ?thesis
      using offset_from_plus [OF offset_from_const base [OF here(1) "1.prems"(2,3)], of k] by simp
  next
    case r
    have "offset_from p q k (wrap64 (acc + c) + y)"
      using "1.IH"(4) [OF r _ s(1) y base] "1.prems"(1) r by simp
    moreover have "z = c" using constant_value [OF s(2) r(3) z] .
    moreover have "x = wrap64 (y + z)" using x r s(3) by (simp add: sgn_at_64)
    ultimately show ?thesis using offset_from_assoc(2) by blast
  next
    case l
    have "offset_from p q k (wrap64 (acc + c) + z)"
      using "1.IH"(3) [OF l _ s(2) z base] "1.prems"(1) l by simp
    moreover have "y = c" using constant_value [OF s(1) l(4) y] .
    moreover have "x = wrap64 (y + z)" using x l s(3) by (simp add: sgn_at_64)
    ultimately show ?thesis using offset_from_assoc(1) by blast
  next
    case both
    then have "offset_from p q (acc + (0 + 0)) (acc + (y + z))"
      using base s y z by (intro offset_from_plus offset_from_const) auto
    then show ?thesis using x both s(3) offset_from_wrap_plus [of p q k "y + z" acc]
      by (simp add: sgn_at_64 add.commute)
  next
    case ba
    have "offset_from p q k (acc + z)"
      using "1.IH"(1) [OF ba(1-4) _ ba(5) _ s(2) z base] "1.prems"(1) ba by simp
    then have "offset_from p q (0 + k) (y + (acc + z))"
      using base [OF ba(5) s(1) y] by (rule offset_from_plus [rotated])
    then show ?thesis using x ba s(3) offset_from_wrap_plus [of p q k "y + z" acc]
      by (simp add: sgn_at_64 algebra_simps)
  next
    case bb
    have "offset_from p q k (acc + y)"
      using "1.IH"(2) [OF bb(1-4) _ bb(5) bb(6) _ s(1) y base] "1.prems"(1) bb by simp
    then have "offset_from p q (0 + k) (z + (acc + y))"
      using base [OF bb(6) s(2) z] by (rule offset_from_plus [rotated])
    then show ?thesis using x bb s(3) offset_from_wrap_plus [of p q k "y + z" acc]
      by (simp add: sgn_at_64 algebra_simps)
  next
    case m
    have "offset_from p q k (wrap64 (acc - c) + y)"
      using "1.IH"(5) [OF m(1) _ m(2,3) _ s(1) y base] "1.prems"(1) m by simp
    moreover have "z = c" using constant_value [OF s(2) m(3) z] .
    ultimately have "offset_from p q k (acc + wrap64 (y + - c))" "z = c"
      using offset_from_assoc(2) [of p q k acc "- c" y] by simp_all
    then show ?thesis using x m s(3) by (simp add: sgn_at_64)
  qed
next
  case (2 base acc i t c a)
  have s: "fold_safe e a" "eval e a = Some x" using "2.prems"(2,3) by (auto simp del: eval.simps)
  show ?case
  proof (cases "base (Cast i t c a)")
    case True
    then show ?thesis using "2.prems"(1)
        offset_from_plus [OF offset_from_const "2.prems"(4) [OF True "2.prems"(2,3)], of k] by simp
  next
    case False
    then show ?thesis using "2.IH" [OF False _ _ s "2.prems"(4)] "2.prems"(1) by (auto split: if_splits)
  qed
qed (auto split: if_splits intro: offset_from_plus [OF offset_from_const, where l = 0, simplified])

text \<open>
  The constant offset extracted from a \<open>fold_safe\<close> index is right up to multiples of the loop
  variable and of the chunk offset, in 64-bit arithmetic: how often the two occur is not
  checked, so an index that is the loop variable alone has offset zero too.
\<close>

theorem extractConstantOffset_sound:
  assumes "extractConstantOffset delta idx iv off = Some k"
    and "\<And>u ops k. delta u ops = Some k \<Longrightarrow> eval e u = Some (k + sum_list (map (\<lambda>v. the (eval e v)) ops))"
    and "fold_safe e idx" "fold_safe e iv" "fold_safe e off"
    and "eval e idx = Some x" "eval e iv = Some p" "eval e off = Some q"
  shows "\<exists>m n t. x = k + int m * p + int n * q + 2 ^ 64 * t"
proof (cases "proveConstantOffsetWithBounds delta idx iv off")
  case None
  then have "offset_from p q k (0 + x)"
    using assms offset_base [of iv off _ e _ p q]
    by (intro offset_loop_sound [of "\<lambda>v. isBaseValue iv off v \<or> isBasePattern iv off v" e])
      (auto simp: extractConstantOffset_def)
  then show ?thesis by (simp add: offset_from_def)
next
  case (Some c)
  have e: "eval e (stripNumericCasts idx) = Some x" "eval e (stripNumericCasts iv) = Some p"
    "eval e (stripNumericCasts off) = Some q" using strip_safe assms by metis+
  have one: "offset_from p q 0 p" "offset_from p q 0 q"
    using offset_base [of iv off _ e _ p q] assms by (auto simp: isBaseValue_def)
  have "c = k" using Some assms(1) by (simp add: extractConstantOffset_def)
  then have "x = k \<or> x = k + p \<or> x = k + q \<or> x = k + (p + q)"
    using Some assms(2) e
    by (fastforce simp: proveConstantOffsetWithBounds_def Let_def split: if_splits)
  then have "offset_from p q k x"
    using offset_from_const offset_from_plus [OF offset_from_const [of p q k] one(1)]
      offset_from_plus [OF offset_from_const [of p q k] one(2)]
      offset_from_plus [OF offset_from_const [of p q k] offset_from_plus [OF one]] by auto
  then show ?thesis by (simp add: offset_from_def)
qed

definition sample_offset :: val where
  "sample_offset =
     Bin 0 IndexTy SubI
       (Bin 1 IndexTy AddI (Bin 2 IndexTy AddI (BlockArg 0 0 IndexTy None) (index_const 3 6)) (BlockArg 0 1 IndexTy None))
       (index_const 4 2)"

lemma extractConstantOffset_sound_witness:
  "extractConstantOffset (\<lambda>u ops. None) sample_offset (BlockArg 0 0 IndexTy None) (BlockArg 0 1 IndexTy None)
     = Some 4 \<and>
   (\<exists>m n t. (18::int) = 4 + int m * 7 + int n * 7 + 2 ^ 64 * t)"
proof -
  let ?iv = "BlockArg 0 0 IndexTy None" and ?off = "BlockArg 0 1 IndexTy None"
  have r: "extractConstantOffset (\<lambda>u ops. None) sample_offset ?iv ?off = Some 4" by code_simp
  have s: "fold_safe no_env sample_offset" "fold_safe no_env ?iv" "fold_safe no_env ?off" by code_simp+
  have e: "eval no_env sample_offset = Some 18" "eval no_env ?iv = Some 7" "eval no_env ?off = Some 7"
    by code_simp+
  have "\<exists>m n t. (18::int) = 4 + int m * 7 + int n * 7 + 2 ^ 64 * t"
    by (rule extractConstantOffset_sound [OF r _ s e]) simp
  then show ?thesis using r by blast
qed

text \<open>
  The stride of \<open>2 * (3 * i)\<close> is reported as 2: \<open>getOffsetStride\<close> returns the outermost constant
  factor without looking at the rest of the product.
\<close>

lemma stride_of_nested_product:
  "getOffsetStride 0
     (Bin 0 IndexTy MulI (index_const 1 2)
       (Bin 2 IndexTy MulI (index_const 3 3) (BlockArg 0 0 IndexTy None)))
     (BlockArg 0 0 IndexTy None) = Some 2"
  by code_simp

end
