(* ===== verification/SdeModel.thy ===== *)
theory SdeModel
  imports IR
begin

text \<open>
  The SDE dialect as the passes see it: the enumeration attributes of \<open>SdeOps.td\<close> and the
  operation \<open>sde.su_iterate\<close> with the operands and attributes the modelled passes read or
  write. The body is the tree of operation names nested in it.
\<close>

datatype schedule_kind = Static | Dynamic | Guided | AutoSchedule | RuntimeSchedule

datatype reduction_kind = RedAdd | RedMul | RedMin | RedMax | RedAnd | RedOr | RedXor | RedCustom

datatype reduction_strategy = AtomicStrategy | TreeStrategy | LocalAccumulate

datatype op_tree = OpTree string "op_tree list"

fun tree_walk :: "op_tree \<Rightarrow> string list" where
  "tree_walk (OpTree n ts) = n # concat (map tree_walk ts)"

text \<open>
  An entry of the reduction kinds that is not an SDE reduction kind attribute is \<open>None\<close>.
\<close>

record su_iterate =
  lowerBounds :: "val list"
  upperBounds :: "val list"
  steps :: "val list"
  scheduleAttr :: "schedule_kind option"
  chunkSize :: "val option"
  reductionAccumulators :: "val list"
  reductionKinds :: "reduction_kind option list option"
  reductionStrategy :: "reduction_strategy option"
  partialReduction :: bool
  body :: "op_tree list"

end
