(* ===== verification/CostModel.thy ===== *)
theory CostModel
  imports SdeModel RuntimeConfig
begin

text \<open>
  The planning cost model: the interface \<open>SDECostModel\<close> the SDE passes see, with the
  policies its base class derives from the virtual methods, and its ARTS implementation
  over the runtime configuration (\<open>ARTSCostModel\<close>). Doubles are read as real numbers; every
  constant of the model is exactly representable, and the only inexact function, the
  binary logarithm, is compared at integers.
\<close>

section \<open>The interface\<close>

text \<open>The virtual methods, as a concrete class has them.\<close>

record cost_model =
  getTaskCreationCost :: real
  getTaskSyncCost :: real
  getReductionCost :: "int \<Rightarrow> real"
  getAtomicUpdateCost :: real
  getDataAccessCost :: real
  getSchedulingOverhead :: "schedule_kind \<Rightarrow> int \<Rightarrow> real"
  getLogicalWorkerCapacity :: int
  getWorkerLocalityGroupCount :: int
  getWorkersPerLocalityGroup :: int
  getVectorWidth :: int
  getL2CacheSize :: int
  getMinIterationsPerWorker :: int

text \<open>\<open>static_cast<int64_t>\<close> of a double.\<close>

definition truncate :: "real \<Rightarrow> int" where
  "truncate x = (if 0 \<le> x then \<lfloor>x\<rfloor> else \<lceil>x\<rceil>)"

text \<open>\<open>ceil(log2(n))\<close> for a positive integer.\<close>

fun ceil_log2 :: "nat \<Rightarrow> nat" where
  "ceil_log2 n = (if n \<le> 1 then 0 else Suc (ceil_log2 ((n + 1) div 2)))"

declare ceil_log2.simps [simp del]

definition getVectorWidthForElementBits :: "cost_model \<Rightarrow> int \<Rightarrow> int" where
  "getVectorWidthForElementBits M elementBits =
     (let baseWidth = max 1 (getVectorWidth M)
      in if elementBits = 0 then baseWidth
         else wrap32 (baseWidth * max 1 (64 div elementBits)))"

definition getVectorUnrollFactor :: "cost_model \<Rightarrow> bool \<Rightarrow> int" where
  "getVectorUnrollFactor M reuseHeavy =
     (let baseWidth = max 1 (getVectorWidth M)
      in if reuseHeavy then wrap32 (baseWidth * baseWidth) else baseWidth)"

definition getVectorInterleaveCount :: "cost_model \<Rightarrow> int" where
  "getVectorInterleaveCount M = (let baseWidth = max 1 (getVectorWidth M) in wrap32 (baseWidth * baseWidth))"

text \<open>The default of the virtual \<open>getMinIterationsPerWorker\<close>, from the two costs it reads.\<close>

definition default_min_iterations :: "real \<Rightarrow> real \<Rightarrow> int" where
  "default_min_iterations creation access = max 1 (truncate (creation / (access + 1)))"

definition getMinPipelineOwnerIterationsPerTask :: "cost_model \<Rightarrow> int" where
  "getMinPipelineOwnerIterationsPerTask M =
     (let lifecycle = max 1 \<lceil>(getTaskCreationCost M + getTaskSyncCost M) / (getDataAccessCost M + 1)\<rceil>;
          capacity = max 1 (int (ceil_log2 (nat (max 2 (getLogicalWorkerCapacity M)))))
      in max (max (getMinIterationsPerWorker M) lifecycle) capacity)"

definition getInterLocalityTaskWaves :: "cost_model \<Rightarrow> int" where
  "getInterLocalityTaskWaves M =
     (let groups = max 1 (getWorkerLocalityGroupCount M)
      in if groups \<le> 1 then 1 else max 2 (1 + int (ceil_log2 (nat (max 2 groups)))))"

definition getOwnerLocalPipelineTargetTaskWaves :: "cost_model \<Rightarrow> int" where
  "getOwnerLocalPipelineTargetTaskWaves M = 1"

section \<open>The ARTS implementation\<close>

fun arts_scheduling_overhead :: "schedule_kind \<Rightarrow> int \<Rightarrow> real" where
  "arts_scheduling_overhead Static tripCount = 0"
| "arts_scheduling_overhead Dynamic tripCount = 1800 * (1 / 10)"
| "arts_scheduling_overhead Guided tripCount = 1800 * (1 / 20)"
| "arts_scheduling_overhead _ tripCount = 0"

definition arts_reduction_cost :: "int \<Rightarrow> real" where
  "arts_reduction_cost workerCount =
     (let treeCost = log 2 (real_of_int workerCount) * 3000;
          linearCost = real_of_int workerCount * 100
      in min treeCost linearCost)"

definition ARTSCostModel :: "runtime_config \<Rightarrow> cost_model" where
  "ARTSCostModel c = \<lparr>
     getTaskCreationCost = 1800,
     getTaskSyncCost = 3000,
     getReductionCost = arts_reduction_cost,
     getAtomicUpdateCost = 100,
     getDataAccessCost = 500,
     getSchedulingOverhead = arts_scheduling_overhead,
     getLogicalWorkerCapacity = getRuntimeTotalWorkers c,
     getWorkerLocalityGroupCount = max 1 (nodeCount c),
     getWorkersPerLocalityGroup = max 1 (getRuntimeWorkersPerNode c),
     getVectorWidth = 2,
     getL2CacheSize = 262144,
     getMinIterationsPerWorker =
       (if 0 < minIterationsPerWorker c then minIterationsPerWorker c
        else default_min_iterations 1800 500)\<rparr>"

section \<open>The contract of a cost model\<close>

text \<open>
  What the passes rely on: costs are not negative and the iteration floor is at least one.
  A model under which a static schedule is never dearer makes the schedule choice static.
\<close>

locale cost_contract =
  fixes M :: cost_model
  assumes costs_nonneg: "0 \<le> getTaskCreationCost M" "0 \<le> getTaskSyncCost M" "0 \<le> getDataAccessCost M"
    and min_iterations_pos: "1 \<le> getMinIterationsPerWorker M"
begin

lemma pipeline_floor:
  "getMinIterationsPerWorker M \<le> getMinPipelineOwnerIterationsPerTask M"
  "(getTaskCreationCost M + getTaskSyncCost M)
     \<le> real_of_int (getMinPipelineOwnerIterationsPerTask M) * (getDataAccessCost M + 1)"
proof -
  let ?a = "(getTaskCreationCost M + getTaskSyncCost M) / (getDataAccessCost M + 1)"
  show "getMinIterationsPerWorker M \<le> getMinPipelineOwnerIterationsPerTask M"
    by (simp add: getMinPipelineOwnerIterationsPerTask_def Let_def)
  have "\<lceil>?a\<rceil> \<le> getMinPipelineOwnerIterationsPerTask M"
    by (simp add: getMinPipelineOwnerIterationsPerTask_def Let_def)
  then have "?a \<le> real_of_int (getMinPipelineOwnerIterationsPerTask M)" by (simp add: ceiling_le_iff)
  then show "(getTaskCreationCost M + getTaskSyncCost M)
     \<le> real_of_int (getMinPipelineOwnerIterationsPerTask M) * (getDataAccessCost M + 1)"
    using costs_nonneg(3) by (simp add: divide_le_eq)
qed

end

locale static_first = cost_contract +
  assumes static_cheapest: "getSchedulingOverhead M Static n \<le> getSchedulingOverhead M k n"

lemma default_min_iterations_arts: "default_min_iterations 1800 500 = 3"
proof -
  have "\<lfloor>1800 / (501::real)\<rfloor> = 3" by (simp add: floor_eq_iff)
  then show ?thesis by (simp add: default_min_iterations_def truncate_def)
qed

interpretation arts_cost: static_first "ARTSCostModel c" for c
proof
  show "getSchedulingOverhead (ARTSCostModel c) Static n \<le> getSchedulingOverhead (ARTSCostModel c) k n"
    for k n by (cases k) (simp_all add: ARTSCostModel_def)
qed (simp_all add: ARTSCostModel_def default_min_iterations_arts)

section \<open>Derived facts\<close>

lemma ceil_log2_bounds: "n \<le> 2 ^ ceil_log2 n \<and> (1 < n \<longrightarrow> 2 ^ (ceil_log2 n - 1) < n)"
proof (induction n rule: ceil_log2.induct)
  case (1 n)
  show ?case
  proof (cases "n \<le> 1")
    case True
    then show ?thesis by (simp add: ceil_log2.simps)
  next
    case False
    let ?m = "(n + 1) div 2"
    have c: "ceil_log2 n = Suc (ceil_log2 ?m)" using False by (subst ceil_log2.simps) simp
    have ih: "?m \<le> 2 ^ ceil_log2 ?m" "1 < ?m \<longrightarrow> 2 ^ (ceil_log2 ?m - 1) < ?m" using "1.IH" False by auto
    have "n \<le> 2 * ?m" by presburger
    then have "n \<le> 2 ^ ceil_log2 n" using ih(1) c by simp
    moreover have "2 ^ (ceil_log2 n - 1) < n"
    proof (cases "?m = 1")
      case True
      then have "n = 2" using False by presburger
      then show ?thesis using c True by (simp add: ceil_log2.simps)
    next
      case m: False
      then have "1 < ?m" using False by presburger
      then obtain k where k: "ceil_log2 ?m = Suc k" using ceil_log2.simps [of ?m] by simp
      then have "2 ^ k + 1 \<le> ?m" using ih(2) \<open>1 < ?m\<close> by simp
      moreover have "2 * ?m \<le> n + 1" by presburger
      ultimately show ?thesis using c k by simp
    qed
    ultimately show ?thesis by blast
  qed
qed

lemma inter_locality_waves:
  "1 \<le> getInterLocalityTaskWaves M \<and>
   (getWorkerLocalityGroupCount M \<le> 1 \<longleftrightarrow> getInterLocalityTaskWaves M = 1) \<and>
   getWorkerLocalityGroupCount M \<le> 2 ^ nat (getInterLocalityTaskWaves M - 1)"
proof (cases "getWorkerLocalityGroupCount M \<le> 1")
  case True
  then show ?thesis by (simp add: getInterLocalityTaskWaves_def)
next
  case False
  let ?g = "getWorkerLocalityGroupCount M"
  have b: "nat ?g \<le> 2 ^ ceil_log2 (nat ?g)" using ceil_log2_bounds by blast
  have pos: "0 < ceil_log2 (nat ?g)" using False by (subst ceil_log2.simps) simp
  have w: "getInterLocalityTaskWaves M = 1 + int (ceil_log2 (nat ?g))"
    using False pos by (simp add: getInterLocalityTaskWaves_def Let_def max_def)
  have "?g \<le> 2 ^ ceil_log2 (nat ?g)"
    using b False by (metis linorder_not_le nat_le_iff of_nat_numeral of_nat_power)
  then show ?thesis using w pos False by simp
qed

text \<open>
  C34: The derived planning policies meet their purpose for the ARTS cost model of every
  configuration: a pipeline task is given at least the iteration floor, and enough
  iterations that their data accesses pay for creating and synchronising it; the task
  waves between locality groups are one exactly on a single group, and otherwise enough
  to double up to the number of groups.
\<close>

theorem arts_planning_floors:
  "getMinIterationsPerWorker (ARTSCostModel c) \<le> getMinPipelineOwnerIterationsPerTask (ARTSCostModel c) \<and>
   getTaskCreationCost (ARTSCostModel c) + getTaskSyncCost (ARTSCostModel c)
     \<le> real_of_int (getMinPipelineOwnerIterationsPerTask (ARTSCostModel c)) *
         (getDataAccessCost (ARTSCostModel c) + 1) \<and>
   (getInterLocalityTaskWaves (ARTSCostModel c) = 1 \<longleftrightarrow> nodeCount c \<le> 1) \<and>
   nodeCount c \<le> 2 ^ nat (getInterLocalityTaskWaves (ARTSCostModel c) - 1)"
proof -
  have g: "getWorkerLocalityGroupCount (ARTSCostModel c) = max 1 (nodeCount c)"
    by (simp add: ARTSCostModel_def)
  show ?thesis
    using arts_cost.pipeline_floor [of c] inter_locality_waves [of "ARTSCostModel c", unfolded g] by auto
qed

end
