(* ===== verification/IterationSizing.thy ===== *)
theory IterationSizing
  imports SdeModel ValueAnalysis "HOL-Library.Multiset"
begin

text \<open>
  Iteration sizing (\<open>IterationSizingUtils.cpp\<close>) and static trip counts (\<open>LoopUtils.cpp\<close>):
  how a worker count is factored over the dimensions of an iteration space, and how many
  iterations a loop runs, as a constant or as a value built for run time. \<open>long double\<close>
  ratios are read as exact rationals, with infinity as \<open>None\<close>.
\<close>

section \<open>Factoring workers over dimensions\<close>

definition ceilDivPositive :: "int \<Rightarrow> int \<Rightarrow> int" where
  "ceilDivPositive v divisor = ceil_div (max 1 v) (max 1 divisor)"

text \<open>
  The inner \<open>while\<close> of the factorisation, and the \<open>for\<close> around it. The guards on \<open>factor\<close> and
  \<open>remaining\<close> always hold in the code, where the factor starts at 2 and the remainder at the
  worker count.
\<close>

function divide_out :: "int \<Rightarrow> int \<Rightarrow> int list \<times> int" where
  "divide_out factor remaining =
     (if 2 \<le> factor \<and> 0 < remaining \<and> remaining mod factor = 0
      then let (fs, r) = divide_out factor (remaining div factor) in (factor # fs, r)
      else ([], remaining))"
  by pat_completeness auto
termination
  by (relation "measure (\<lambda>(factor, remaining). nat remaining)") (auto simp: int_div_less_self)

declare divide_out.simps [simp del]

lemma divide_out_spec:
  "divide_out f r = (fs, r') \<Longrightarrow> 0 < r \<Longrightarrow>
     prod_list fs * r' = r \<and> 0 < r' \<and> r' \<le> r \<and> (\<forall>x\<in>set fs. 2 \<le> x)"
proof (induction f r arbitrary: fs rule: divide_out.induct)
  case (1 f r)
  show ?case
  proof (cases "2 \<le> f \<and> 0 < r \<and> r mod f = 0")
    case True
    then obtain gs where g: "divide_out f (r div f) = (gs, r')" "fs = f # gs"
      using "1.prems"(1) by (subst (asm) divide_out.simps) (auto split: prod.splits)
    have q: "0 < r div f" "r div f * f = r" using True
      by (metis dvd_div_mult_self dvd_eq_mod_eq_0 mult_le_0_iff not_le zero_less_mult_pos2 less_le_trans
          zero_less_numeral pos_imp_zdiv_pos_iff zdvd_imp_le, simp add: dvd_div_mult_self dvd_eq_mod_eq_0)
    note ih = "1.IH" [OF True g(1) q(1)]
    have "r div f \<le> r" using True int_div_less_self [of r f] by simp
    then show ?thesis using ih g(2) q True by (auto simp: algebra_simps)
  next
    case False
    then show ?thesis using "1.prems" by (subst (asm) divide_out.simps) auto
  qed
qed

function trial_factors :: "int \<Rightarrow> int \<Rightarrow> int list \<times> int" where
  "trial_factors factor remaining =
     (if 2 \<le> factor \<and> factor * factor \<le> remaining
      then let (fs, r) = divide_out factor remaining; (gs, r') = trial_factors (factor + 1) r
           in (fs @ gs, r')
      else ([], remaining))"
  by pat_completeness auto
termination
proof (relation "measure (\<lambda>(factor, remaining). nat (remaining + 1 - factor))", simp, clarify)
  fix f r :: int and x fs r'
  assume f: "2 \<le> f" "f * f \<le> r" and e: "(fs, r') = divide_out f r"
  have "f * 1 \<le> f * f" using f(1) by (intro mult_left_mono) auto
  then have "f \<le> r" "0 < r" using f by linarith+
  moreover have "r' \<le> r" using divide_out_spec [OF e [symmetric]] \<open>0 < r\<close> by blast
  ultimately show "((f + 1, r'), f, r) \<in> measure (\<lambda>(factor, remaining). nat (remaining + 1 - factor))"
    by simp
qed

declare trial_factors.simps [simp del]

definition worker_factors :: "int \<Rightarrow> int list" where
  "worker_factors workers =
     (let (fs, remaining) = trial_factors 2 workers;
          factors = (if 1 < remaining then fs @ [remaining] else fs)
      in rev (sort factors))"

text \<open>The scan for the dimension whose tile is longest: strictly longer replaces.\<close>

fun pick_longest :: "int list \<Rightarrow> int list \<Rightarrow> nat \<Rightarrow> nat \<Rightarrow> int \<Rightarrow> nat" where
  "pick_longest (e # es) (g # gs) idx bestDim bestSpan =
     (let span = ceilDivPositive e g
      in if span > bestSpan then pick_longest es gs (idx + 1) idx span
         else pick_longest es gs (idx + 1) bestDim bestSpan)"
| "pick_longest _ _ idx bestDim bestSpan = bestDim"

fun distribute :: "(int \<Rightarrow> int list \<Rightarrow> nat) \<Rightarrow> int list \<Rightarrow> int list \<Rightarrow> int list" where
  "distribute pick [] grid = grid"
| "distribute pick (f # fs) grid =
     (let d = pick f grid in distribute pick fs (grid[d := grid ! d * f]))"

definition factorWorkersAcrossDims :: "int \<Rightarrow> int list \<Rightarrow> int list" where
  "factorWorkersAcrossDims workers extents =
     (let grid = replicate (length extents) 1
      in if workers \<le> 1 \<or> extents = [] then grid
         else distribute (\<lambda>f grid. pick_longest extents grid 0 0 (-1)) (worker_factors workers) grid)"

fun tile_volumes :: "int list \<Rightarrow> int list \<Rightarrow> int list \<Rightarrow> nat \<Rightarrow> rat \<Rightarrow> rat \<Rightarrow> rat \<times> rat" where
  "tile_volumes (e # es) haloRadii grid idx owned expanded =
     (let tile = ceilDivPositive e (grid ! idx);
          halo = (if idx < length haloRadii then max 0 (haloRadii ! idx) else 0)
      in tile_volumes es haloRadii grid (idx + 1) (owned * of_int tile) (expanded * of_int (tile + 2 * halo)))"
| "tile_volumes [] haloRadii grid idx owned expanded = (owned, expanded)"

definition estimateStencilExpandedTileRatio :: "int list \<Rightarrow> int list \<Rightarrow> int list \<Rightarrow> rat option" where
  "estimateStencilExpandedTileRatio extents haloRadii grid =
     (let (owned, expanded) = tile_volumes extents haloRadii grid 0 1 1
      in if owned \<le> 0 then None else Some (expanded / owned))"

definition better_ratio :: "rat option \<Rightarrow> int \<Rightarrow> rat option \<Rightarrow> int \<Rightarrow> bool" where
  "better_ratio ratio tileSpan bestRatio bestSpan =
     (case (ratio, bestRatio) of
        (Some r, None) \<Rightarrow> True
      | (Some r, Some b) \<Rightarrow>
          r + 1 / 10 ^ 12 < b \<or> (\<bar>r - b\<bar> \<le> 1 / 10 ^ 12 \<and> tileSpan > bestSpan)
      | (None, _) \<Rightarrow> False)"

fun pick_stencil ::
  "int list \<Rightarrow> int list \<Rightarrow> int list \<Rightarrow> int \<Rightarrow> nat list \<Rightarrow> nat \<Rightarrow> rat option \<Rightarrow> int \<Rightarrow> nat" where
  "pick_stencil extents haloRadii grid factor [] bestDim bestRatio bestSpan = bestDim"
| "pick_stencil extents haloRadii grid factor (idx # rest) bestDim bestRatio bestSpan =
     (let candidate = grid[idx := grid ! idx * factor];
          ratio = estimateStencilExpandedTileRatio extents haloRadii candidate;
          span = ceilDivPositive (extents ! idx) (candidate ! idx)
      in if better_ratio ratio span bestRatio bestSpan
         then pick_stencil extents haloRadii grid factor rest idx ratio span
         else pick_stencil extents haloRadii grid factor rest bestDim bestRatio bestSpan)"

definition factorStencilWorkersAcrossDims :: "int \<Rightarrow> int list \<Rightarrow> int list \<Rightarrow> int list" where
  "factorStencilWorkersAcrossDims workers extents haloRadii =
     (let grid = replicate (length extents) 1
      in if workers \<le> 1 \<or> extents = [] then grid
         else if haloRadii = [] \<or> list_all (\<lambda>h. h \<le> 0) haloRadii
         then factorWorkersAcrossDims workers extents
         else distribute
                (\<lambda>f grid. pick_stencil extents haloRadii grid f [0..<length extents] 0 None (-1))
                (worker_factors workers) grid)"

section \<open>The contract of a dimension picker\<close>

text \<open>
  All the distribution needs of the picker is that it names a dimension of the grid: then
  the product of the grid is the number of workers, however the dimensions were picked.
\<close>

lemma prod_list_scale: "i < length xs \<Longrightarrow> prod_list (xs[i := xs ! i * (f::int)]) = prod_list xs * f"
  by (induction xs arbitrary: i) (auto simp: nth_Cons' list_update.simps split: nat.splits)

locale dim_picker =
  fixes pick :: "int \<Rightarrow> int list \<Rightarrow> nat" and rank :: nat
  assumes pick_in_range: "length grid = rank \<Longrightarrow> pick f grid < rank"
begin

lemma distribute_product:
  "length grid = rank \<Longrightarrow> \<forall>x\<in>set grid. 1 \<le> x \<Longrightarrow> \<forall>f\<in>set fs. 1 \<le> f \<Longrightarrow>
     length (distribute pick fs grid) = rank \<and> (\<forall>x\<in>set (distribute pick fs grid). 1 \<le> x) \<and>
     prod_list (distribute pick fs grid) = prod_list grid * prod_list fs"
proof (induction fs arbitrary: grid)
  case (Cons f fs)
  let ?d = "pick f grid"
  have d: "?d < length grid" using pick_in_range [of grid f] Cons.prems(1) by simp
  have pos: "1 \<le> grid ! ?d" using Cons.prems(2) nth_mem [OF d] by blast
  have one: "1 \<le> grid ! ?d * f" using mult_mono [of 1 "grid ! ?d" 1 f] pos Cons.prems(3) by auto
  have p: "prod_list (grid[?d := grid ! ?d * f]) = prod_list grid * f"
    using d by (rule prod_list_scale)
  have s: "\<forall>x\<in>set (grid[?d := grid ! ?d * f]). 1 \<le> x"
    using Cons.prems(2) one set_update_subset_insert [of grid ?d "grid ! ?d * f"] by auto
  have "length (grid[?d := grid ! ?d * f]) = rank" using Cons.prems(1) by simp
  note ih = Cons.IH [OF this s]
  show ?case unfolding distribute.simps Let_def using ih p Cons.prems(3) by (simp add: mult.assoc)
qed auto

end

lemma pick_longest_range:
  "length es = length gs \<Longrightarrow> pick_longest es gs i d b < i + length es \<or> pick_longest es gs i d b = d"
  by (induction es gs i d b rule: pick_longest.induct) (force simp: Let_def)+

lemma pick_longest_in: "es \<noteq> [] \<Longrightarrow> length es = length gs \<Longrightarrow> pick_longest es gs 0 0 b < length es"
  using pick_longest_range [of es gs 0 0 b] by auto

lemma pick_stencil_range:
  "pick_stencil es h g f is d r b = d \<or> pick_stencil es h g f is d r b \<in> set is"
proof (induction "is" arbitrary: d r b)
  case (Cons i "is")
  show ?case unfolding pick_stencil.simps Let_def by (split if_split) (use Cons.IH in force)
qed simp

lemma pick_stencil_in: "es \<noteq> [] \<Longrightarrow> pick_stencil es h g f [0..<length es] 0 r b < length es"
  using pick_stencil_range [of es h g f "[0..<length es]" 0 r b] by auto

text \<open>
  The two pickers, made total on the empty iteration space, where neither function reaches
  them.
\<close>

definition longest_dim :: "int list \<Rightarrow> int \<Rightarrow> int list \<Rightarrow> nat" where
  "longest_dim extents f grid = pick_longest extents grid 0 0 (-1)"

definition least_halo_dim :: "int list \<Rightarrow> int list \<Rightarrow> int \<Rightarrow> int list \<Rightarrow> nat" where
  "least_halo_dim extents haloRadii f grid =
     pick_stencil extents haloRadii grid f [0..<length extents] 0 None (-1)"

interpretation longest: dim_picker "longest_dim (e # es)" "length (e # es)" for e es
  by unfold_locales (simp only: longest_dim_def, rule pick_longest_in, simp_all)

interpretation least_halo: dim_picker "least_halo_dim (e # es) haloRadii" "length (e # es)"
  for e es haloRadii
  by unfold_locales (simp only: least_halo_dim_def, rule pick_stencil_in, simp)

lemma trial_factors_spec:
  "trial_factors f r = (fs, r') \<Longrightarrow> 0 < r \<Longrightarrow>
     prod_list fs * r' = r \<and> 0 < r' \<and> (\<forall>x\<in>set fs. 2 \<le> x)"
proof (induction f r arbitrary: fs r' rule: trial_factors.induct)
  case (1 f r)
  show ?case
  proof (cases "2 \<le> f \<and> f * f \<le> r")
    case True
    obtain gs m where g: "divide_out f r = (gs, m)" by fastforce
    obtain hs n where h: "trial_factors (f + 1) m = (hs, n)" by fastforce
    have e: "fs = gs @ hs" "r' = n"
      using "1.prems"(1) True g h by (subst (asm) trial_factors.simps, auto)+
    note s = divide_out_spec [OF g "1.prems"(2)]
    have "prod_list hs * n = m \<and> 0 < n \<and> (\<forall>x\<in>set hs. 2 \<le> x)"
      using "1.IH" [OF True g [symmetric] refl h] s by blast
    then show ?thesis using s e by (auto simp: mult.assoc)
  next
    case False
    then show ?thesis using "1.prems" by (subst (asm) trial_factors.simps) auto
  qed
qed

lemma prod_list_mset: "mset xs = mset ys \<Longrightarrow> prod_list xs = prod_list (ys :: int list)"
  by (metis prod_mset_prod_list)

lemma worker_factors_spec:
  assumes "1 < w"
  shows "prod_list (worker_factors w) = w" "\<forall>f\<in>set (worker_factors w). 1 \<le> f"
proof -
  obtain fs r where t: "trial_factors 2 w = (fs, r)" by fastforce
  let ?l = "if 1 < r then fs @ [r] else fs"
  have s: "prod_list fs * r = w" "0 < r" "\<forall>x\<in>set fs. 2 \<le> x"
    using trial_factors_spec [OF t] assms by auto
  have w: "worker_factors w = rev (sort ?l)" using t by (simp add: worker_factors_def Let_def)
  have "prod_list ?l = w" using s by (cases "1 < r") auto
  moreover have "prod_list (rev (sort ?l)) = prod_list ?l" by (rule prod_list_mset) simp
  ultimately show "prod_list (worker_factors w) = w" using w by simp
  show "\<forall>f\<in>set (worker_factors w). 1 \<le> f" using s w by (auto split: if_splits)
qed

lemma prod_list_replicate_1: "prod_list (replicate n (1::int)) = 1"
  by (induction n) auto

lemma factor_workers_product:
  assumes "1 < workers" "extents \<noteq> []"
  shows "length (factorWorkersAcrossDims workers extents) = length extents"
    "\<forall>g\<in>set (factorWorkersAcrossDims workers extents). 1 \<le> g"
    "prod_list (factorWorkersAcrossDims workers extents) = workers"
proof -
  obtain e es where x: "extents = e # es" using assms(2) by (cases extents) auto
  have d: "factorWorkersAcrossDims workers extents =
      distribute (longest_dim extents) (worker_factors workers) (replicate (length extents) 1)"
    using assms by (simp add: factorWorkersAcrossDims_def Let_def longest_dim_def [abs_def])
  note p = longest.distribute_product [of "replicate (length extents) 1" e es "worker_factors workers",
      folded x, OF length_replicate _ worker_factors_spec(2) [OF assms(1)]]
  show "length (factorWorkersAcrossDims workers extents) = length extents"
    "\<forall>g\<in>set (factorWorkersAcrossDims workers extents). 1 \<le> g"
    "prod_list (factorWorkersAcrossDims workers extents) = workers"
    using p d worker_factors_spec(1) [OF assms(1)] by (simp_all add: prod_list_replicate_1)
qed

lemma factor_stencil_product:
  assumes "1 < workers" "extents \<noteq> []"
  shows "length (factorStencilWorkersAcrossDims workers extents halo) = length extents"
    "\<forall>g\<in>set (factorStencilWorkersAcrossDims workers extents halo). 1 \<le> g"
    "prod_list (factorStencilWorkersAcrossDims workers extents halo) = workers"
proof -
  let ?F = "factorStencilWorkersAcrossDims workers extents halo"
  obtain e es where x: "extents = e # es" using assms(2) by (cases extents) auto
  note p = least_halo.distribute_product [of "replicate (length extents) 1" e es "worker_factors workers" halo,
      folded x, OF length_replicate _ worker_factors_spec(2) [OF assms(1)]]
  consider "?F = factorWorkersAcrossDims workers extents"
    | "?F = distribute (least_halo_dim extents halo) (worker_factors workers) (replicate (length extents) 1)"
    using assms by (simp add: factorStencilWorkersAcrossDims_def Let_def least_halo_dim_def [abs_def]) argo
  then have "length ?F = length extents \<and> (\<forall>g\<in>set ?F. 1 \<le> g) \<and> prod_list ?F = workers"
  proof cases
    case 1
    then show ?thesis using factor_workers_product [OF assms] by simp
  next
    case 2
    then show ?thesis using p worker_factors_spec(1) [OF assms(1)] by (simp add: prod_list_replicate_1)
  qed
  then show "length ?F = length extents" "\<forall>g\<in>set ?F. 1 \<le> g" "prod_list ?F = workers" by auto
qed


subsection \<open>Properties\<close>

text \<open>
  C27: Factoring workers over an iteration space loses none of them: for more than one worker
  and at least one dimension, the worker grid has one positive entry per dimension and its
  product is the worker count, whether the dimensions are picked by longest tile or by least
  stencil halo; otherwise the grid is all ones.
\<close>

theorem worker_grid_product:
  assumes "g = factorWorkersAcrossDims workers extents \<or> g = factorStencilWorkersAcrossDims workers extents halo"
  shows "length g = length extents \<and> (\<forall>x\<in>set g. 1 \<le> x) \<and>
    prod_list g = (if 1 < workers \<and> extents \<noteq> [] then workers else 1)"
proof (cases "1 < workers \<and> extents \<noteq> []")
  case True
  then show ?thesis
    using assms factor_workers_product [of workers extents] factor_stencil_product [of workers extents halo] by auto
next
  case False
  then show ?thesis using assms
    by (auto simp: factorWorkersAcrossDims_def factorStencilWorkersAcrossDims_def Let_def prod_list_replicate_1)
qed

lemma worker_grid_product_witness:
  "prod_list (factorStencilWorkersAcrossDims 12 [64, 100] [1, 1]) = 12 \<and>
   factorWorkersAcrossDims 12 [64, 100] = [2, 6]"
proof -
  have "factorWorkersAcrossDims 12 [64, 100] = [2, 6]" by code_simp
  then show ?thesis
    using worker_grid_product [OF disjI2 [OF refl], of 12 "[64, 100]" "[1, 1]"] by simp
qed

end
