(* ===== verification/LoopBounds.thy ===== *)
theory LoopBounds
  imports IterationSizing ValueQueries
begin

text \<open>
  Loop bounds (\<open>LoopUtils.cpp\<close> and the builders of \<open>IterationSizingUtils.cpp\<close>): the number
  of iterations of a loop as a constant and as a value computed at run time, and when a
  division may be hoisted out of a loop. The builder is the counter of fresh operation
  identities.
\<close>

section \<open>Static trip counts\<close>

datatype fold_result = FoldVal val | FoldAttr attr

fun getConstantIndexOfr :: "mlir \<Rightarrow> fold_result \<Rightarrow> int option" where
  "getConstantIndexOfr P (FoldVal v) = tryFoldConstantIndex P 0 v"
| "getConstantIndexOfr P (FoldAttr (IntAttr n)) = Some n"
| "getConstantIndexOfr P (FoldAttr (BoolAttr b)) = Some (if b then -1 else 0)"
| "getConstantIndexOfr P (FoldAttr _) = None"

definition span_trip_count :: "int \<Rightarrow> int \<Rightarrow> int \<Rightarrow> int option" where
  "span_trip_count lb ub step =
     (if step \<le> 0 then None
      else let tripSpan = max 0 (wrap64 (ub - lb))
           in Some (trunc_div (wrap64 (wrap64 (tripSpan + step) - 1)) step))"

definition getStaticTripCount_loopLike ::
  "mlir \<Rightarrow> fold_result list \<Rightarrow> fold_result list \<Rightarrow> fold_result list \<Rightarrow> int option" where
  "getStaticTripCount_loopLike P lbs ubs sts =
     (case (lbs, ubs, sts) of
        ([l], [u], [s]) \<Rightarrow>
          (case (getConstantIndexOfr P l, getConstantIndexOfr P u, getConstantIndexOfr P s) of
             (Some lb, Some ub, Some step) \<Rightarrow> span_trip_count lb ub step
           | _ \<Rightarrow> None)
      | _ \<Rightarrow> None)"

definition getStaticTripCount_affine :: "int option \<Rightarrow> int option \<Rightarrow> int \<Rightarrow> int option" where
  "getStaticTripCount_affine lb ub step =
     (case (lb, ub) of (Some l, Some u) \<Rightarrow> span_trip_count l u step | _ \<Rightarrow> None)"

text \<open>An OpenMP worksharing loop: the bounds of the wrapped loop nest, outermost first.\<close>

definition getStaticTripCount_wsloop ::
  "mlir \<Rightarrow> (val list \<times> val list \<times> val list) option \<Rightarrow> int option" where
  "getStaticTripCount_wsloop P nest =
     (case nest of
        None \<Rightarrow> None
      | Some (lbs, ubs, sts) \<Rightarrow>
          if lbs = [] \<or> length lbs \<noteq> length ubs \<or> length lbs \<noteq> length sts then None
          else case (tryFoldConstantIndex P 0 (hd lbs), tryFoldConstantIndex P 0 (hd ubs),
                     tryFoldConstantIndex P 0 (hd sts)) of
                 (Some lb, Some ub, Some step) \<Rightarrow> span_trip_count lb ub step
               | _ \<Rightarrow> None)"

text \<open>The overload for \<open>sde.su_iterate\<close>, a loop-like operation whose bounds are values.\<close>

definition getStaticTripCount :: "mlir \<Rightarrow> 'a su_iterate_scheme \<Rightarrow> int option" where
  "getStaticTripCount P op =
     getStaticTripCount_loopLike P (map FoldVal (lowerBounds op)) (map FoldVal (upperBounds op))
       (map FoldVal (steps op))"

section \<open>Building the trip count\<close>

definition createConstantIndex :: "int \<Rightarrow> nat \<Rightarrow> val \<times> nat" where
  "createConstantIndex c n = (Const n IndexTy (IntAttr c), Suc n)"

definition buildLogicalWorkerCapacityValue :: "nat \<Rightarrow> val \<times> nat" where
  "buildLogicalWorkerCapacityValue n =
     (let logicalWorkers = OtherOp n 0 IndexTy ''sde.resource_query logical_workers'' [];
          (one, n1) = createConstantIndex 1 (Suc n)
      in (Bin n1 IndexTy MaxUI logicalWorkers one, Suc n1))"

definition buildTripCountValue :: "mlir \<Rightarrow> 'a su_iterate_scheme \<Rightarrow> nat \<Rightarrow> val option \<times> nat" where
  "buildTripCountValue P op n =
     (case getStaticTripCount P op of
        Some tripCount \<Rightarrow> (case createConstantIndex tripCount n of (v, n1) \<Rightarrow> (Some v, n1))
      | None \<Rightarrow>
          (case (lowerBounds op, upperBounds op, steps op) of
             ([lowerBound], [upperBound], [step]) \<Rightarrow>
               (let (zero, n1) = createConstantIndex 0 n;
                    (one, n2) = createConstantIndex 1 n1;
                    tripSpan = Bin n2 (type_of upperBound) SubI upperBound lowerBound;
                    n3 = Suc n2;
                    safe = (case getConstantIndex step of
                              Some c \<Rightarrow> if c \<le> 0 then None else Some (step, n3)
                            | None \<Rightarrow>
                                (let stepIsTooSmall = CmpI n3 Csle step zero
                                 in Some (Select (Suc n3) (type_of one) stepIsTooSmall one step, Suc (Suc n3))))
                in case safe of
                     None \<Rightarrow> (None, n3)
                   | Some (safeStep, n4) \<Rightarrow>
                       (let spanIsNegative = CmpI n4 Cslt tripSpan zero;
                            nonNegativeSpan = Select (Suc n4) (type_of zero) spanIsNegative zero tripSpan
                        in (Some (Bin (Suc (Suc n4)) (type_of nonNegativeSpan) CeilDivSI nonNegativeSpan safeStep),
                            Suc (Suc (Suc n4)))))
           | _ \<Rightarrow> (None, n)))"

section \<open>Hoisting divisions\<close>

text \<open>\<open>outside v\<close>: the value is defined outside the loop. Loads and calls are not hoisted.\<close>

definition isLoopInvariant :: "(val \<Rightarrow> bool) \<Rightarrow> val \<Rightarrow> bool" where
  "isLoopInvariant outside v = (outside v \<or> isValueConstant (stripNumericCasts v))"

definition isSafeToHoistDivRem :: "mlir \<Rightarrow> (val \<Rightarrow> bool) \<Rightarrow> val \<Rightarrow> bool" where
  "isSafeToHoistDivRem P outside op =
     (case op of
        Bin i t f a b \<Rightarrow>
          if f = DivUI \<or> f = RemUI then isLoopInvariant outside b \<and> isProvablyNonZero P 0 b else False
      | _ \<Rightarrow> False)"

definition allOperandsDominate :: "(val \<Rightarrow> bool) \<Rightarrow> val \<Rightarrow> bool" where
  "allOperandsDominate dominates op = list_all dominates (operands op)"

definition isSafeDivRemToHoist :: "mlir \<Rightarrow> bool \<Rightarrow> (val \<Rightarrow> bool) \<Rightarrow> val \<Rightarrow> bool" where
  "isSafeDivRemToHoist P loopIsAncestor dominates op =
     (if \<not> loopIsAncestor then False
      else case op of
             Bin i t f a b \<Rightarrow>
               if f = DivUI \<or> f = RemUI
               then (if \<not> isProvablyNonZero P 0 b then False
                     else if \<not> allOperandsDominate dominates op then False
                     else True)
               else False
           | _ \<Rightarrow> False)"

text \<open>
  \<open>findHoistTarget\<close> climbs the parents of an operation, innermost first. A parent that is a
  \<open>scf.for\<close> is its identity with whether a value is defined outside it and whether it
  dominates it; other parents are \<open>None\<close>.
\<close>

record for_loop =
  loop_id :: nat
  defined_outside :: "val \<Rightarrow> bool"
  dominates_loop :: "val \<Rightarrow> bool"

definition hoistable_past :: "val \<Rightarrow> for_loop \<Rightarrow> bool" where
  "hoistable_past addrOp l = (list_all (defined_outside l) (operands addrOp) \<and>
     allOperandsDominate (dominates_loop l) addrOp)"

fun findHoistTarget :: "val \<Rightarrow> for_loop option list \<Rightarrow> for_loop option \<Rightarrow> for_loop option" where
  "findHoistTarget addrOp [] target = target"
| "findHoistTarget addrOp (None # ps) target = findHoistTarget addrOp ps target"
| "findHoistTarget addrOp (Some l # ps) target =
     (if \<not> list_all (defined_outside l) (operands addrOp) then target
      else if \<not> allOperandsDominate (dominates_loop l) addrOp then target
      else findHoistTarget addrOp ps (Some l))"

section \<open>Counting iterations\<close>

text \<open>The iterations a loop from \<open>lb\<close> below \<open>ub\<close> by a positive step runs.\<close>

definition iterations :: "int \<Rightarrow> int \<Rightarrow> int \<Rightarrow> nat set" where
  "iterations lb ub step = {k. lb + int k * step < ub}"

lemma less_ceil_div: "0 < d \<Longrightarrow> k < ceil_div n d \<longleftrightarrow> k * d < n"
proof
  assume d: "0 < d" and "k < ceil_div n d"
  then show "k * d < n" using ceil_div_least [of d n k] by linarith
next
  assume d: "0 < d" and k: "k * d < n"
  show "k < ceil_div n d"
  proof (rule ccontr)
    assume "\<not> k < ceil_div n d"
    then have "ceil_div n d * d \<le> k * d" using d by (intro mult_right_mono) auto
    then show False using ceil_div_upper [OF d, of n] k by linarith
  qed
qed

lemma ceil_div_nonneg: "0 < d \<Longrightarrow> 0 \<le> n \<Longrightarrow> 0 \<le> ceil_div n d"
  using less_ceil_div [of d "-1" n] by auto

lemma card_iterations:
  assumes "0 < step"
  shows "card (iterations lb ub step) = nat (ceil_div (max 0 (ub - lb)) step)"
proof -
  have "int k < ceil_div (max 0 (ub - lb)) step \<longleftrightarrow> lb + int k * step < ub" for k
  proof -
    have "0 \<le> int k * step" using assms by simp
    then show ?thesis unfolding less_ceil_div [OF assms] by auto
  qed
  then have "iterations lb ub step = {..<nat (ceil_div (max 0 (ub - lb)) step)}"
    unfolding iterations_def set_eq_iff mem_Collect_eq lessThan_iff zless_nat_eq_int_zless by blast
  then show ?thesis by simp
qed

definition no_span_overflow :: "int \<Rightarrow> int \<Rightarrow> int \<Rightarrow> bool" where
  "no_span_overflow lb ub step \<longleftrightarrow> in64 (ub - lb) \<and> max 0 (ub - lb) + step < 2 ^ 63"

lemma span_trip_count_exact:
  assumes "span_trip_count lb ub step = Some c" "no_span_overflow lb ub step"
  shows "0 < step" "c = ceil_div (max 0 (ub - lb)) step"
proof -
  show s: "0 < step" using assms(1) by (auto simp: span_trip_count_def split: if_splits)
  let ?n = "max 0 (ub - lb)"
  have w: "wrap64 (ub - lb) = ub - lb" using assms(2) by (simp add: no_span_overflow_def wrap64_id)
  have i: "in64 (?n + step)" "in64 (?n + step - 1)"
    using assms(2) s by (auto simp: no_span_overflow_def in64_def)
  then have "c = trunc_div (?n + step - 1) step"
    using assms(1) s w wrap64_id [OF i(1)] wrap64_id [OF i(2)]
    by (simp add: span_trip_count_def Let_def)
  then show "c = ceil_div ?n step" using s by (simp add: trunc_div_pos ceil_div_alt)
qed

lemma trip_count_iterations:
  assumes "span_trip_count lb ub step = Some c" "no_span_overflow lb ub step"
  shows "c = int (card (iterations lb ub step))"
  using span_trip_count_exact [OF assms] card_iterations [of step lb ub]
    ceil_div_nonneg [of step "max 0 (ub - lb)"] by simp

section \<open>The built trip count\<close>

text \<open>The bounds of a loop of index type, with their values at run time.\<close>

definition loop_bounds :: "env \<Rightarrow> 'a su_iterate_scheme \<Rightarrow> int \<Rightarrow> int \<Rightarrow> int \<Rightarrow> bool" where
  "loop_bounds e op lb ub step \<longleftrightarrow> (\<exists>l u s.
     lowerBounds op = [l] \<and> upperBounds op = [u] \<and> steps op = [s] \<and>
     fold_safe e l \<and> fold_safe e u \<and> fold_safe e s \<and>
     type_of l = IndexTy \<and> type_of u = IndexTy \<and> type_of s = IndexTy \<and>
     eval e l = Some lb \<and> eval e u = Some ub \<and> eval e s = Some step)"

lemma static_trip_count_sound:
  assumes "services_sound P e" "loop_bounds e op lb ub step" "no_span_overflow lb ub step"
    and "getStaticTripCount P op = Some c"
  shows "0 < step" "c = int (card (iterations lb ub step))"
proof -
  obtain l u s where b: "lowerBounds op = [l]" "upperBounds op = [u]" "steps op = [s]"
    "fold_safe e l" "fold_safe e u" "fold_safe e s"
    "type_of l = IndexTy" "type_of u = IndexTy" "type_of s = IndexTy"
    "eval e l = Some lb" "eval e u = Some ub" "eval e s = Some step"
    using assms(2) unfolding loop_bounds_def by blast
  have f: "k = x" if "tryFoldConstantIndex P 0 v = Some k" "fold_safe e v" "type_of v = IndexTy"
    "eval e v = Some x" for v k x
    using generic.fold_sound [OF assms(1) that(2) _ that(4), of 0 k] that
    by (simp add: agrees_def tryFoldConstantIndex_def)
  obtain kl ku ks where k: "tryFoldConstantIndex P 0 l = Some kl" "tryFoldConstantIndex P 0 u = Some ku"
    "tryFoldConstantIndex P 0 s = Some ks" "span_trip_count kl ku ks = Some c"
    using assms(4) b(1-3)
    by (auto simp: getStaticTripCount_def getStaticTripCount_loopLike_def split: option.splits)
  have "kl = lb" "ku = ub" "ks = step" using f k(1-3) b by blast+
  then have c: "span_trip_count lb ub step = Some c" using k(4) by simp
  show "0 < step" by (rule span_trip_count_exact(1) [OF c assms(3)])
  show "c = int (card (iterations lb ub step))" by (rule trip_count_iterations [OF c assms(3)])
qed

lemma in64_between: "in64 a \<Longrightarrow> 0 \<le> x \<Longrightarrow> x \<le> a \<Longrightarrow> in64 x"
  by (auto simp: in64_def)

lemma ceil_div_si_sem:
  assumes "0 \<le> x" "in64 x" "0 < y"
  shows "bin_sem IndexTy CeilDivSI x y = Some (ceil_div x y)"
proof -
  have "in64 (ceil_div x y)"
    by (rule in64_between [OF assms(2)]) (use assms ceil_div_nonneg ceil_div_le_self in auto)
  then show ?thesis using assms by (simp add: wrap64_id)
qed

lemma umax_sem: "0 \<le> x \<Longrightarrow> 0 \<le> y \<Longrightarrow> in64 x \<Longrightarrow> in64 y \<Longrightarrow> bin_sem IndexTy MaxUI x y = Some (max x y)"
  by (auto simp: u64_of_nonneg max_def)

lemma umin_sem: "0 \<le> x \<Longrightarrow> 0 \<le> y \<Longrightarrow> in64 x \<Longrightarrow> in64 y \<Longrightarrow> bin_sem IndexTy MinUI x y = Some (min x y)"
  by (auto simp: u64_of_nonneg min_def)

lemma ceil_div_ui_sem:
  assumes "0 \<le> x" "1 \<le> y" "in64 x" "in64 y"
  shows "bin_sem IndexTy CeilDivUI x y = Some (ceil_div x y)"
proof -
  have "in64 (ceil_div x y)"
    by (rule in64_between [OF assms(3)]) (use assms ceil_div_nonneg ceil_div_le_self in auto)
  then show ?thesis using assms by (simp add: u64_of_nonneg wrap64_id)
qed

lemma div_ui_sem:
  assumes "0 \<le> x" "in64 x" "1 \<le> y" "in64 y"
  shows "bin_sem IndexTy DivUI x y = Some (x div y)"
proof -
  have "0 \<le> x div y" "x div y \<le> x" using assms by (simp_all add: pos_imp_zdiv_nonneg_iff int_div_le_self)
  then have "in64 (x div y)" by (rule in64_between [OF assms(2)])
  then show ?thesis using assms by (simp add: u64_of_nonneg wrap64_id)
qed

lemma add_sem: "in64 (x + y) \<Longrightarrow> bin_sem IndexTy AddI x y = Some (x + y)"
  by (simp add: wrap64_id)

lemma sub_sem: "in64 (x - y) \<Longrightarrow> bin_sem IndexTy SubI x y = Some (x - y)"
  by (simp add: wrap64_id)

text \<open>Exact arithmetic on non-negative index values.\<close>

lemmas index_sem = umax_sem umin_sem ceil_div_ui_sem ceil_div_si_sem div_ui_sem add_sem sub_sem

lemma built_trip_count_sound:
  assumes "services_sound P e" "loop_bounds e op lb ub step" "no_span_overflow lb ub step" "0 < step"
    and "buildTripCountValue P op n = (Some v, m)"
  shows "type_of v = IndexTy \<and> eval e v = Some (int (card (iterations lb ub step)))"
proof (cases "getStaticTripCount P op")
  case (Some c)
  let ?c = "int (card (iterations lb ub step))"
  have c: "c = ?c" by (rule static_trip_count_sound(2) [OF assms(1-3) Some])
  have i: "in64 (max 0 (ub - lb))" using assms(3) by (auto simp: no_span_overflow_def in64_def)
  have "?c = ceil_div (max 0 (ub - lb)) step"
    using card_iterations [OF assms(4), of lb ub] ceil_div_nonneg [OF assms(4), of "max 0 (ub - lb)"] by simp
  then have "?c \<le> max 0 (ub - lb)" using ceil_div_le_self [OF assms(4), of "max 0 (ub - lb)"] by simp
  then have "in64 ?c" by (intro in64_between [OF i]) simp_all
  moreover have "v = Const n IndexTy (IntAttr c)"
    using Some assms(5) by (simp add: buildTripCountValue_def createConstantIndex_def)
  ultimately show ?thesis unfolding c by (simp add: wrap64_id)
next
  case None
  obtain l u s where b: "lowerBounds op = [l]" "upperBounds op = [u]" "steps op = [s]"
    "fold_safe e s" "type_of u = IndexTy" "type_of s = IndexTy"
    "eval e l = Some lb" "eval e u = Some ub" "eval e s = Some step"
    using assms(2) unfolding loop_bounds_def by blast
  have w: "wrap64 (ub - lb) = ub - lb" and i: "in64 (max 0 (ub - lb))"
    using assms(3) by (auto simp: no_span_overflow_def wrap64_id in64_def)
  have z: "wrap64 0 = 0" "wrap64 1 = 1" by (simp_all add: wrap64_id in64_def)
  have cd: "bin_sem IndexTy CeilDivSI (max 0 (ub - lb)) step = Some (int (card (iterations lb ub step)))"
    using ceil_div_si_sem [OF _ i assms(4)] card_iterations [OF assms(4), of lb ub]
      ceil_div_nonneg [OF assms(4), of "max 0 (ub - lb)"] by simp
  have neg: "(if ub - lb < 0 then 0 else ub - lb) = max 0 (ub - lb)" by simp
  show ?thesis
  proof (cases "getConstantIndex s")
    case None
    with \<open>getStaticTripCount P op = None\<close> b assms(4,5) w z cd neg show ?thesis
      by (auto simp: buildTripCountValue_def createConstantIndex_def Let_def max_def simp del: bin_sem.simps(7)
          split: if_splits)
  next
    case (Some k)
    with \<open>getStaticTripCount P op = None\<close> b assms(4,5) w z cd neg show ?thesis
      by (auto simp: buildTripCountValue_def createConstantIndex_def Let_def max_def simp del: bin_sem.simps(7)
          split: if_splits)
  qed
qed

lemma buildTripCount_succeeds:
  assumes "loop_bounds e op lb ub step" "0 < step"
  shows "\<exists>v m. buildTripCountValue P op n = (Some v, m)"
proof -
  obtain l u s where b: "lowerBounds op = [l]" "upperBounds op = [u]" "steps op = [s]"
    "fold_safe e s" "eval e s = Some step" using assms(1) unfolding loop_bounds_def by blast
  have "c = step" if "getConstantIndex s = Some c" for c using constant_value [OF b(4) that b(5)] by simp
  then have "\<not> (\<exists>c\<le>0. getConstantIndex s = Some c)" using assms(2) by auto
  then show ?thesis using b
    by (auto simp: buildTripCountValue_def createConstantIndex_def Let_def split: option.splits)
qed

text \<open>
  C25: Trip counts of \<open>su_iterate\<close> loops are exact. Take a one-dimensional loop with a positive
  step whose span does not overflow and whose bounds and step are of index type and lose
  nothing when folded (\<open>fold_safe\<close>: 64-bit arithmetic, every cast keeps the value, so no
  truncation drops bits; scalar loads read the nearest store; the bounds solver is right).
  Then the static trip count, when there is one, is the number of iterations the loop runs,
  and the value built for run time exists and evaluates to that number, whether or not the
  bounds are constants. With a truncation that drops bits the static count can be wrong.
\<close>

theorem trip_count_exact:
  assumes "services_sound P e" "loop_bounds e op lb ub step" "no_span_overflow lb ub step" "0 < step"
  shows "(getStaticTripCount P op = None \<or> getStaticTripCount P op = Some (int (card (iterations lb ub step)))) \<and>
    (\<exists>v m. buildTripCountValue P op n = (Some v, m) \<and> eval e v = Some (int (card (iterations lb ub step))))"
proof -
  obtain v m where v: "buildTripCountValue P op n = (Some v, m)"
    using buildTripCount_succeeds [OF assms(2,4)] by blast
  then show ?thesis
    using static_trip_count_sound(2) [OF assms(1-3)] built_trip_count_sound [OF assms v]
    by (cases "getStaticTripCount P op") auto
qed

definition sample_loop :: su_iterate where
  "sample_loop = \<lparr>lowerBounds = [index_const 1 2], upperBounds = [BlockArg 0 0 IndexTy None],
     steps = [index_const 2 3], scheduleAttr = Some Dynamic, chunkSize = None,
     reductionAccumulators = [], reductionKinds = None, reductionStrategy = None,
     partialReduction = False, body = []\<rparr>"

lemma sample_loop_bounds: "loop_bounds no_env sample_loop 2 7 3"
proof -
  have "fold_safe no_env (index_const 1 2)" "fold_safe no_env (index_const 2 3)"
    "fold_safe no_env (BlockArg 0 0 IndexTy None)" "eval no_env (index_const 1 2) = Some 2"
    "eval no_env (index_const 2 3) = Some 3" "eval no_env (BlockArg 0 0 IndexTy None) = Some 7"
    by code_simp+
  then show ?thesis by (simp add: loop_bounds_def sample_loop_def del: eval.simps fold_safe.simps)
qed

lemma trip_count_exact_witness:
  "map_option (eval no_env) (fst (buildTripCountValue no_services sample_loop 10))
     = Some (Some (int (card (iterations 2 7 3))))"
proof -
  have "no_span_overflow 2 7 3" by (simp add: no_span_overflow_def in64_def)
  from trip_count_exact [OF services_no_services sample_loop_bounds this, of 10] show ?thesis by auto
qed

text \<open>
  C29: A division the hoisting test accepts cannot trap: an unsigned division or remainder
  accepted by either test has a value whenever its operands have one, so it may run even when
  the loop body does not. This holds where the divisor's non-zero proof does not go through
  \<open>maxsi\<close> and the division folds safely (\<open>fold_safe\<close>: it and its operands are computed on 64-bit
  types, every cast in them keeps the value, so no truncation drops bits, scalar loads read
  the nearest store), with a bounds solver that is right; a divisor truncated to zero is
  accepted too and would trap.
\<close>

theorem hoisted_division_defined:
  assumes "isSafeToHoistDivRem P outside (Bin i t f a b) \<or> isSafeDivRemToHoist P anc dominates (Bin i t f a b)"
    and "services_sound P e" "fold_safe e (Bin i t f a b)" "max_unsigned b"
    and "eval e a = Some x" "eval e b = Some y"
  shows "eval e (Bin i t f a b) \<noteq> None"
proof -
  have f: "f = DivUI \<or> f = RemUI" and nz: "isProvablyNonZero P 0 b"
    using assms(1) by (auto simp: isSafeToHoistDivRem_def isSafeDivRemToHoist_def split: if_splits)
  have "fold_safe e b" "type_of b \<noteq> IntTy 1" using assms(3) by auto
  then have "y \<noteq> 0" using nonzero_sound_aux [OF nz assms(2) _ assms(4) _ assms(6)] by blast
  then show ?thesis using f assms(5,6) by auto
qed

lemma hoisted_division_defined_witness:
  "eval no_env (Bin 0 IndexTy DivUI (BlockArg 0 0 IndexTy None) (index_const 1 4)) \<noteq> None"
proof -
  let ?v = "Bin 0 IndexTy DivUI (BlockArg 0 0 IndexTy None) (index_const 1 4)"
  have h: "isSafeToHoistDivRem no_services (\<lambda>v. False) ?v" by code_simp
  have s: "fold_safe no_env ?v" "max_unsigned (index_const 1 4)" by code_simp+
  have e: "eval no_env (BlockArg 0 0 IndexTy None) = Some 7" "eval no_env (index_const 1 4) = Some 4"
    by code_simp+
  show ?thesis by (rule hoisted_division_defined [OF disjI1 [OF h] services_no_services s e])
qed

lemma findHoistTarget_acc:
  "findHoistTarget addrOp ps target =
     (case takeWhile (hoistable_past addrOp) (map the (filter (\<lambda>p. p \<noteq> None) ps)) of
        [] \<Rightarrow> target | l # ls \<Rightarrow> Some (last (l # ls)))"
  by (induction addrOp ps target rule: findHoistTarget.induct)
    (auto simp: hoistable_past_def split: list.splits)

text \<open>
  C30: The hoist target is the outermost loop of the longest run of enclosing loops, from the
  inside, out of which every operand of the address is defined and which every operand
  dominates; there is none exactly when there is no enclosing loop or already the innermost
  one fails.
\<close>

theorem findHoistTarget_outermost:
  "findHoistTarget addrOp ps None =
     (let ls = takeWhile (hoistable_past addrOp) (map the (filter (\<lambda>p. p \<noteq> None) ps))
      in if ls = [] then None else Some (last ls))"
  by (simp add: findHoistTarget_acc Let_def split: list.splits)

text \<open>
  A worksharing loop over a two-dimensional nest has the trip count of its outer dimension
  alone.
\<close>

lemma wsloop_counts_outer_dimension:
  "getStaticTripCount_wsloop no_services
     (Some ([index_const 1 0, index_const 2 0], [index_const 3 4, index_const 4 100],
            [index_const 5 1, index_const 6 1])) = Some 4"
  by code_simp

end
