(* ===== verification/Scheduling.thy ===== *)
theory Scheduling
  imports CostModel LoopBounds
begin

text \<open>
  The SDE scheduling passes: the choice of a concrete schedule (\<open>ScheduleRefinement.cpp\<close>), of
  chunk sizes (\<open>ChunkOpt.cpp\<close>) and of reduction strategies (\<open>ReductionStrategy.cpp\<close>). A pass
  without a cost model does nothing, so the model takes the cost model as an option; a
  module is the list of its \<open>sde.su_iterate\<close> operations in walk order.
\<close>

section \<open>Schedule refinement\<close>

definition isScheduleRefinementCandidate :: "schedule_kind option \<Rightarrow> bool" where
  "isScheduleRefinementCandidate s =
     (case s of None \<Rightarrow> False | Some k \<Rightarrow> k = AutoSchedule \<or> k = RuntimeSchedule)"

definition isOneDimensionalLoop :: "'a su_iterate_scheme \<Rightarrow> bool" where
  "isOneDimensionalLoop op =
     (length (lowerBounds op) = 1 \<and> length (upperBounds op) = 1 \<and> length (steps op) = 1)"

definition hasPositiveConstantStep :: "'a su_iterate_scheme \<Rightarrow> bool" where
  "hasPositiveConstantStep op =
     (if \<not> isOneDimensionalLoop op then False
      else case getConstantIndex (hd (steps op)) of Some step \<Rightarrow> step > 0 | None \<Rightarrow> False)"

fun cheapest :: "cost_model \<Rightarrow> int \<Rightarrow> schedule_kind list \<Rightarrow> schedule_kind \<Rightarrow> real \<Rightarrow> schedule_kind" where
  "cheapest M tripCount [] bestSchedule bestCost = bestSchedule"
| "cheapest M tripCount (candidate # rest) bestSchedule bestCost =
     (let candidateCost = getSchedulingOverhead M candidate tripCount
      in if candidateCost < bestCost then cheapest M tripCount rest candidate candidateCost
         else cheapest M tripCount rest bestSchedule bestCost)"

definition selectSchedule :: "cost_model \<Rightarrow> int \<Rightarrow> schedule_kind" where
  "selectSchedule M tripCount =
     cheapest M tripCount [Guided, Dynamic] Static (getSchedulingOverhead M Static tripCount)"

definition saturatingMultiply :: "int \<Rightarrow> int \<Rightarrow> int" where
  "saturatingMultiply lhs rhs =
     (if lhs \<le> 0 \<or> rhs \<le> 0 then 1
      else if lhs > trunc_div (2 ^ 63 - 1) rhs then 2 ^ 63 - 1
      else wrap64 (lhs * rhs))"

fun agree_on_probes :: "cost_model \<Rightarrow> int list \<Rightarrow> schedule_kind option \<Rightarrow> schedule_kind option" where
  "agree_on_probes M [] selected = selected"
| "agree_on_probes M (p # ps) selected =
     (case selected of
        None \<Rightarrow> agree_on_probes M ps (Some (selectSchedule M p))
      | Some k \<Rightarrow> if k \<noteq> selectSchedule M p then None else agree_on_probes M ps selected)"

definition selectSymbolicSchedule :: "cost_model \<Rightarrow> schedule_kind option" where
  "selectSymbolicSchedule M =
     (let workerCount = max 1 (getLogicalWorkerCapacity M);
          minIterations = max 1 (getMinIterationsPerWorker M)
      in agree_on_probes M [1, minIterations, workerCount, saturatingMultiply workerCount minIterations] None)"

definition refine_schedule :: "mlir \<Rightarrow> cost_model \<Rightarrow> 'a su_iterate_scheme \<Rightarrow> 'a su_iterate_scheme" where
  "refine_schedule P M op =
     (if chunkSize op \<noteq> None \<or> \<not> isScheduleRefinementCandidate (scheduleAttr op) \<or> \<not> isOneDimensionalLoop op
      then op
      else
        let refined = (case getStaticTripCount P op of
                         Some tripCount \<Rightarrow> Some (selectSchedule M tripCount)
                       | None \<Rightarrow> if hasPositiveConstantStep op then selectSymbolicSchedule M else None)
        in case refined of
             None \<Rightarrow> op
           | Some k \<Rightarrow> if Some k = scheduleAttr op then op else op\<lparr>scheduleAttr := Some k\<rparr>)"

definition ScheduleRefinementPass ::
  "mlir \<Rightarrow> cost_model option \<Rightarrow> 'a su_iterate_scheme list \<Rightarrow> 'a su_iterate_scheme list" where
  "ScheduleRefinementPass P costModel ops =
     (case costModel of None \<Rightarrow> ops | Some M \<Rightarrow> map (refine_schedule P M) ops)"

section \<open>Chunk sizes\<close>

definition isChunkOptimizableSchedule :: "schedule_kind option \<Rightarrow> bool" where
  "isChunkOptimizableSchedule s = (case s of Some Dynamic \<Rightarrow> True | Some Guided \<Rightarrow> True | _ \<Rightarrow> False)"

definition buildSymbolicChunkValue ::
  "mlir \<Rightarrow> 'a su_iterate_scheme \<Rightarrow> int \<Rightarrow> nat \<Rightarrow> val option \<times> nat" where
  "buildSymbolicChunkValue P op minIterations n =
     (case buildTripCountValue P op n of
        (None, n1) \<Rightarrow> (None, n1)
      | (Some tripCount, n1) \<Rightarrow>
          (let (one, n2) = createConstantIndex 1 n1;
               (workerCountValue, n3) = buildLogicalWorkerCapacityValue n2;
               (minIterationsValue, n4) = createConstantIndex (max 1 minIterations) n3;
               clampedTripCount = Bin n4 (type_of tripCount) MaxUI tripCount one;
               balancedChunk = Bin (n4 + 1) (type_of clampedTripCount) CeilDivUI clampedTripCount workerCountValue;
               preferredChunk = Bin (n4 + 2) (type_of balancedChunk) MaxUI balancedChunk minIterationsValue
           in (Some (Bin (n4 + 3) (type_of preferredChunk) MinUI preferredChunk clampedTripCount), n4 + 4)))"

definition static_chunk :: "cost_model \<Rightarrow> int \<Rightarrow> int" where
  "static_chunk M tripCount =
     (let workerCount = max 1 (getLogicalWorkerCapacity M);
          minIterations = max 1 (getMinIterationsPerWorker M);
          balancedChunk = ceil_div tripCount workerCount;
          preferred = max minIterations balancedChunk
      in if preferred < 1 then 1 else if tripCount < preferred then tripCount else preferred)"

text \<open>
  The walk collects the rewrites: \<open>Some (Some c)\<close> is a constant chunk, \<open>Some None\<close> one to be
  built. Then each is performed; the new operation keeps every other operand and attribute.
\<close>

definition chunk_rewrite :: "mlir \<Rightarrow> cost_model \<Rightarrow> 'a su_iterate_scheme \<Rightarrow> int option option" where
  "chunk_rewrite P M op =
     (if chunkSize op \<noteq> None \<or> \<not> isChunkOptimizableSchedule (scheduleAttr op) then None
      else case getStaticTripCount P op of
             Some tripCount \<Rightarrow> if tripCount \<le> 1 then None else Some (Some (static_chunk M tripCount))
           | None \<Rightarrow>
               if length (lowerBounds op) \<noteq> 1 \<or> length (upperBounds op) \<noteq> 1 \<or> length (steps op) \<noteq> 1
               then None else Some None)"

definition apply_chunk ::
  "mlir \<Rightarrow> cost_model \<Rightarrow> 'a su_iterate_scheme \<Rightarrow> nat \<Rightarrow> 'a su_iterate_scheme \<times> nat" where
  "apply_chunk P M op n =
     (case chunk_rewrite P M op of
        None \<Rightarrow> (op, n)
      | Some r \<Rightarrow>
          (let (chunk, n1) = (case r of
                 Some c \<Rightarrow> (case createConstantIndex c n of (v, m) \<Rightarrow> (Some v, m))
               | None \<Rightarrow> buildSymbolicChunkValue P op (max 1 (getMinIterationsPerWorker M)) n)
           in case chunk of
                None \<Rightarrow> (op, n1)
              | Some v \<Rightarrow> (op\<lparr>chunkSize := Some v\<rparr>, n1)))"

fun chunk_all :: "mlir \<Rightarrow> cost_model \<Rightarrow> 'a su_iterate_scheme list \<Rightarrow> nat \<Rightarrow> 'a su_iterate_scheme list \<times> nat" where
  "chunk_all P M [] n = ([], n)"
| "chunk_all P M (op # ops) n =
     (let (op', n1) = apply_chunk P M op n; (ops', n2) = chunk_all P M ops n1 in (op' # ops', n2))"

definition ChunkOptPass ::
  "mlir \<Rightarrow> cost_model option \<Rightarrow> 'a su_iterate_scheme list \<Rightarrow> nat \<Rightarrow> 'a su_iterate_scheme list \<times> nat" where
  "ChunkOptPass P costModel ops n =
     (case costModel of None \<Rightarrow> (ops, n) | Some M \<Rightarrow> chunk_all P M ops n)"

section \<open>Reduction strategies\<close>

definition isAtomicCapable :: "reduction_kind \<Rightarrow> ty \<Rightarrow> bool" where
  "isAtomicCapable k elementType = (k = RedAdd \<and> (case elementType of FloatTy _ \<Rightarrow> False | _ \<Rightarrow> True))"

text \<open>
  The element type of an accumulator. Memrefs are the only shaped types of the model; tensors and
  vectors, whose element type the code takes too, are opaque.
\<close>

definition getAccumulatorElementType :: "val \<Rightarrow> ty" where
  "getAccumulatorElementType acc = (case type_of acc of MemRefTy _ elt \<Rightarrow> elt | t \<Rightarrow> t)"

definition hasNestedSequentialLoop :: "'a su_iterate_scheme \<Rightarrow> bool" where
  "hasNestedSequentialLoop op =
     list_ex (\<lambda>n. n \<in> {''scf.for'', ''affine.for''}) (concat (map tree_walk (body op)))"

definition getReductionKinds :: "'a su_iterate_scheme \<Rightarrow> reduction_kind list option" where
  "getReductionKinds op =
     (if reductionAccumulators op = [] then None
      else case reductionKinds op of
             None \<Rightarrow> None
           | Some kinds \<Rightarrow>
               if length kinds \<noteq> length (reductionAccumulators op) then None
               else if list_ex (\<lambda>k. k = None \<or> k = Some RedCustom) kinds then None
               else Some (map the kinds))"

definition reduction_strategy_for :: "cost_model \<Rightarrow> int \<Rightarrow> 'a su_iterate_scheme \<Rightarrow> reduction_strategy option" where
  "reduction_strategy_for M workerCount op =
     (case reductionStrategy op of
        Some s \<Rightarrow> Some s
      | None \<Rightarrow>
          if partialReduction op then Some LocalAccumulate
          else case getReductionKinds op of
                 None \<Rightarrow> None
               | Some kinds \<Rightarrow>
                   if hasNestedSequentialLoop op then Some LocalAccumulate
                   else if list_all (\<lambda>(k, acc). isAtomicCapable k (getAccumulatorElementType acc))
                             (zip kinds (reductionAccumulators op)) \<and>
                           real_of_int workerCount * getAtomicUpdateCost M \<le> getReductionCost M workerCount
                   then Some AtomicStrategy
                   else Some TreeStrategy)"

definition ReductionStrategyPass ::
  "cost_model option \<Rightarrow> 'a su_iterate_scheme list \<Rightarrow> 'a su_iterate_scheme list" where
  "ReductionStrategyPass costModel ops =
     (case costModel of
        None \<Rightarrow> ops
      | Some M \<Rightarrow>
          (let workerCount = max 1 (getLogicalWorkerCapacity M)
           in if workerCount \<le> 1 then ops
              else map (\<lambda>op. op\<lparr>reductionStrategy := reduction_strategy_for M workerCount op\<rparr>) ops))"

section \<open>Schedules\<close>

context static_first
begin

lemma select_static: "selectSchedule M n = Static"
  using static_cheapest [of n Guided] static_cheapest [of n Dynamic]
  by (simp add: selectSchedule_def Let_def)

lemma select_symbolic_static: "selectSymbolicSchedule M = Some Static"
  by (simp add: selectSymbolicSchedule_def select_static Let_def)

lemma refine_static:
  "refine_schedule P M op =
     (if chunkSize op = None \<and> (scheduleAttr op = Some AutoSchedule \<or> scheduleAttr op = Some RuntimeSchedule) \<and>
         isOneDimensionalLoop op \<and> (getStaticTripCount P op \<noteq> None \<or> hasPositiveConstantStep op)
      then op\<lparr>scheduleAttr := Some Static\<rparr> else op)"
  by (auto simp: refine_schedule_def isScheduleRefinementCandidate_def select_static select_symbolic_static
      Let_def split: option.splits)

end

text \<open>
  Under the ARTS cost model the refinement makes exactly the undecided schedules static:
  a one-dimensional loop without a chunk whose schedule is \<open>auto\<close> or \<open>runtime\<close>, and whose trip
  count is constant or whose step is a positive constant, becomes static; every other loop
  is left as it is.
\<close>

theorem refinement_is_static:
  "ScheduleRefinementPass P (Some (ARTSCostModel c)) ops =
     map (\<lambda>op. if chunkSize op = None \<and>
                  (scheduleAttr op = Some AutoSchedule \<or> scheduleAttr op = Some RuntimeSchedule) \<and>
                  isOneDimensionalLoop op \<and> ((\<exists>n. getStaticTripCount P op = Some n) \<or> hasPositiveConstantStep op)
               then op\<lparr>scheduleAttr := Some Static\<rparr> else op) ops"
  by (simp add: ScheduleRefinementPass_def arts_cost.refine_static)

text \<open>
  C32: The probe product saturates: for positive 64-bit factors it is the product where that
  fits, and the largest 64-bit integer otherwise.
\<close>

theorem saturatingMultiply_spec:
  assumes "1 \<le> l" "1 \<le> r" "in64 l" "in64 r"
  shows "saturatingMultiply l r = min (l * r) (2 ^ 63 - 1)"
proof -
  have t: "trunc_div (2 ^ 63 - 1) r = (2 ^ 63 - 1) div r" using assms by (simp add: trunc_div_pos)
  have "l \<le> (2 ^ 63 - 1) div r \<longleftrightarrow> l * r \<le> 2 ^ 63 - 1"
  proof
    assume "l \<le> (2 ^ 63 - 1) div r"
    then have "l * r \<le> (2 ^ 63 - 1) div r * r" using assms by (intro mult_right_mono) auto
    then show "l * r \<le> 2 ^ 63 - 1" using div_mult_mod_eq [of "2 ^ 63 - 1" r]
        pos_mod_sign [of r "2 ^ 63 - 1"] assms(2) by linarith
  next
    assume "l * r \<le> 2 ^ 63 - 1"
    then have "l * r div r \<le> (2 ^ 63 - 1) div r" using assms by (intro zdiv_mono1) auto
    then show "l \<le> (2 ^ 63 - 1) div r" using assms by simp
  qed
  moreover have "0 \<le> l * r" using assms by (intro mult_nonneg_nonneg) auto
  then have "l * r \<le> 2 ^ 63 - 1 \<Longrightarrow> wrap64 (l * r) = l * r" by (intro wrap64_id) (simp add: in64_def)
  ultimately show ?thesis using assms t
    by (auto simp: saturatingMultiply_def in64_def wrap64_id min_def)
qed

lemma saturatingMultiply_spec_witness:
  "saturatingMultiply (2 ^ 40) (2 ^ 30) = 2 ^ 63 - 1 \<and> saturatingMultiply 16 3 = 48"
  using saturatingMultiply_spec [of "2 ^ 40" "2 ^ 30"] saturatingMultiply_spec [of 16 3]
  by (simp add: in64_def)

section \<open>Chunks\<close>

lemma static_chunk_alt:
  assumes "1 \<le> tc"
  shows "static_chunk M tc =
    min (max (max 1 (getMinIterationsPerWorker M)) (ceil_div tc (max 1 (getLogicalWorkerCapacity M)))) tc"
  using assms by (auto simp: static_chunk_def Let_def min_def max_def)

lemma static_chunk_bounds:
  assumes "1 \<le> tc"
  shows "1 \<le> static_chunk M tc" "static_chunk M tc \<le> tc"
    and "min tc (getMinIterationsPerWorker M) \<le> static_chunk M tc"
    and "tc \<le> static_chunk M tc * max 1 (getLogicalWorkerCapacity M)"
proof -
  let ?W = "max 1 (getLogicalWorkerCapacity M)" and ?c = "static_chunk M tc"
  note a = static_chunk_alt [OF assms, of M]
  show "1 \<le> ?c" "?c \<le> tc" "min tc (getMinIterationsPerWorker M) \<le> ?c" using a assms by auto
  have u: "tc \<le> ceil_div tc ?W * ?W" by (rule ceil_div_upper) simp
  show "tc \<le> ?c * ?W"
  proof (cases "ceil_div tc ?W \<le> ?c")
    case True
    then have "ceil_div tc ?W * ?W \<le> ?c * ?W" by (intro mult_right_mono) auto
    then show ?thesis using u by linarith
  next
    case False
    then have "?c = tc" using a by auto
    moreover have "tc * 1 \<le> tc * ?W" using assms by (intro mult_left_mono) auto
    ultimately show ?thesis by simp
  qed
qed

lemma symbolic_chunk_value:
  assumes t: "buildTripCountValue P op n = (Some tv, n1)" "type_of tv = IndexTy" "eval e tv = Some tc"
    and tc: "0 \<le> tc" "in64 tc"
    and W: "\<forall>i \<ge> n1. op_val e i 0 = W" "1 \<le> W" "in64 W"
    and mi: "1 \<le> m" "in64 m"
  shows "\<exists>v k. buildSymbolicChunkValue P op m n = (Some v, k) \<and>
    eval e v = Some (min (max (ceil_div (max tc 1) W) m) (max tc 1))"
proof -
  let ?t = "max tc 1" and ?q = "ceil_div (max tc 1) W"
  have i: "in64 1" "in64 ?t" using tc by (auto simp: in64_def)
  have "0 \<le> ?t" "0 < W" using W by auto
  then have q0: "0 \<le> ?q" "?q \<le> ?t" using ceil_div_nonneg ceil_div_le_self by auto
  then have q: "0 \<le> ?q" "in64 ?q" "in64 (max ?q m)"
    using in64_between [OF i(2) q0] mi by (simp_all add: max_def)
  have w: "wrap64 W = W" "wrap64 1 = 1" "wrap64 m = m" using W mi i by (simp_all add: wrap64_id)
  have ww: "bin_sem IndexTy MaxUI W 1 = Some W" using umax_sem [of W 1] W i by simp
  have m1: "bin_sem IndexTy MaxUI tc 1 = Some ?t" using umax_sem [of tc 1] tc i by simp
  have d: "bin_sem IndexTy CeilDivUI ?t W = Some ?q" using ceil_div_ui_sem [of ?t W] W i by simp
  have m2: "bin_sem IndexTy MaxUI ?q m = Some (max ?q m)" using umax_sem [of ?q m] q mi by simp
  have m3: "bin_sem IndexTy MinUI (max ?q m) ?t = Some (min (max ?q m) ?t)"
    using umin_sem [of "max ?q m" ?t] q i by simp
  have qv: "op_val e (Suc n1) 0 = W" using W(1) by simp
  show ?thesis using t w ww m1 d m2 m3 mi(1) qv
    by (simp add: buildSymbolicChunkValue_def createConstantIndex_def
        buildLogicalWorkerCapacityValue_def Let_def max_absorb2 del: bin_sem.simps)
qed


text \<open>
  C22: Chunk synthesis is correct and does not depend on whether the trip count is known at
  compile time. For a one-dimensional loop of at least one iteration with a positive step
  whose span does not overflow, with bounds and step of index type that fold safely
  (\<open>fold_safe\<close>: 64-bit arithmetic, every cast keeps the value, so no truncation drops bits,
  scalar loads read the nearest store, the bounds solver is right), when the workers available at run time are the capacity the model planned
  for, the chunk the pass attaches has a value: the static formula at the number of
  iterations. It is between one and the iterations, at least the iteration floor where
  there are that many, and one chunk per worker covers the loop.
\<close>

theorem chunk_synthesis:
  assumes svc: "services_sound P e" and b: "loop_bounds e op lb ub step"
    and o: "no_span_overflow lb ub step" "0 < step"
    and W: "\<forall>i \<ge> n. op_val e i 0 = getLogicalWorkerCapacity M"
      "1 \<le> getLogicalWorkerCapacity M" "in64 (getLogicalWorkerCapacity M)"
    and m: "in64 (getMinIterationsPerWorker M)"
    and none: "chunkSize op = None" and app: "apply_chunk P M op n = (op', n')" "chunkSize op' = Some v"
    and tc: "tc = int (card (iterations lb ub step))" "1 \<le> tc"
  shows "eval e v = Some (static_chunk M tc) \<and> 1 \<le> static_chunk M tc \<and> static_chunk M tc \<le> tc \<and>
    min tc (getMinIterationsPerWorker M) \<le> static_chunk M tc \<and>
    tc \<le> static_chunk M tc * getLogicalWorkerCapacity M"
proof -
  have eq: "tc = ceil_div (max 0 (ub - lb)) step"
    using card_iterations [OF o(2), of lb ub] ceil_div_nonneg [OF o(2), of "max 0 (ub - lb)"] tc by simp
  have i: "in64 (max 0 (ub - lb))" using o(1) by (auto simp: no_span_overflow_def in64_def)
  have tc64: "in64 tc"
    by (rule in64_between [OF i]) (use tc eq ceil_div_le_self [OF o(2), of "max 0 (ub - lb)"] in auto)
  note cb = static_chunk_bounds [OF tc(2), of M]
  have v: "eval e v = Some (static_chunk M tc)"
  proof (cases "getStaticTripCount P op")
    case (Some c)
    have c: "c = tc" using static_trip_count_sound(2) [OF svc b o(1) Some] tc(1) by simp
    then have "v = Const n IndexTy (IntAttr (static_chunk M tc))"
      using app none Some
      by (auto simp: apply_chunk_def chunk_rewrite_def createConstantIndex_def split: if_splits)
    moreover have "in64 (static_chunk M tc)" using in64_between [OF tc64] cb(1,2) by simp
    ultimately show ?thesis by (simp add: wrap64_id)
  next
    case None
    let ?m = "max 1 (getMinIterationsPerWorker M)"
    obtain tv n1 where t: "buildTripCountValue P op n = (Some tv, n1)"
      using buildTripCount_succeeds [OF b o(2)] by blast
    have n1: "n \<le> n1" using t None
      by (auto simp: buildTripCountValue_def createConstantIndex_def Let_def split: option.splits list.splits if_splits)
    have te: "type_of tv = IndexTy" "eval e tv = Some tc"
      using built_trip_count_sound [OF svc b o t] tc(1) by auto
    have m64: "in64 ?m" using m by (auto simp: in64_def max_def)
    obtain w k where w: "buildSymbolicChunkValue P op ?m n = (Some w, k)"
      "eval e w = Some (min (max (ceil_div (max tc 1) (getLogicalWorkerCapacity M)) ?m) (max tc 1))"
      using symbolic_chunk_value [OF t te _ tc64 _ W(2,3) _ m64] W(1) n1 tc(2) by auto
    have "v = w" using app none None w(1)
      by (auto simp: apply_chunk_def chunk_rewrite_def split: if_splits)
    then show ?thesis using w(2) tc(2) W(2) by (simp add: static_chunk_alt max.commute max_absorb1)
  qed
  then show ?thesis using cb W(2) by (simp add: max_absorb2)
qed

definition sample_model :: cost_model where
  "sample_model = (ARTSCostModel (default_config\<lparr>threads := 4\<rparr>))"

definition sample_env :: env where
  "sample_env = no_env\<lparr>op_val := (\<lambda>i n. 4), arg_val := (\<lambda>b n. 50)\<rparr>"

lemma sample_model_values:
  "getLogicalWorkerCapacity sample_model = 4" "getMinIterationsPerWorker sample_model = 3"
  by (simp_all add: sample_model_def ARTSCostModel_def default_config_def default_min_iterations_arts
      getRuntimeTotalWorkers_def getRuntimeWorkersPerNode_def wrap32_id in32_def)

lemma sample_loop_bounds_50: "loop_bounds sample_env sample_loop 2 50 3"
proof -
  have "fold_safe sample_env (index_const 1 2)" "fold_safe sample_env (index_const 2 3)"
    "fold_safe sample_env (BlockArg 0 0 IndexTy None)" "eval sample_env (index_const 1 2) = Some 2"
    "eval sample_env (index_const 2 3) = Some 3" "eval sample_env (BlockArg 0 0 IndexTy None) = Some 50"
    by code_simp+
  then show ?thesis by (simp add: loop_bounds_def sample_loop_def del: eval.simps fold_safe.simps)
qed

lemma sample_chunk_exists: "chunkSize (fst (apply_chunk no_services sample_model sample_loop 10)) \<noteq> None"
proof -
  have "getStaticTripCount no_services sample_loop = None" by code_simp
  moreover have "fst (buildSymbolicChunkValue no_services sample_loop 3 10) \<noteq> None" by code_simp
  ultimately show ?thesis
    by (auto simp: apply_chunk_def chunk_rewrite_def sample_model_values isChunkOptimizableSchedule_def
        sample_loop_def split: prod.splits)
qed

lemma chunk_synthesis_witness:
  "eval sample_env (the (chunkSize (fst (apply_chunk no_services sample_model sample_loop 10)))) = Some 4"
proof -
  let ?r = "apply_chunk no_services sample_model sample_loop 10"
  have svc: "services_sound no_services sample_env"
    using services_no_services by (simp add: services_sound_def no_services_def no_env_def sample_env_def)
  have o: "no_span_overflow 2 50 3" by (simp add: no_span_overflow_def in64_def)
  have c: "int (card (iterations 2 50 3)) = 16" by (simp add: card_iterations ceil_div_def)
  have s: "static_chunk sample_model 16 = 4"
    by (simp add: static_chunk_def sample_model_values ceil_div_def)
  have r: "?r = (fst ?r, snd ?r)" by simp
  have v: "chunkSize (fst ?r) = Some (the (chunkSize (fst ?r)))" using sample_chunk_exists by simp
  show ?thesis
    using chunk_synthesis [OF svc sample_loop_bounds_50 o _ _ _ _ _ _ r v c [symmetric]] s
    by (simp add: sample_model_values sample_env_def in64_def sample_loop_def)
qed

section \<open>Reductions\<close>

lemma log_atomic:
  fixes w :: nat
  assumes "1 < w"
  shows "real w * 100 \<le> log 2 (real w) * 3000 \<longleftrightarrow> 2 ^ w \<le> w ^ 30"
proof -
  have "real w * 100 \<le> log 2 (real w) * 3000 \<longleftrightarrow> real w \<le> 30 * log 2 (real w)" by linarith
  also have "\<dots> \<longleftrightarrow> real w \<le> log 2 (real w ^ 30)" using assms by (simp add: log_nat_power)
  also have "\<dots> \<longleftrightarrow> 2 powr real w \<le> real w ^ 30" using assms by (simp add: le_log_iff)
  also have "\<dots> \<longleftrightarrow> real (2 ^ w) \<le> real (w ^ 30)" by (simp add: powr_realpow)
  also have "\<dots> \<longleftrightarrow> 2 ^ w \<le> w ^ 30" by (simp only: of_nat_le_iff)
  finally show ?thesis .
qed

text \<open>
  C33: The reduction strategy under the ARTS cost model, for more than one worker and a loop
  with reductions of known kinds and no strategy of its own: local accumulation where a
  sequential loop is nested in it or the reduction is partial; otherwise atomics exactly
  when every reduction is an integer sum and atomics are the cheaper update, that is while
  the worker count satisfies \<open>2 ^ w \<le> w ^ 30\<close> (up to 236 workers); otherwise a tree.
\<close>

theorem reduction_strategy_choice:
  assumes "reductionStrategy op = None" "getReductionKinds op = Some kinds" "1 < getRuntimeTotalWorkers c"
  shows "ReductionStrategyPass (Some (ARTSCostModel c)) [op] = [op\<lparr>reductionStrategy := Some (
    if partialReduction op \<or> hasNestedSequentialLoop op then LocalAccumulate
    else if list_all (\<lambda>(k, acc). isAtomicCapable k (getAccumulatorElementType acc))
              (zip kinds (reductionAccumulators op)) \<and>
            (2::nat) ^ nat (getRuntimeTotalWorkers c) \<le> nat (getRuntimeTotalWorkers c) ^ 30
    then AtomicStrategy else TreeStrategy)\<rparr>]"
proof -
  let ?w = "getRuntimeTotalWorkers c"
  have w: "max 1 (getLogicalWorkerCapacity (ARTSCostModel c)) = ?w"
    using assms(3) by (simp add: ARTSCostModel_def)
  have c: "real_of_int ?w * 100 \<le> arts_reduction_cost ?w \<longleftrightarrow> (2::nat) ^ nat ?w \<le> nat ?w ^ 30"
    using log_atomic [of "nat ?w"] assms(3) by (simp add: arts_reduction_cost_def Let_def)
  have s: "getAtomicUpdateCost (ARTSCostModel c) = 100"
    "getReductionCost (ARTSCostModel c) = arts_reduction_cost" by (simp_all add: ARTSCostModel_def)
  show ?thesis using assms
    by (simp add: ReductionStrategyPass_def w Let_def reduction_strategy_for_def s c)
qed

lemma reduction_strategy_choice_witness:
  "reductionStrategy (hd (ReductionStrategyPass (Some sample_model)
     [sample_loop\<lparr>reductionAccumulators := [index_const 7 0], reductionKinds := Some [Some RedAdd]\<rparr>]))
   = Some AtomicStrategy"
proof -
  let ?op = "sample_loop\<lparr>reductionAccumulators := [index_const 7 0], reductionKinds := Some [Some RedAdd]\<rparr>"
  have w: "getRuntimeTotalWorkers (default_config\<lparr>threads := 4\<rparr>) = 4"
    using sample_model_values(1) by (simp add: sample_model_def ARTSCostModel_def)
  have "reductionStrategy ?op = None" "getReductionKinds ?op = Some [RedAdd]"
    by (simp_all add: sample_loop_def getReductionKinds_def)
  from reduction_strategy_choice [OF this, of "default_config\<lparr>threads := 4\<rparr>"] show ?thesis
    by (simp add: w sample_model_def sample_loop_def hasNestedSequentialLoop_def isAtomicCapable_def
        getAccumulatorElementType_def)
qed

end
