(* ===== verification/DbModel.thy ===== *)
theory DbModel
  imports ValueTracing
begin

text \<open>
  Datablocks (\<open>arts/Utils/DbUtils.cpp\<close>): access modes and how they combine, tracing a value
  to its datablock, the size and coarseness predicates behind the launch decisions, the
  memory roots two operations share, and the conversion of element slices to block slices.

  Operations are their result values, identified by the operation identity. The attributes
  of \<open>arts.db_alloc\<close>, \<open>arts.db_acquire\<close> and \<open>arts.edt\<close> are records; \<open>db_attrs\<close> finds those of an
  operation by its identity.
\<close>

section \<open>Access modes\<close>

datatype arts_mode = ModeUninit | ModeIn | ModeOut | ModeInout

datatype db_mode = DbRead | DbWrite

definition combineAccessModes :: "arts_mode \<Rightarrow> arts_mode \<Rightarrow> arts_mode" where
  "combineAccessModes mode1 mode2 =
     (if mode1 = ModeUninit then mode2
      else if mode2 = ModeUninit then mode1
      else if mode1 = ModeInout \<or> mode2 = ModeInout then ModeInout
      else if (mode1 = ModeIn \<and> mode2 = ModeOut) \<or> (mode1 = ModeOut \<and> mode2 = ModeIn) then ModeInout
      else if mode1 = mode2 then mode1
      else ModeInout)"

definition isWriterMode :: "arts_mode \<Rightarrow> bool" where
  "isWriterMode mode = (mode = ModeOut \<or> mode = ModeInout)"

definition convertArtsModeToDbMode :: "arts_mode \<Rightarrow> db_mode" where
  "convertArtsModeToDbMode mode = (if mode = ModeIn then DbRead else DbWrite)"

text \<open>
  The modes ordered by the accesses they allow: nothing, reading or writing, both. Combining
  is the least upper bound of that order.
\<close>

instantiation arts_mode :: bounded_semilattice_sup_bot
begin

definition bot_arts_mode :: arts_mode where
  "bot = ModeUninit"

definition less_eq_arts_mode :: "arts_mode \<Rightarrow> arts_mode \<Rightarrow> bool" where
  "a \<le> b \<longleftrightarrow> a = b \<or> a = ModeUninit \<or> b = ModeInout"

definition less_arts_mode :: "arts_mode \<Rightarrow> arts_mode \<Rightarrow> bool" where
  "(a :: arts_mode) < b \<longleftrightarrow> a \<le> b \<and> a \<noteq> b"

definition sup_arts_mode :: "arts_mode \<Rightarrow> arts_mode \<Rightarrow> arts_mode" where
  "sup a b = combineAccessModes a b"

instance
proof
  fix x y z :: arts_mode
  show "x < y \<longleftrightarrow> x \<le> y \<and> \<not> y \<le> x" by (cases x; cases y; simp add: less_arts_mode_def less_eq_arts_mode_def)
  show "x \<le> x" by (simp add: less_eq_arts_mode_def)
  show "x \<le> y \<Longrightarrow> y \<le> z \<Longrightarrow> x \<le> z" by (cases x; cases y; cases z; simp add: less_eq_arts_mode_def)
  show "x \<le> y \<Longrightarrow> y \<le> x \<Longrightarrow> x = y" by (cases x; cases y; simp add: less_eq_arts_mode_def)
  show "x \<le> sup x y" "y \<le> sup x y"
    by (cases x; cases y; simp add: sup_arts_mode_def combineAccessModes_def less_eq_arts_mode_def)+
  show "y \<le> x \<Longrightarrow> z \<le> x \<Longrightarrow> sup y z \<le> x"
    by (cases x; cases y; cases z; simp add: sup_arts_mode_def combineAccessModes_def less_eq_arts_mode_def)
  show "bot \<le> x" by (simp add: bot_arts_mode_def less_eq_arts_mode_def)
qed

end

section \<open>Attributes of the datablock operations\<close>

datatype partition_mode = PartCoarse | PartBlock | PartStencil | PartFineGrained

record alloc_attrs =
  ptr_type :: ty
  alloc_partition :: "partition_mode option"
  distributed :: bool
  distributedRejectReason :: bool
  localOnly :: "bool option"
  hostWholeBridge :: bool

record acquire_attrs =
  acquire_mode :: arts_mode
  acquire_partition :: "partition_mode option"
  replicatedRead :: bool

record db_attrs =
  alloc_attr :: "nat \<Rightarrow> alloc_attrs"
  acquire_attr :: "nat \<Rightarrow> acquire_attrs"

record edt_op =
  dependencies :: "val list"
  storageBridgeCopy :: bool
  depPattern :: bool
  planOwnerDims :: bool
  planPhysicalBlockShape :: bool

section \<open>Sizes of types\<close>

fun dims_product :: "int option list \<Rightarrow> int \<Rightarrow> int" where
  "dims_product [] acc = acc"
| "dims_product (d # ds) acc =
     (case d of None \<Rightarrow> 0 | Some n \<Rightarrow> dims_product ds (u64 (acc * max n 0)))"

fun getElementTypeByteSize :: "ty \<Rightarrow> int" where
  "getElementTypeByteSize (MemRefTy dims elt) =
     (let elementBytes = getElementTypeByteSize elt
      in if elementBytes = 0 then 0 else dims_product dims elementBytes)"
| "getElementTypeByteSize (IntTy w) = int w div 8"
| "getElementTypeByteSize (FloatTy w) = int w div 8"
| "getElementTypeByteSize _ = 0"

definition isI1DbPtrType :: "ty \<Rightarrow> bool" where
  "isI1DbPtrType t = (case t of MemRefTy _ (MemRefTy _ elt) \<Rightarrow> elt = IntTy 1 | _ \<Rightarrow> False)"

section \<open>Tracing to the datablock\<close>

definition root_db :: "val \<Rightarrow> val option" where
  "root_db v =
     (case arts_getUnderlyingValue v of
        Some (DbAlloc i n t xs ys) \<Rightarrow> Some (DbAlloc i n t xs ys)
      | Some (DbAcquire i n t g p xs ys) \<Rightarrow> Some (DbAcquire i n t g p xs ys)
      | _ \<Rightarrow> None)"

fun getUnderlyingDb :: "nat \<Rightarrow> val \<Rightarrow> val option" where
  "getUnderlyingDb depth (DbAcquire i n t g p xs ys) =
     (if depth > 20 then None else Some (DbAcquire i n t g p xs ys))"
| "getUnderlyingDb depth (DbAlloc i n t xs ys) =
     (if depth > 20 then None else Some (DbAlloc i n t xs ys))"
| "getUnderlyingDb depth (DbRef i t s xs) =
     (if depth > 20 then None else getUnderlyingDb (depth + 1) s)"
| "getUnderlyingDb depth (BlockArg b n t d) =
     (if depth > 20 then None
      else case d of Some x \<Rightarrow> getUnderlyingDb (depth + 1) x | None \<Rightarrow> root_db (BlockArg b n t d))"
| "getUnderlyingDb depth (ViewLike i t k s xs) =
     (if depth > 20 then None
      else if k \<in> {Memref2Pointer, Pointer2Memref, MemCast, SubView} then getUnderlyingDb (depth + 1) s
      else root_db (ViewLike i t k s xs))"
| "getUnderlyingDb depth (OtherOp i n t nm xs) =
     (if depth > 20 then None
      else if nm = ''llvm.ptrtoint'' \<or> nm = ''llvm.inttoptr''
      then (case xs of [x] \<Rightarrow> getUnderlyingDb (depth + 1) x | _ \<Rightarrow> None)
      else root_db (OtherOp i n t nm xs))"
| "getUnderlyingDb depth v = (if depth > 20 then None else root_db v)"

lemma arts_root_result: "arts_getUnderlyingValue v = Some w \<Longrightarrow> (v, w) \<in> (stepped arts_derived_step)\<^sup>*"
proof -
  assume "arts_getUnderlyingValue v = Some w"
  then obtain n where "(v, w) \<in> stepped (through arts_root_step) ^^ n"
    using arts_root.underlying [of "[]" v 0 w] by (auto simp: arts_getUnderlyingValue_def)
  then show ?thesis by (rule relpow_imp_rtrancl [OF arts_root.through_path])
qed

text \<open>What the tracing returns is an acquire or an allocation the value is derived from.\<close>

fun is_db :: "val \<Rightarrow> bool" where
  "is_db (DbAlloc _ _ _ _ _) = True"
| "is_db (DbAcquire _ _ _ _ _ _ _) = True"
| "is_db _ = False"

lemma stepped_rtrancl: "f v = Some u \<Longrightarrow> (u, w) \<in> (stepped f)\<^sup>* \<Longrightarrow> (v, w) \<in> (stepped f)\<^sup>*"
  by (metis (mono_tags, lifting) case_prodI converse_rtrancl_into_rtrancl mem_Collect_eq stepped_def)

lemma root_db_spec: "root_db v = Some w \<Longrightarrow> is_db w \<and> (v, w) \<in> (stepped arts_derived_step)\<^sup>*"
  using arts_root_result [of v w] by (auto simp: root_db_def split: option.splits val.splits)

lemma underlying_db_spec:
  "getUnderlyingDb d v = Some w \<Longrightarrow> is_db w \<and> (v, w) \<in> (stepped arts_derived_step)\<^sup>*"
proof (induction d v arbitrary: w rule: getUnderlyingDb.induct)
  case (3 d i t s xs)
  then show ?case by (auto simp: first_operand_def split: if_splits intro: stepped_rtrancl [of arts_derived_step _ s])
next
  case (4 d b n t dep)
  then show ?case using root_db_spec
    by (auto split: if_splits option.splits intro: stepped_rtrancl [of arts_derived_step])
next
  case (5 d i t k s xs)
  then show ?case using root_db_spec
    by (auto split: if_splits simp: first_operand_def intro: stepped_rtrancl [of arts_derived_step _ s])
next
  case (6 d i n t nm xs)
  show ?case
  proof (cases "nm = ''llvm.ptrtoint'' \<or> nm = ''llvm.inttoptr''")
    case True
    then obtain x where "xs = [x]" "getUnderlyingDb (d + 1) x = Some w" "\<not> d > 20"
      using "6.prems" by (auto split: if_splits list.splits)
    then show ?thesis using "6.IH" True
      by (auto simp: first_operand_def intro: stepped_rtrancl [of arts_derived_step _ x])
  next
    case False
    then show ?thesis using "6.prems" root_db_spec by (auto split: if_splits)
  qed
qed (use root_db_spec in \<open>auto split: if_splits\<close>)

lemma derived_size: "(v, w) \<in> (stepped arts_derived_step)\<^sup>* \<Longrightarrow> size w \<le> size v"
  by (induction rule: converse_rtrancl_induct)
    (auto simp: stepped_def dest: arts_derived_smaller)

function getUnderlyingDbAlloc :: "val \<Rightarrow> val option" where
  "getUnderlyingDbAlloc v =
     (case getUnderlyingDb 0 v of
        None \<Rightarrow> None
      | Some db \<Rightarrow>
          (case db of
             DbAlloc i n t xs ys \<Rightarrow> Some db
           | DbAcquire i n t g p xs ys \<Rightarrow> getUnderlyingDbAlloc p
           | _ \<Rightarrow> None))"
  by pat_completeness auto
termination
  by (relation "measure size") (auto dest!: underlying_db_spec [THEN conjunct2, THEN derived_size])

declare getUnderlyingDbAlloc.simps [simp del]


section \<open>Predicates on allocations and dependencies\<close>

text \<open>An operation handle of kind \<open>DbAllocOp\<close> is the option of its value.\<close>

fun alloc_sizes :: "val \<Rightarrow> val list" where
  "alloc_sizes (DbAlloc i n t xs ys) = xs"
| "alloc_sizes v = []"

fun alloc_element_sizes :: "val \<Rightarrow> val list" where
  "alloc_element_sizes (DbAlloc i n t xs ys) = ys"
| "alloc_element_sizes v = []"

fun getSizesFromDb :: "val \<Rightarrow> val list" where
  "getSizesFromDb (DbAlloc i n t xs ys) = xs"
| "getSizesFromDb (DbAcquire i n t g p offsets szs) = szs"
| "getSizesFromDb v = []"

fun getDepOffsetsFromDb :: "val \<Rightarrow> val list" where
  "getDepOffsetsFromDb (DbAcquire i n t g p offsets szs) = offsets"
| "getDepOffsetsFromDb v = []"

definition getDepSizesFromDb :: "val \<Rightarrow> val list" where
  "getDepSizesFromDb dbPtr = (case getUnderlyingDb 0 dbPtr of None \<Rightarrow> [] | Some db \<Rightarrow> getSizesFromDb db)"

fun getAllocOpFromGuid :: "val \<Rightarrow> val option" where
  "getAllocOpFromGuid (DbAcquire i n t g p xs ys) =
     (case g of Some (DbAlloc j m u zs ws) \<Rightarrow> g | _ \<Rightarrow> None)"
| "getAllocOpFromGuid v = None"

fun multiply_sizes :: "mlir \<Rightarrow> val list \<Rightarrow> int \<Rightarrow> int option" where
  "multiply_sizes P [] acc = Some acc"
| "multiply_sizes P (v # vs) acc =
     (case tryFoldConstantIndex P 0 (stripNumericCasts v) of
        None \<Rightarrow> None
      | Some folded \<Rightarrow>
          if folded < 0 then None
          else if folded \<noteq> 0 \<and> acc > trunc_div (2 ^ 63 - 1) folded then None
          else multiply_sizes P vs (wrap64 (acc * folded)))"

definition getStaticElementCount :: "mlir \<Rightarrow> val option \<Rightarrow> int option" where
  "getStaticElementCount P alloc =
     (case alloc of
        None \<Rightarrow> None
      | Some a \<Rightarrow>
          (case multiply_sizes P (alloc_sizes a) 1 of
             None \<Rightarrow> None
           | Some acc \<Rightarrow> multiply_sizes P (alloc_element_sizes a) acc))"

definition attrs_of :: "db_attrs \<Rightarrow> val \<Rightarrow> alloc_attrs" where
  "attrs_of A v = alloc_attr A (the (op_id v))"

definition acquire_attrs_of :: "db_attrs \<Rightarrow> val \<Rightarrow> acquire_attrs option" where
  "acquire_attrs_of A v =
     (case v of DbAcquire i n t g p xs ys \<Rightarrow> Some (acquire_attr A i) | _ \<Rightarrow> None)"

definition isCoarseUserDataDb :: "db_attrs \<Rightarrow> val option \<Rightarrow> bool" where
  "isCoarseUserDataDb A alloc =
     (case alloc of
        None \<Rightarrow> False
      | Some a \<Rightarrow>
          if isI1DbPtrType (ptr_type (attrs_of A a)) then False
          else if alloc_element_sizes a = [] then False
          else if list_all isOneLikeValue (alloc_element_sizes a) then False
          else (case alloc_partition (attrs_of A a) of Some m \<Rightarrow> m = PartCoarse | None \<Rightarrow> True))"

definition isSmallCoarseUserDataDb :: "mlir \<Rightarrow> db_attrs \<Rightarrow> val option \<Rightarrow> int \<Rightarrow> bool" where
  "isSmallCoarseUserDataDb P A alloc maxElements =
     (if maxElements \<le> 0 \<or> \<not> isCoarseUserDataDb A alloc then False
      else case getStaticElementCount P alloc of Some n \<Rightarrow> n \<le> maxElements | None \<Rightarrow> False)"

definition kSmallCoarseReadOnlyElementLimit :: int where
  "kSmallCoarseReadOnlyElementLimit = 16 * 1024"

definition isRejectedForDistributedOwnership :: "db_attrs \<Rightarrow> val option \<Rightarrow> bool" where
  "isRejectedForDistributedOwnership A alloc =
     (case alloc of
        None \<Rightarrow> False
      | Some a \<Rightarrow>
          if distributed (attrs_of A a) then False
          else distributedRejectReason (attrs_of A a) \<or>
               (case localOnly (attrs_of A a) of Some b \<Rightarrow> b | None \<Rightarrow> False))"

definition isAllowedReadOnlyCoarseDep :: "mlir \<Rightarrow> db_attrs \<Rightarrow> val \<Rightarrow> val option \<Rightarrow> bool" where
  "isAllowedReadOnlyCoarseDep P A dep alloc =
     (case acquire_attrs_of A dep of
        None \<Rightarrow> False
      | Some q \<Rightarrow>
          if acquire_mode q \<noteq> ModeIn then False
          else if isSmallCoarseUserDataDb P A alloc kSmallCoarseReadOnlyElementLimit then True
          else isCoarseUserDataDb A alloc \<and> replicatedRead q)"

definition isAllowedSmallReadOnlyCoarseDep :: "mlir \<Rightarrow> db_attrs \<Rightarrow> val \<Rightarrow> val option \<Rightarrow> bool" where
  "isAllowedSmallReadOnlyCoarseDep P A dep alloc =
     (case acquire_attrs_of A dep of
        None \<Rightarrow> False
      | Some q \<Rightarrow> acquire_mode q = ModeIn \<and> isSmallCoarseUserDataDb P A alloc kSmallCoarseReadOnlyElementLimit)"

definition isHostWholeToComputeBlockBridgeDb :: "db_attrs \<Rightarrow> val option \<Rightarrow> bool" where
  "isHostWholeToComputeBlockBridgeDb A alloc =
     (case alloc of None \<Rightarrow> False | Some a \<Rightarrow> hostWholeBridge (attrs_of A a))"

fun bridge_deps :: "db_attrs \<Rightarrow> val list \<Rightarrow> bool \<Rightarrow> bool \<Rightarrow> bool" where
  "bridge_deps A [] hasCoarseHost hasBlockBridge = (hasCoarseHost \<and> hasBlockBridge)"
| "bridge_deps A (dep # deps) hasCoarseHost hasBlockBridge =
     (case acquire_attrs_of A dep of
        None \<Rightarrow> False
      | Some q \<Rightarrow>
          (let alloc = getUnderlyingDbAlloc dep;
               partition = (case acquire_partition q of Some m \<Rightarrow> m | None \<Rightarrow> PartCoarse)
           in if isCoarseUserDataDb A alloc \<and> partition = PartCoarse then bridge_deps A deps True hasBlockBridge
              else if isHostWholeToComputeBlockBridgeDb A alloc \<and> partition = PartBlock
              then bridge_deps A deps hasCoarseHost True
              else False))"

definition isHostWholeToComputeBlockBridgeMovement :: "db_attrs \<Rightarrow> edt_op option \<Rightarrow> bool" where
  "isHostWholeToComputeBlockBridgeMovement A edt =
     (case edt of
        None \<Rightarrow> False
      | Some e \<Rightarrow>
          if \<not> storageBridgeCopy e \<or> length (dependencies e) \<noteq> 2 \<or> depPattern e \<or> planOwnerDims e \<or>
             planPhysicalBlockShape e
          then False
          else bridge_deps A (dependencies e) False False)"

definition requiresLocalLaunchForDistributedDep :: "mlir \<Rightarrow> db_attrs \<Rightarrow> val \<Rightarrow> bool" where
  "requiresLocalLaunchForDistributedDep P A dep =
     (let alloc = getUnderlyingDbAlloc dep
      in if \<not> isRejectedForDistributedOwnership A alloc then False
         else \<not> isAllowedReadOnlyCoarseDep P A dep alloc)"

definition hasLocalOnlyDistributedLaunchDependency :: "mlir \<Rightarrow> db_attrs \<Rightarrow> edt_op option \<Rightarrow> bool" where
  "hasLocalOnlyDistributedLaunchDependency P A edt =
     (case edt of
        None \<Rightarrow> False
      | Some e \<Rightarrow>
          if isHostWholeToComputeBlockBridgeMovement A edt then False
          else list_ex (requiresLocalLaunchForDistributedDep P A) (dependencies e))"

section \<open>Partition hints\<close>

text \<open>Null offsets and sizes are \<open>None\<close>; the result carries the index written to \<open>outIdx\<close>.\<close>

fun first_offset :: "(val \<Rightarrow> bool) \<Rightarrow> val option list \<Rightarrow> nat \<Rightarrow> (val \<times> nat) option" where
  "first_offset ok [] i = None"
| "first_offset ok (None # xs) i = first_offset ok xs (i + 1)"
| "first_offset ok (Some v # xs) i = (if ok v then Some (v, i) else first_offset ok xs (i + 1))"

definition pickRepresentativePartitionOffset :: "val option list \<Rightarrow> val option \<times> nat" where
  "pickRepresentativePartitionOffset offsets =
     (case first_offset (\<lambda>v. getConstantIndex (stripNumericCasts v) = None) offsets 0 of
        Some (v, i) \<Rightarrow> (Some v, i)
      | None \<Rightarrow> (case first_offset (\<lambda>v. True) offsets 0 of Some (v, i) \<Rightarrow> (Some v, i) | None \<Rightarrow> (None, 0)))"

definition pickRepresentativePartitionSize :: "val option list \<Rightarrow> nat \<Rightarrow> val option" where
  "pickRepresentativePartitionSize sizes idx =
     (if sizes = [] then None
      else if idx < length sizes \<and> sizes ! idx \<noteq> None then sizes ! idx
      else hd sizes)"

definition min_hint :: "int option \<Rightarrow> int option \<Rightarrow> int option \<Rightarrow> int option \<Rightarrow> int option" where
  "min_hint lhsFolded rhsFolded lhsExtracted rhsExtracted =
     (case (lhsFolded, rhsFolded) of
        (Some a, Some b) \<Rightarrow> Some (max a b)
      | (Some a, None) \<Rightarrow> Some a
      | (None, Some b) \<Rightarrow> Some b
      | (None, None) \<Rightarrow>
          (case (lhsExtracted, rhsExtracted) of
             (Some a, Some b) \<Rightarrow> Some (max a b)
           | (Some a, None) \<Rightarrow> Some a
           | (None, Some b) \<Rightarrow> Some b
           | (None, None) \<Rightarrow> None))"

definition small_halo :: "int option \<Rightarrow> bool" where
  "small_halo c = (case c of Some k \<Rightarrow> \<bar>k\<bar> \<le> 16 | None \<Rightarrow> False)"

function (sequential) extractBlockSizeFromHint :: "mlir \<Rightarrow> nat \<Rightarrow> val \<Rightarrow> int option" where
  "extractBlockSizeFromHint P depth (Bin i t f a b) =
     (if depth > 4 then None
      else case arts_tryFoldConstantIndex P 0 (Bin i t f a b) of
             Some c \<Rightarrow> Some c
           | None \<Rightarrow>
               (let l = arts_tryFoldConstantIndex P 0 a; r = arts_tryFoldConstantIndex P 0 b;
                    le = extractBlockSizeFromHint P (depth + 1) a;
                    re = extractBlockSizeFromHint P (depth + 1) b
                in if f = MinUI \<or> f = MinSI then min_hint l r le re
                   else if f = AddI
                   then (if small_halo r then le
                         else if small_halo l then re
                         else if le \<noteq> None then le
                         else re)
                   else if f = SubI then (if small_halo r then le else None)
                   else if f = MaxUI
                   then (case (l, r) of
                           (Some x, Some y) \<Rightarrow> Some (max x y)
                         | (Some x, None) \<Rightarrow> (if re \<noteq> None then re else l)
                         | (None, Some y) \<Rightarrow> (if le \<noteq> None then le else r)
                         | (None, None) \<Rightarrow>
                             (case (le, re) of
                                (Some x, Some y) \<Rightarrow> Some (max x y)
                              | (Some x, None) \<Rightarrow> le
                              | (None, _) \<Rightarrow> re))
                   else None))"
| "extractBlockSizeFromHint P depth v =
     (if depth > 4 then None else arts_tryFoldConstantIndex P 0 v)"
  by pat_completeness auto
termination by (relation "measure (\<lambda>(P, depth, v). size v)") auto

end
