(* ===== verification/DbSlices.thy ===== *)
theory DbSlices
  imports DbModel LoopBounds
begin

text \<open>
  Block slices and memory roots of datablocks (\<open>DbUtils.cpp\<close>, continued): the arithmetic
  built to turn an element slice into the slice of blocks that hold it, the merge of a
  normalised slice into an existing one, and the test whether two operations conflict on a
  memory root they share.
\<close>

section \<open>Building block slices\<close>

definition castToIndex :: "val \<Rightarrow> nat \<Rightarrow> val \<times> nat" where
  "castToIndex v n =
     (if isIndex (type_of v) then (v, n)
      else if isIntOrIndex (type_of v) then (Cast n IndexTy IndexCast v, Suc n)
      else (v, n))"

text \<open>One dimension of \<open>convertElementSliceToBlockSlice\<close>: the operations in the order created.\<close>

definition block_slice_dim ::
  "val \<Rightarrow> val \<Rightarrow> val \<Rightarrow> val \<Rightarrow> val \<Rightarrow> val \<Rightarrow> nat \<Rightarrow> val \<times> val \<times> nat" where
  "block_slice_dim zero one elementOffset0 elementSize0 blockSpan0 totalBlocks0 n0 =
     (let (elementOffset, n1) = castToIndex elementOffset0 n0;
          (elementSize1, n2) = castToIndex elementSize0 n1;
          (blockSpan1, n3) = castToIndex blockSpan0 n2;
          (totalBlocks, n) = castToIndex totalBlocks0 n3;
          blockSpan = Bin n IndexTy MaxUI blockSpan1 one;
          elementSize = Bin (n + 1) IndexTy MaxUI elementSize1 one;
          startBlock = Bin (n + 2) IndexTy DivUI elementOffset blockSpan;
          endElem0 = Bin (n + 3) IndexTy AddI elementOffset elementSize;
          endElem = Bin (n + 4) IndexTy SubI endElem0 one;
          endBlock0 = Bin (n + 5) IndexTy DivUI endElem blockSpan;
          maxBlock = Bin (n + 6) IndexTy SubI totalBlocks one;
          startAboveMax = CmpI (n + 7) Cugt startBlock maxBlock;
          clampedEnd = Bin (n + 8) IndexTy MinUI endBlock0 maxBlock;
          endBlock = Select (n + 9) IndexTy startAboveMax endBlock0 clampedEnd;
          blockCount0 = Bin (n + 10) IndexTy SubI endBlock startBlock;
          blockCount1 = Bin (n + 11) IndexTy AddI blockCount0 one
      in (Select (n + 12) IndexTy startAboveMax zero startBlock,
          Select (n + 13) IndexTy startAboveMax zero blockCount1, n + 14))"

fun block_slice_loop ::
  "val \<Rightarrow> val \<Rightarrow> val list \<Rightarrow> val list \<Rightarrow> val list \<Rightarrow> val list \<Rightarrow> nat \<Rightarrow> val list \<times> val list \<times> nat" where
  "block_slice_loop zero one (off # offs) (sz # szs) (sp # sps) (tb # tbs) n =
     (let (start, count, n1) = block_slice_dim zero one off sz sp tb n;
          (starts, counts, n2) = block_slice_loop zero one offs szs sps tbs n1
      in (start # starts, count # counts, n2))"
| "block_slice_loop zero one _ _ _ _ n = ([], [], n)"

definition convertElementSliceToBlockSlice ::
  "val list \<Rightarrow> val list \<Rightarrow> val list \<Rightarrow> val list \<Rightarrow> nat \<Rightarrow> val list \<times> val list \<times> nat" where
  "convertElementSliceToBlockSlice elementOffsets elementSizes blockSpans totalBlockCounts n =
     (let (zero, n1) = createConstantIndex 0 n; (one, n2) = createConstantIndex 1 n1
      in block_slice_loop zero one elementOffsets elementSizes blockSpans totalBlockCounts n2)"

text \<open>
  \<open>mergeNormalizedBlockSlice\<close>. Null values of the ranges are \<open>None\<close>; the normalised ranges
  hold none.
\<close>

definition nth_opt :: "'a option list \<Rightarrow> nat \<Rightarrow> 'a option" where
  "nth_opt xs i = (if i < length xs then xs ! i else None)"

definition cast_or :: "val option \<Rightarrow> val \<Rightarrow> nat \<Rightarrow> val \<times> nat" where
  "cast_or v d n = (case v of Some x \<Rightarrow> castToIndex x n | None \<Rightarrow> (d, n))"

fun merge_existing ::
  "val option list \<Rightarrow> val option list \<Rightarrow> val option list \<Rightarrow> val \<Rightarrow> val \<Rightarrow> nat list \<Rightarrow> nat \<Rightarrow>
     (val \<times> val) list \<times> nat" where
  "merge_existing offs szs totals zero one [] n = ([], n)"
| "merge_existing offs szs totals zero one (i # is) n =
     (let (size0, n1) = cast_or (nth_opt totals i) one n;
          (offset, n2) = cast_or (nth_opt offs i) zero n1;
          (size1, n3) = cast_or (nth_opt szs i) size0 n2;
          (rest, n4) = merge_existing offs szs totals zero one is n3
      in ((offset, size1) # rest, n4))"

fun merge_normalized :: "(val \<times> val) list \<Rightarrow> (val \<times> val) list \<Rightarrow> nat \<Rightarrow> (val \<times> val) list \<times> nat" where
  "merge_normalized (p # ps) ((off, sz) # qs) n =
     (let (o', n1) = castToIndex off n; (s', n2) = castToIndex sz n1;
          (rest, n3) = merge_normalized ps qs n2
      in ((o', s') # rest, n3))"
| "merge_normalized ps _ n = (ps, n)"

definition mergeNormalizedBlockSlice ::
  "val option list \<Rightarrow> val option list \<Rightarrow> val option list \<Rightarrow> val list \<Rightarrow> val list \<Rightarrow> nat \<Rightarrow>
     val list \<times> val list \<times> nat" where
  "mergeNormalizedBlockSlice existingOffsets existingSizes totalBlockCounts normalizedOffsets normalizedSizes n =
     (let ownerRank = Max {length existingOffsets, length existingSizes, length totalBlockCounts,
                           length normalizedOffsets, length normalizedSizes}
      in if ownerRank = 0 then ([], [], n)
         else
           let (zero, n1) = createConstantIndex 0 n; (one, n2) = createConstantIndex 1 n1;
               (base, n3) = merge_existing existingOffsets existingSizes totalBlockCounts zero one [0..<ownerRank] n2;
               (merged, n4) = merge_normalized base (zip normalizedOffsets normalizedSizes) n3
           in (map fst merged, map snd merged, n4))"

section \<open>Memory roots shared by two operations\<close>

text \<open>
  \<open>summarizeMemoryRoots\<close> walks an operation; the model is given the accesses in walk order:
  the memref and whether it is written. A root is the allocation a memref is traced to, by
  its operation identity, or the memref itself.
\<close>

type_synonym access = "val \<times> bool"

record root_access =
  reads :: bool
  writes :: bool

definition record_access :: "bool \<Rightarrow> root_access \<Rightarrow> root_access" where
  "record_access isWrite r = (if isWrite then r\<lparr>writes := True\<rparr> else r\<lparr>reads := True\<rparr>)"

definition no_access :: root_access where
  "no_access = \<lparr>reads = False, writes = False\<rparr>"

definition root_of :: "val \<Rightarrow> nat option + val" where
  "root_of memref =
     (case getUnderlyingDbAlloc memref of Some alloc \<Rightarrow> Inl (op_id alloc) | None \<Rightarrow> Inr memref)"

definition summarize_step :: "access \<Rightarrow> (nat option + val \<rightharpoonup> root_access) \<Rightarrow> (nat option + val \<rightharpoonup> root_access)" where
  "summarize_step a m =
     m(root_of (fst a) \<mapsto> record_access (snd a) (case m (root_of (fst a)) of Some r \<Rightarrow> r | None \<Rightarrow> no_access))"

definition summarizeMemoryRoots :: "access list \<Rightarrow> (nat option + val \<rightharpoonup> root_access)" where
  "summarizeMemoryRoots accs = fold summarize_step accs Map.empty"

definition hasSharedWritableRootConflict :: "access list \<Rightarrow> access list \<Rightarrow> bool" where
  "hasSharedWritableRootConflict lhs rhs =
     (let ls = summarizeMemoryRoots lhs; rs = summarizeMemoryRoots rhs
      in list_ex (\<lambda>a. case (ls (root_of (fst a)), rs (root_of (fst a))) of
                        (Some l, Some r) \<Rightarrow> writes l \<or> writes r
                      | _ \<Rightarrow> False) lhs)"

section \<open>What a block slice covers\<close>

definition touched_blocks :: "int \<Rightarrow> int \<Rightarrow> int \<Rightarrow> int \<Rightarrow> int set" where
  "touched_blocks off sz bspan tot =
     {b. 0 \<le> b \<and> b < tot \<and> (\<exists>x. off \<le> x \<and> x < off + max sz 1 \<and> x div max bspan 1 = b)}"

text \<open>The numbers the built operations compute.\<close>

definition block_slice_values :: "int \<Rightarrow> int \<Rightarrow> int \<Rightarrow> int \<Rightarrow> int \<times> int" where
  "block_slice_values off sz bspan tot =
     (let sp = max bspan 1; z = max sz 1; st = off div sp; eb = (off + z - 1) div sp
      in if st > tot - 1 then (0, 0) else (st, min eb (tot - 1) - st + 1))"

lemma block_slice_values_touched:
  assumes "0 \<le> off" "block_slice_values off sz bspan tot = (s, c)"
  shows "{b. s \<le> b \<and> b < s + c} = touched_blocks off sz bspan tot"
proof -
  define sp z where "sp = max bspan 1" and "z = max sz 1"
  let ?st = "off div sp" and ?eb = "(off + z - 1) div sp"
  have pos: "0 < sp" "0 < z" by (simp_all add: sp_def z_def)
  have touched: "(\<exists>x. off \<le> x \<and> x < off + z \<and> x div sp = b) \<longleftrightarrow> ?st \<le> b \<and> b \<le> ?eb" for b
  proof
    assume "\<exists>x. off \<le> x \<and> x < off + z \<and> x div sp = b"
    then obtain x where "off \<le> x" "x \<le> off + z - 1" "x div sp = b" by fastforce
    then show "?st \<le> b \<and> b \<le> ?eb" using zdiv_mono1 pos(1) by blast
  next
    assume b: "?st \<le> b \<and> b \<le> ?eb"
    show "\<exists>x. off \<le> x \<and> x < off + z \<and> x div sp = b"
    proof (cases "b = ?st")
      case True
      then show ?thesis using pos(2) by (intro exI [of _ off]) simp
    next
      case False
      have "off < sp * b"
      proof (rule ccontr)
        assume "\<not> off < sp * b"
        then have "sp * b div sp \<le> ?st" using pos by (intro zdiv_mono1) auto
        then show False using pos False b by simp
      qed
      moreover have "sp * b \<le> off + z - 1"
      proof -
        have "sp * b \<le> sp * ?eb" using b pos by (intro mult_left_mono) auto
        also have "\<dots> \<le> off + z - 1" using pos_mod_sign [OF pos(1), of "off + z - 1"]
            mult_div_mod_eq [of sp "off + z - 1"] by linarith
        finally show ?thesis .
      qed
      ultimately show ?thesis using pos by (intro exI [of _ "sp * b"]) simp
    qed
  qed
  have st0: "0 \<le> ?st" using assms(1) pos by (simp add: pos_imp_zdiv_nonneg_iff)
  have "touched_blocks off sz bspan tot =
      {b. 0 \<le> b \<and> b < tot \<and> (\<exists>x. off \<le> x \<and> x < off + z \<and> x div sp = b)}"
    by (simp add: touched_blocks_def sp_def z_def)
  also have "\<dots> = {b. 0 \<le> b \<and> b < tot \<and> ?st \<le> b \<and> b \<le> ?eb}" by (simp only: touched)
  finally have t: "touched_blocks off sz bspan tot = {b. 0 \<le> b \<and> b < tot \<and> ?st \<le> b \<and> b \<le> ?eb}" .
  have v: "(s, c) = (if ?st > tot - 1 then (0, 0) else (?st, min ?eb (tot - 1) - ?st + 1))"
    using assms(2) by (auto simp: block_slice_values_def Let_def sp_def z_def split: if_splits)
  show ?thesis unfolding t using v st0
    by (cases "?st > tot - 1") auto
qed

text \<open>The hypotheses on one dimension: index operands with values, and no overflow.\<close>

definition dim_ok :: "env \<Rightarrow> val \<Rightarrow> val \<Rightarrow> val \<Rightarrow> val \<Rightarrow> int \<Rightarrow> int \<Rightarrow> int \<Rightarrow> int \<Rightarrow> bool" where
  "dim_ok e voff vsz vsp vtb off sz bspan tot \<longleftrightarrow>
     type_of voff = IndexTy \<and> type_of vsz = IndexTy \<and> type_of vsp = IndexTy \<and> type_of vtb = IndexTy \<and>
     eval e voff = Some off \<and> eval e vsz = Some sz \<and> eval e vsp = Some bspan \<and> eval e vtb = Some tot \<and>
     0 \<le> off \<and> 0 \<le> sz \<and> 0 \<le> bspan \<and> 1 \<le> tot \<and> in64 bspan \<and> in64 tot \<and> off + max sz 1 < 2 ^ 63"

lemma eval_BinI:
  "eval e a = Some x \<Longrightarrow> eval e b = Some y \<Longrightarrow> bin_sem t f x y = Some z \<Longrightarrow> eval e (Bin i t f a b) = Some z"
  by simp

lemma eval_CmpII:
  "eval e a = Some x \<Longrightarrow> eval e b = Some y \<Longrightarrow> cmp_sem (type_of a) p x y = c \<Longrightarrow>
     eval e (CmpI i p a b) = Some (if c then -1 else 0)"
  by simp

lemma eval_SelectI:
  "eval e k = Some (if c then -1 else 0) \<Longrightarrow> eval e a = Some x \<Longrightarrow> eval e b = Some y \<Longrightarrow>
     eval e (Select i t k a b) = Some (if c then x else y)"
  by simp

lemma block_slice_dim_value:
  assumes ok: "dim_ok e voff vsz vsp vtb off sz bspan tot"
    and zero: "eval e zero = Some 0" "type_of zero = IndexTy"
    and one: "eval e one = Some 1" "type_of one = IndexTy"
    and d: "block_slice_dim zero one voff vsz vsp vtb n = (vs, vc, m)"
  shows "eval e vs = Some (fst (block_slice_values off sz bspan tot)) \<and>
         eval e vc = Some (snd (block_slice_values off sz bspan tot))"
proof -
  have t: "type_of voff = IndexTy" "type_of vsz = IndexTy" "type_of vsp = IndexTy" "type_of vtb = IndexTy"
    and ev: "eval e voff = Some off" "eval e vsz = Some sz" "eval e vsp = Some bspan" "eval e vtb = Some tot"
    and b: "0 \<le> off" "0 \<le> sz" "0 \<le> bspan" "1 \<le> tot" "in64 bspan" "in64 tot" "off + max sz 1 < 2 ^ 63"
    using ok unfolding dim_ok_def by blast+
  let ?sp = "max bspan 1" and ?z = "max sz 1"
  let ?st = "off div ?sp" and ?ee = "off + ?z - 1" and ?mb = "tot - 1"
  let ?eb = "?ee div ?sp"
  have i: "in64 1" "in64 sz" "in64 ?z" "in64 ?sp" "in64 off" "in64 (off + ?z)" "in64 ?ee" "in64 ?mb"
    using b by (auto simp: in64_def max_def split: if_splits)
  have nn: "0 \<le> ?st" "?st \<le> off" "0 \<le> ?eb" "?eb \<le> ?ee" "?st \<le> ?eb"
    using b int_div_le_self [of ?ee ?sp] by (simp_all add: pos_imp_zdiv_nonneg_iff int_div_le_self zdiv_mono1)
  have i2: "in64 ?st" "in64 ?eb" using in64_between [OF i(5)] in64_between [OF i(7)] nn by auto
  have s1: "bin_sem IndexTy MaxUI bspan 1 = Some ?sp" by (rule umax_sem [OF b(3) _ b(5) i(1)]) simp
  have s2: "bin_sem IndexTy MaxUI sz 1 = Some ?z" by (rule umax_sem [OF b(2) _ i(2,1)]) simp
  have s3: "bin_sem IndexTy DivUI off ?sp = Some ?st" by (rule div_ui_sem [OF b(1) i(5) _ i(4)]) simp
  have s4: "bin_sem IndexTy AddI off ?z = Some (off + ?z)" by (rule add_sem [OF i(6)])
  have s5: "bin_sem IndexTy SubI (off + ?z) 1 = Some ?ee" by (rule sub_sem [OF i(7)])
  have s6: "bin_sem IndexTy DivUI ?ee ?sp = Some ?eb" by (rule div_ui_sem [OF _ i(7) _ i(4)]) (use b in simp_all)
  have s7: "bin_sem IndexTy SubI tot 1 = Some ?mb" by (rule sub_sem [OF i(8)])
  have mb: "0 \<le> ?mb" using b(4) by simp
  have s8: "cmp_sem IndexTy Cugt ?st ?mb = (?mb < ?st)"
    by (simp only: cmp_sem.simps uns_at_index u64_of_nonneg [OF i2(1) nn(1)] u64_of_nonneg [OF i(8) mb])
  have s9: "bin_sem IndexTy MinUI ?eb ?mb = Some (min ?eb ?mb)" by (rule umin_sem [OF nn(3) mb i2(2) i(8)])
  let ?eblk = "if ?mb < ?st then ?eb else min ?eb ?mb"
  have en: "?st \<le> ?eblk" "?eblk \<le> ?ee" using nn by (auto simp: min_def)
  have k: "in64 (?eblk - ?st)" "in64 (?eblk - ?st + 1)"
    using en nn(1) b(7) by (auto simp: in64_def)
  have s10: "bin_sem IndexTy SubI ?eblk ?st = Some (?eblk - ?st)" by (rule sub_sem [OF k(1)])
  have s11: "bin_sem IndexTy AddI (?eblk - ?st) 1 = Some (?eblk - ?st + 1)" by (rule add_sem [OF k(2)])
  let ?nsp = "Bin n IndexTy MaxUI vsp one" and ?nz = "Bin (n + 1) IndexTy MaxUI vsz one"
  let ?nst = "Bin (n + 2) IndexTy DivUI voff ?nsp"
  let ?nee = "Bin (n + 4) IndexTy SubI (Bin (n + 3) IndexTy AddI voff ?nz) one"
  let ?neb = "Bin (n + 5) IndexTy DivUI ?nee ?nsp" and ?nmb = "Bin (n + 6) IndexTy SubI vtb one"
  let ?nab = "CmpI (n + 7) Cugt ?nst ?nmb"
  let ?nend = "Select (n + 9) IndexTy ?nab ?neb (Bin (n + 8) IndexTy MinUI ?neb ?nmb)"
  let ?ncnt = "Bin (n + 11) IndexTy AddI (Bin (n + 10) IndexTy SubI ?nend ?nst) one"
  have v: "vs = Select (n + 12) IndexTy ?nab zero ?nst" "vc = Select (n + 13) IndexTy ?nab zero ?ncnt"
  proof -
    have "block_slice_dim zero one voff vsz vsp vtb n =
        (Select (n + 12) IndexTy ?nab zero ?nst, Select (n + 13) IndexTy ?nab zero ?ncnt, n + 14)"
      by (simp only: block_slice_dim_def castToIndex_def t isIndex.simps if_True Let_def prod.case)
    then show "vs = Select (n + 12) IndexTy ?nab zero ?nst" "vc = Select (n + 13) IndexTy ?nab zero ?ncnt"
      using d by (simp_all only: prod.inject)
  qed
  have e1: "eval e ?nsp = Some ?sp" by (rule eval_BinI [OF ev(3) one(1) s1])
  have e2: "eval e ?nz = Some ?z" by (rule eval_BinI [OF ev(2) one(1) s2])
  have e3: "eval e ?nst = Some ?st" by (rule eval_BinI [OF ev(1) e1 s3])
  have e5: "eval e ?nee = Some ?ee" by (rule eval_BinI [OF eval_BinI [OF ev(1) e2 s4] one(1) s5])
  have e6: "eval e ?neb = Some ?eb" by (rule eval_BinI [OF e5 e1 s6])
  have e7: "eval e ?nmb = Some ?mb" by (rule eval_BinI [OF ev(4) one(1) s7])
  have e8: "eval e ?nab = Some (if ?mb < ?st then -1 else 0)"
    by (rule eval_CmpII [OF e3 e7]) (simp only: type_of.simps s8)
  have e9: "eval e ?nend = Some ?eblk"
    by (rule eval_SelectI [OF e8 e6 eval_BinI [OF e6 e7 s9]])
  have e11: "eval e ?ncnt = Some (?eblk - ?st + 1)"
    by (rule eval_BinI [OF eval_BinI [OF e9 e3 s10] one(1) s11])
  have "eval e vs = Some (if ?mb < ?st then 0 else ?st)"
    unfolding v(1) by (rule eval_SelectI [OF e8 zero(1) e3])
  moreover have "eval e vc = Some (if ?mb < ?st then 0 else ?eblk - ?st + 1)"
    unfolding v(2) by (rule eval_SelectI [OF e8 zero(1) e11])
  ultimately show ?thesis by (simp add: block_slice_values_def Let_def)
qed

lemma block_slice_loop_dims:
  assumes "block_slice_loop zero one offs szs sps tbs n = (starts, counts, m)"
    and "r = min (min (length offs) (length szs)) (min (length sps) (length tbs))"
  shows "length starts = r \<and> length counts = r \<and> (\<forall>k<r. \<exists>i j.
    block_slice_dim zero one (offs ! k) (szs ! k) (sps ! k) (tbs ! k) i = (starts ! k, counts ! k, j))"
  using assms
proof (induction offs arbitrary: szs sps tbs n starts counts m r)
  case (Cons off offs)
  show ?case
  proof (cases "szs = [] \<or> sps = [] \<or> tbs = []")
    case True
    then show ?thesis using Cons.prems by (cases szs; cases sps; cases tbs) auto
  next
    case False
    then obtain sz szs' sp sps' tb tbs' where l: "szs = sz # szs'" "sps = sp # sps'" "tbs = tb # tbs'"
      by (metis list.exhaust)
    obtain start count n1 where d: "block_slice_dim zero one off sz sp tb n = (start, count, n1)"
      using prod_cases3 by blast
    obtain ss cs n2 where b: "block_slice_loop zero one offs szs' sps' tbs' n1 = (ss, cs, n2)"
      using prod_cases3 by blast
    let ?q = "min (min (length offs) (length szs')) (min (length sps') (length tbs'))"
    from Cons.IH [OF b refl] have IH: "length ss = ?q" "length cs = ?q" "\<And>k. k < ?q \<Longrightarrow> \<exists>i j.
      block_slice_dim zero one (offs ! k) (szs' ! k) (sps' ! k) (tbs' ! k) i = (ss ! k, cs ! k, j)"
      by blast+
    have e: "starts = start # ss" "counts = count # cs" "r = Suc ?q"
      using Cons.prems d b l by auto
    have "\<exists>i j. block_slice_dim zero one ((off # offs) ! k) (szs ! k) (sps ! k) (tbs ! k) i = (starts ! k, counts ! k, j)"
      if "k < r" for k
      using that IH(3) d unfolding l e by (cases k) auto
    then show ?thesis using IH(1,2) e by simp
  qed
qed auto

text \<open>
  C13: Converting an element slice to a block slice is exact. The slice built has as many
  dimensions as all four of its operand lists. For every dimension whose operands are of
  index type, not negative, with at least one block and without overflow, the offset and the
  size built have values, and the blocks from the offset on, as many as the size says, are
  exactly the existing blocks that hold an element of the slice; an empty slice counts as
  one element, a zero block span as one, and a slice that starts behind the last block
  becomes empty.
\<close>

theorem block_slice_exact:
  assumes "convertElementSliceToBlockSlice offs szs sps tbs n = (starts, counts, m)"
    and "r = min (min (length offs) (length szs)) (min (length sps) (length tbs))"
  shows "length starts = r \<and> length counts = r \<and>
    (\<forall>k<r. \<forall>off sz bspan tot. dim_ok e (offs ! k) (szs ! k) (sps ! k) (tbs ! k) off sz bspan tot \<longrightarrow>
       (\<exists>s c. eval e (starts ! k) = Some s \<and> eval e (counts ! k) = Some c \<and>
          {b. s \<le> b \<and> b < s + c} = touched_blocks off sz bspan tot))"
proof -
  let ?zero = "Const n IndexTy (IntAttr 0)" and ?one = "Const (Suc n) IndexTy (IntAttr 1)"
  have z: "eval e ?zero = Some 0" "eval e ?one = Some 1" by (simp_all add: wrap64_id in64_def)
  have "block_slice_loop ?zero ?one offs szs sps tbs (Suc (Suc n)) = (starts, counts, m)"
    using assms(1) by (simp add: convertElementSliceToBlockSlice_def createConstantIndex_def)
  note d = block_slice_loop_dims [OF this assms(2)]
  have "\<exists>s c. eval e (starts ! k) = Some s \<and> eval e (counts ! k) = Some c \<and>
      {b. s \<le> b \<and> b < s + c} = touched_blocks off sz bspan tot"
    if k: "k < r" and ok: "dim_ok e (offs ! k) (szs ! k) (sps ! k) (tbs ! k) off sz bspan tot" for k off sz bspan tot
  proof -
    obtain i j where b: "block_slice_dim ?zero ?one (offs ! k) (szs ! k) (sps ! k) (tbs ! k) i = (starts ! k, counts ! k, j)"
      using d k by blast
    let ?v = "block_slice_values off sz bspan tot"
    have "0 \<le> off" using ok by (simp add: dim_ok_def)
    from block_slice_values_touched [OF this, of sz bspan tot "fst ?v" "snd ?v"] show ?thesis
      using block_slice_dim_value [OF ok z(1) _ z(2) _ b] by auto
  qed
  then show ?thesis using d by blast
qed

text \<open>A slice of 9 elements from 10 on in blocks of 4, by one of 5 from 7 on in blocks of 16.\<close>

lemma block_slice_exact_witness:
  "let (starts, counts, m) = convertElementSliceToBlockSlice [index_const 1 10, index_const 2 7]
         [index_const 3 9, index_const 4 5] [index_const 5 4, index_const 6 16] [index_const 7 8, index_const 8 2] 9
   in map (eval no_env) starts = [Some 2, Some 0] \<and> map (eval no_env) counts = [Some 3, Some 1] \<and>
      touched_blocks 10 9 4 8 = {2..<5} \<and> touched_blocks 7 5 16 2 = {0..<1}"
proof -
  let ?offs = "[index_const 1 10, index_const 2 7]" and ?szs = "[index_const 3 9, index_const 4 5]"
    and ?sps = "[index_const 5 4, index_const 6 16]" and ?tbs = "[index_const 7 8, index_const 8 2]"
  let ?r = "convertElementSliceToBlockSlice ?offs ?szs ?sps ?tbs 9"
  obtain ss cs m where r: "?r = (ss, cs, m)" using prod_cases3 by blast
  have "map (eval no_env) (fst ?r) = [Some 2, Some 0]" "map (eval no_env) (fst (snd ?r)) = [Some 3, Some 1]"
    by code_simp+
  then have e: "map (eval no_env) ss = [Some 2, Some 0]" "map (eval no_env) cs = [Some 3, Some 1]" using r by simp_all
  have ok: "dim_ok no_env (index_const 1 10) (index_const 3 9) (index_const 5 4) (index_const 7 8) 10 9 4 8"
    "dim_ok no_env (index_const 2 7) (index_const 4 5) (index_const 6 16) (index_const 8 2) 7 5 16 2"
    by (simp_all add: dim_ok_def in64_def wrap64_id)
  have two: "2 = min (min (length ?offs) (length ?szs)) (min (length ?sps) (length ?tbs))" by simp
  note E = block_slice_exact [OF r two, of no_env]
  obtain s c where a: "eval no_env (ss ! 0) = Some s" "eval no_env (cs ! 0) = Some c"
    "{b. s \<le> b \<and> b < s + c} = touched_blocks 10 9 4 8"
    using E [THEN conjunct2, THEN conjunct2, rule_format, of 0 10 9 4 8] ok(1) by auto
  obtain s' c' where b: "eval no_env (ss ! 1) = Some s'" "eval no_env (cs ! 1) = Some c'"
    "{b. s' \<le> b \<and> b < s' + c'} = touched_blocks 7 5 16 2"
    using E [THEN conjunct2, THEN conjunct2, rule_format, of 1 7 5 16 2] ok(2) by auto
  obtain v v' w w' where l: "ss = [v, v']" "cs = [w, w']" using e by (cases ss; cases "tl ss"; cases cs; cases "tl cs") auto
  have "s = 2" "c = 3" "s' = 0" "c' = 1" using a(1,2) b(1,2) e unfolding l by simp_all
  then have "touched_blocks 10 9 4 8 = {2..<5}" "touched_blocks 7 5 16 2 = {0..<1}" using a(3) b(3) by force+
  then show ?thesis unfolding r Let_def prod.case using e by blast
qed

section \<open>Conflicts\<close>

lemma summarize_none:
  "fold summarize_step accs m k = None \<longleftrightarrow> m k = None \<and> k \<notin> (root_of \<circ> fst) ` set accs"
  by (induction accs arbitrary: m) (auto simp: summarize_step_def)

lemma summarize_writes:
  "(case fold summarize_step accs m k of Some r \<Rightarrow> writes r | None \<Rightarrow> False) \<longleftrightarrow>
     (case m k of Some r \<Rightarrow> writes r | None \<Rightarrow> False) \<or> (\<exists>a\<in>set accs. root_of (fst a) = k \<and> snd a)"
  by (induction accs arbitrary: m)
    (auto simp: summarize_step_def record_access_def no_access_def split: option.splits if_splits)

lemma summary_root:
  "(\<exists>a\<in>set accs. root_of (fst a) = k) \<longleftrightarrow> summarizeMemoryRoots accs k \<noteq> None"
  "(\<exists>a\<in>set accs. root_of (fst a) = k \<and> snd a) \<longleftrightarrow>
     (case summarizeMemoryRoots accs k of Some r \<Rightarrow> writes r | None \<Rightarrow> False)"
  using summarize_none [of accs Map.empty k] summarize_writes [of accs Map.empty k]
  by (auto simp: summarizeMemoryRoots_def)

text \<open>
  C31: Two operations conflict exactly when some access of the one and some access of the
  other reach the same memory root and one operation writes that root.
\<close>

theorem shared_root_conflict_iff:
  "hasSharedWritableRootConflict lhs rhs \<longleftrightarrow>
     (\<exists>a\<in>set lhs. \<exists>b\<in>set rhs. root_of (fst a) = root_of (fst b) \<and> (snd a \<or> snd b))"
proof -
  have cc: "(case (summarizeMemoryRoots lhs k, summarizeMemoryRoots rhs k) of
           (Some l, Some r) \<Rightarrow> writes l \<or> writes r | _ \<Rightarrow> False) \<longleftrightarrow>
        (\<exists>a\<in>set lhs. root_of (fst a) = k) \<and> (\<exists>b\<in>set rhs. root_of (fst b) = k) \<and>
        ((\<exists>a\<in>set lhs. root_of (fst a) = k \<and> snd a) \<or> (\<exists>b\<in>set rhs. root_of (fst b) = k \<and> snd b))" for k
    unfolding summary_root
    by (cases "summarizeMemoryRoots lhs k"; cases "summarizeMemoryRoots rhs k") simp_all
  have eq: "hasSharedWritableRootConflict lhs rhs \<longleftrightarrow>
      (\<exists>x\<in>set lhs. (\<exists>a\<in>set lhs. root_of (fst a) = root_of (fst x)) \<and>
        (\<exists>b\<in>set rhs. root_of (fst b) = root_of (fst x)) \<and>
        ((\<exists>a\<in>set lhs. root_of (fst a) = root_of (fst x) \<and> snd a) \<or>
         (\<exists>b\<in>set rhs. root_of (fst b) = root_of (fst x) \<and> snd b)))"
    unfolding hasSharedWritableRootConflict_def Let_def list_ex_iff by (intro bex_cong refl cc)
  show ?thesis
  proof
    assume "hasSharedWritableRootConflict lhs rhs"
    then obtain x b where x: "x \<in> set lhs" "b \<in> set rhs" "root_of (fst b) = root_of (fst x)"
      "(\<exists>a\<in>set lhs. root_of (fst a) = root_of (fst x) \<and> snd a) \<or>
       (\<exists>b\<in>set rhs. root_of (fst b) = root_of (fst x) \<and> snd b)" unfolding eq by blast
    from x(4) show "\<exists>a\<in>set lhs. \<exists>b\<in>set rhs. root_of (fst a) = root_of (fst b) \<and> (snd a \<or> snd b)"
    proof
      assume "\<exists>a\<in>set lhs. root_of (fst a) = root_of (fst x) \<and> snd a"
      then obtain a where "a \<in> set lhs" "root_of (fst a) = root_of (fst b)" "snd a" using x(3) by auto
      then show ?thesis using x(2) by blast
    next
      assume "\<exists>b\<in>set rhs. root_of (fst b) = root_of (fst x) \<and> snd b"
      then obtain c where "c \<in> set rhs" "root_of (fst x) = root_of (fst c)" "snd c" by auto
      then show ?thesis using x(1) by blast
    qed
  next
    assume "\<exists>a\<in>set lhs. \<exists>b\<in>set rhs. root_of (fst a) = root_of (fst b) \<and> (snd a \<or> snd b)"
    then obtain a b where p: "a \<in> set lhs" "b \<in> set rhs" "root_of (fst b) = root_of (fst a)" "snd a \<or> snd b"
      by auto
    have "(\<exists>x\<in>set lhs. root_of (fst x) = root_of (fst a)) \<and> (\<exists>x\<in>set rhs. root_of (fst x) = root_of (fst a))"
      using p(1-3) by blast
    moreover have "(\<exists>x\<in>set lhs. root_of (fst x) = root_of (fst a) \<and> snd x) \<or>
        (\<exists>x\<in>set rhs. root_of (fst x) = root_of (fst a) \<and> snd x)" using p by blast
    ultimately show "hasSharedWritableRootConflict lhs rhs" unfolding eq using p(1) by blast
  qed
qed

end
