(* ===== verification/EdtDataflow.thy ===== *)
theory EdtDataflow
  imports DbModel "HOL-Library.AList" "HOL-Library.Product_Lexorder"
begin

text \<open>
  Dependences between tasks (\<open>EdtDataFlowAnalysis.cpp\<close>, over the alias analysis of
  \<open>DbAliasAnalysis.cpp\<close>): a forward dataflow analysis that records, for every pair of tasks
  where one may have to wait for the other, the datablock acquires that order them. The
  specification is the set of task sequences a region can run.
\<close>

section \<open>Acquires and their aliases\<close>

text \<open>
  A \<open>DbAcquireNode\<close>: there is one for each acquire operation, so nodes are compared by the
  identity of the operation. The root is the allocation node, when there is one.
\<close>

record acquire_node =
  node_op :: nat
  getRootAlloc :: "nat option"
  getMode :: arts_mode
  getEdtUser :: "nat option"
  getOffsets :: "val list"
  getSizes :: "val list"
  getPartitionOffsets :: "val list"
  getPartitionSizes :: "val list"

datatype alias_result = NoAlias | MayAlias | MustAlias

datatype overlap_kind = Disjoint | Partial | Full

fun extractRange :: "val list \<Rightarrow> int list option" where
  "extractRange [] = Some []"
| "extractRange (v # vs) =
     (case getConstantIndex v of
        None \<Rightarrow> None
      | Some c \<Rightarrow> map_option (\<lambda>cs. c # cs) (extractRange vs))"

definition extractConstantSlice :: "acquire_node \<Rightarrow> (int list \<times> int list) option" where
  "extractConstantSlice a =
     (case extractRange (getOffsets a) of
        None \<Rightarrow> None
      | Some offsets \<Rightarrow> map_option (\<lambda>sizes. (offsets, sizes)) (extractRange (getSizes a)))"

text \<open>
  The scan for a dimension in which the ranges do not meet. The code indexes the offsets by
  the dimensions of the sizes; acquires have as many of the one as of the other.
\<close>

fun disjoint_dim :: "(int \<times> int) list \<Rightarrow> (int \<times> int) list \<Rightarrow> bool" where
  "disjoint_dim ((beginA, sizeA) # as) ((beginB, sizeB) # bs) =
     (if wrap64 (beginA + sizeA) \<le> beginB \<or> wrap64 (beginB + sizeB) \<le> beginA then True
      else disjoint_dim as bs)"
| "disjoint_dim _ _ = False"

definition refineAliasWithSlices :: "acquire_node \<Rightarrow> acquire_node \<Rightarrow> alias_result option" where
  "refineAliasWithSlices a b =
     (case (extractConstantSlice a, extractConstantSlice b) of
        (Some (offA, szA), Some (offB, szB)) \<Rightarrow>
          if length offA \<noteq> length offB \<or> length szA \<noteq> length szB then None
          else if offA = offB \<and> szA = szB then Some MustAlias
          else if disjoint_dim (zip offA szA) (zip offB szB) then Some NoAlias
          else Some MayAlias
      | _ \<Rightarrow> None)"

text \<open>A partition range of one dimension, where offset and size are constants.\<close>

fun const_range :: "val list \<Rightarrow> val list \<Rightarrow> nat \<Rightarrow> (int \<times> int) option" where
  "const_range offs szs d =
     (case getConstantIndex (offs ! d) of
        None \<Rightarrow> None
      | Some off \<Rightarrow>
          if d < length szs then map_option (\<lambda>sz. (off, sz)) (getConstantIndex (szs ! d)) else None)"

definition ranges_apart :: "(int \<times> int) option \<Rightarrow> (int \<times> int) option \<Rightarrow> bool" where
  "ranges_apart ra rb =
     (case (ra, rb) of
        (Some (offA, szA), Some (offB, szB)) \<Rightarrow>
          wrap64 (offA + szA) \<le> offB \<or> wrap64 (offB + szB) \<le> offA
      | _ \<Rightarrow> False)"

definition refineOverlapWithPartitionRanges :: "acquire_node \<Rightarrow> acquire_node \<Rightarrow> overlap_kind option" where
  "refineOverlapWithPartitionRanges a b =
     (let offA = getPartitionOffsets a; offB = getPartitionOffsets b
      in if offA = [] \<or> offB = [] then None
         else if length offA \<noteq> length offB then None
         else if list_ex (\<lambda>d. ranges_apart (const_range offA (getPartitionSizes a) d)
                               (const_range offB (getPartitionSizes b) d)) [0..<length offA]
         then Some Disjoint else None)"

definition different_roots :: "acquire_node \<Rightarrow> acquire_node \<Rightarrow> bool" where
  "different_roots a b =
     (case (getRootAlloc a, getRootAlloc b) of (Some x, Some y) \<Rightarrow> x \<noteq> y | _ \<Rightarrow> False)"

definition estimateOverlap :: "acquire_node \<Rightarrow> acquire_node \<Rightarrow> overlap_kind" where
  "estimateOverlap a b =
     (if node_op a = node_op b then Full
      else if different_roots a b then Disjoint
      else case refineAliasWithSlices a b of
             Some NoAlias \<Rightarrow> Disjoint
           | Some MustAlias \<Rightarrow> Full
           | _ \<Rightarrow> if refineOverlapWithPartitionRanges a b = Some Disjoint then Disjoint else Partial)"

definition classifyAlias :: "acquire_node \<Rightarrow> acquire_node \<Rightarrow> alias_result" where
  "classifyAlias a b =
     (if node_op a = node_op b then MustAlias
      else if different_roots a b then NoAlias
      else case estimateOverlap a b of
             Disjoint \<Rightarrow> NoAlias
           | Full \<Rightarrow> MustAlias
           | Partial \<Rightarrow> MayAlias)"

section \<open>The analysis\<close>

datatype dep_type = RAW | WAR | WAW

record db_edge =
  producer :: acquire_node
  consumer :: acquire_node
  depType :: dep_type

text \<open>
  A task with the acquires among its dependences, in order, and the operations of a region
  the analysis looks at. Everything else (\<open>OtherRegionOp\<close>) is skipped with its regions.
\<close>

record edt_task =
  edt_op_id :: nat
  isSync :: bool
  acquires :: "acquire_node list"

datatype region_op =
    EdtTask edt_task
  | EpochRegion "region_op list"
  | IfRegion "region_op list" "region_op list option"
  | ForRegion "region_op list"
  | OtherRegionOp

text \<open>
  The environment: for each root the acquires that may have written last, and those that may
  have read since. The maps are association lists, the sets are lists in insertion order.
\<close>

record environment =
  env_writers :: "(nat option \<times> acquire_node list) list"
  env_readers :: "(nat option \<times> acquire_node list) list"

definition empty_environment :: environment where
  "empty_environment = \<lparr>env_writers = [], env_readers = []\<rparr>"

definition entry :: "(nat option \<times> acquire_node list) list \<Rightarrow> nat option \<Rightarrow> acquire_node list" where
  "entry m k = (case map_of m k of Some xs \<Rightarrow> xs | None \<Rightarrow> [])"

text \<open>The recorded dependences, in insertion order: from task, to task, edge.\<close>

type_synonym dep_map = "(nat \<times> nat \<times> db_edge) list"

definition insert_new :: "'a \<Rightarrow> 'a list \<Rightarrow> 'a list" where
  "insert_new x xs = (if x \<in> set xs then xs else xs @ [x])"

definition reads_mode :: "arts_mode \<Rightarrow> bool" where
  "reads_mode m = (m = ModeIn \<or> m = ModeInout)"

definition writes_mode :: "arts_mode \<Rightarrow> bool" where
  "writes_mode m = (m = ModeOut \<or> m = ModeInout)"

definition classifyDep :: "acquire_node \<Rightarrow> acquire_node \<Rightarrow> dep_type option" where
  "classifyDep p c =
     (if getRootAlloc p \<noteq> getRootAlloc c then None
      else if writes_mode (getMode p) \<and> reads_mode (getMode c) then Some RAW
      else if writes_mode (getMode p) \<and> writes_mode (getMode c) then Some WAW
      else if reads_mode (getMode p) \<and> writes_mode (getMode c) then Some WAR
      else None)"

definition recordDep :: "acquire_node \<Rightarrow> acquire_node \<Rightarrow> dep_type \<Rightarrow> dep_map \<Rightarrow> dep_map" where
  "recordDep p c t deps =
     (case (getEdtUser p, getEdtUser c) of
        (Some f, Some u) \<Rightarrow>
          if f = u then deps else insert_new (f, u, \<lparr>producer = p, consumer = c, depType = t\<rparr>) deps
      | _ \<Rightarrow> deps)"

definition findDefinitions :: "acquire_node \<Rightarrow> environment \<Rightarrow> acquire_node list" where
  "findDefinitions acquire E =
     filter (\<lambda>def. classifyAlias def acquire \<noteq> NoAlias \<and>
                   \<not> (classifyAlias def acquire = MayAlias \<and> estimateOverlap def acquire = Disjoint))
       (entry (env_writers E) (getRootAlloc acquire))"

definition record_all :: "acquire_node list \<Rightarrow> acquire_node \<Rightarrow> dep_type \<Rightarrow> dep_map \<Rightarrow> dep_map" where
  "record_all ps c t deps =
     foldl (\<lambda>ds p. if classifyDep p c = Some t then recordDep p c t ds else ds) deps ps"

definition raw_step :: "environment \<Rightarrow> acquire_node \<Rightarrow> dep_map \<Rightarrow> dep_map" where
  "raw_step E c deps = record_all (findDefinitions c E) c RAW deps"

definition waw_step :: "acquire_node \<Rightarrow> environment \<times> bool \<times> dep_map \<Rightarrow> environment \<times> bool \<times> dep_map" where
  "waw_step w st =
     (case st of (E, changed, deps) \<Rightarrow>
        (let deps' = record_all (findDefinitions w E) w WAW deps;
             defs = entry (env_writers E) (getRootAlloc w)
         in if defs = [w]
            then (E, changed, deps')
            else (E\<lparr>env_writers := AList.update (getRootAlloc w) [w] (env_writers E)\<rparr>, True, deps')))"

definition war_step :: "acquire_node \<Rightarrow> environment \<times> dep_map \<Rightarrow> environment \<times> dep_map" where
  "war_step w st =
     (case st of (E, deps) \<Rightarrow>
        (let liveReaders = entry (env_readers E) (getRootAlloc w)
         in (E\<lparr>env_readers := AList.update (getRootAlloc w) [] (env_readers E)\<rparr>,
             if liveReaders = [] then deps else record_all liveReaders w WAR deps)))"

definition add_reader :: "acquire_node \<Rightarrow> environment \<Rightarrow> environment" where
  "add_reader r E =
     E\<lparr>env_readers := AList.update (getRootAlloc r) (insert_new r (entry (env_readers E) (getRootAlloc r)))
                        (env_readers E)\<rparr>"

definition processEdt :: "edt_task \<Rightarrow> environment \<Rightarrow> dep_map \<Rightarrow> environment \<times> bool \<times> dep_map" where
  "processEdt edt E deps =
     (let inputAcquires = filter (\<lambda>a. reads_mode (getMode a)) (acquires edt);
          outputAcquires = filter (\<lambda>a. writes_mode (getMode a)) (acquires edt);
          deps1 = fold (raw_step E) inputAcquires deps;
          (E2, changed, deps2) = fold waw_step outputAcquires (E, False, deps1);
          (E3, deps3) = fold war_step outputAcquires (E2, deps2);
          E4 = fold add_reader inputAcquires E3
      in if isSync edt
         then (empty_environment, changed \<or> env_writers E4 \<noteq> [] \<or> env_readers E4 \<noteq> [], deps3)
         else (E4, changed, deps3))"

fun union_map ::
  "(nat option \<times> acquire_node list) list \<Rightarrow> (nat option \<times> acquire_node list) list \<Rightarrow>
     (nat option \<times> acquire_node list) list \<times> bool" where
  "union_map target [] = (target, False)"
| "union_map target ((k, acqs) # rest) =
     (let defs = entry target k; defs' = fold insert_new acqs defs;
          (m, changed) = union_map (AList.update k defs' target) rest
      in (m, defs' \<noteq> defs \<or> changed))"

definition unionInto :: "environment \<Rightarrow> environment \<Rightarrow> environment \<times> bool" where
  "unionInto target source =
     (let (ws, c1) = union_map (env_writers target) (env_writers source);
          (rs, c2) = union_map (env_readers target) (env_readers source)
      in (\<lparr>env_writers = ws, env_readers = rs\<rparr>, c1 \<or> c2))"

text \<open>
  The loop over a body: at most \<open>n\<close> passes, stopping when neither the body nor the union
  changed anything.
\<close>

fun processFor ::
  "(environment \<Rightarrow> dep_map \<Rightarrow> environment \<times> bool \<times> dep_map) \<Rightarrow> nat \<Rightarrow> environment \<Rightarrow> dep_map \<Rightarrow>
     environment \<times> bool \<times> dep_map" where
  "processFor body 0 loopEnv deps = (loopEnv, False, deps)"
| "processFor body (Suc n) loopEnv deps =
     (let (bodyEnv, bodyChanged, deps1) = body loopEnv deps;
          (loopEnv1, envChanged) = unionInto loopEnv bodyEnv
      in if \<not> bodyChanged \<and> \<not> envChanged then (loopEnv1, False, deps1)
         else let (L, changed, deps2) = processFor body n loopEnv1 deps1 in (L, True, deps2))"

definition maxIterations :: nat where
  "maxIterations = 5"

fun processOp :: "region_op \<Rightarrow> environment \<Rightarrow> dep_map \<Rightarrow> environment \<times> bool \<times> dep_map"
  and processRegion :: "region_op list \<Rightarrow> environment \<Rightarrow> dep_map \<Rightarrow> environment \<times> bool \<times> dep_map" where
  "processOp (EdtTask edt) E deps = processEdt edt E deps"
| "processOp (EpochRegion body) E deps =
     (case processRegion body E deps of (E', changed, deps') \<Rightarrow> (empty_environment, changed, deps'))"
| "processOp (IfRegion thens elses) E deps =
     (case processRegion thens E deps of
        (thenEnv, thenChanged, deps1) \<Rightarrow>
          (case (case elses of
                   None \<Rightarrow> (E, False, deps1)
                 | Some es \<Rightarrow> processRegion es E deps1) of
             (elseEnv, elseChanged, deps2) \<Rightarrow>
               (case unionInto thenEnv elseEnv of
                  (merged, mergeChanged) \<Rightarrow> (merged, thenChanged \<or> elseChanged \<or> mergeChanged, deps2))))"
| "processOp (ForRegion body) E deps = processFor (processRegion body) maxIterations E deps"
| "processOp OtherRegionOp E deps = (E, False, deps)"
| "processRegion [] E deps = (E, False, deps)"
| "processRegion (x # xs) E deps =
     (case processOp x E deps of
        (E1, c1, deps1) \<Rightarrow>
          (case processRegion xs E1 deps1 of (E2, c2, deps2) \<Rightarrow> (E2, c1 \<or> c2, deps2)))"

section \<open>What the analysis is sound for\<close>

text \<open>
  The sequences of tasks a region can start. A synchronous task and the end of an epoch wait
  for everything before them; a conditional runs one branch and a loop any number of passes.
\<close>

datatype event = Run edt_task | Wait

inductive run_op :: "region_op \<Rightarrow> event list \<Rightarrow> bool"
  and run_ops :: "region_op list \<Rightarrow> event list \<Rightarrow> bool"
  and run_loop :: "region_op list \<Rightarrow> event list \<Rightarrow> bool" where
  task: "run_op (EdtTask e) (if isSync e then [Run e, Wait] else [Run e])"
| epoch: "run_ops b t \<Longrightarrow> run_op (EpochRegion b) (t @ [Wait])"
| if_then: "run_ops b t \<Longrightarrow> run_op (IfRegion b c) t"
| if_else: "run_ops c t \<Longrightarrow> run_op (IfRegion b (Some c)) t"
| if_skip: "run_op (IfRegion b None) []"
| for_loop: "run_loop b t \<Longrightarrow> run_op (ForRegion b) t"
| other: "run_op OtherRegionOp []"
| nil: "run_ops [] []"
| cons: "run_op x t \<Longrightarrow> run_ops xs u \<Longrightarrow> run_ops (x # xs) (t @ u)"
| stop: "run_loop b []"
| again: "run_ops b t \<Longrightarrow> run_loop b u \<Longrightarrow> run_loop b (t @ u)"

inductive_cases run_opsE: "run_ops (x # xs) t"
inductive_cases run_opE: "run_op (EdtTask e) t" "run_op (EpochRegion b) t" "run_op (IfRegion b c) t"
  "run_op (ForRegion b) t" "run_op OtherRegionOp t"

text \<open>The acquires of a task on a root, and the conflicts between tasks.\<close>

definition outputs_on :: "edt_task \<Rightarrow> nat option \<Rightarrow> acquire_node list" where
  "outputs_on e k = filter (\<lambda>a. writes_mode (getMode a) \<and> getRootAlloc a = k) (acquires e)"

definition inputs_on :: "edt_task \<Rightarrow> nat option \<Rightarrow> acquire_node list" where
  "inputs_on e k = filter (\<lambda>a. reads_mode (getMode a) \<and> getRootAlloc a = k) (acquires e)"

definition conflicting :: "edt_task \<Rightarrow> edt_task \<Rightarrow> bool" where
  "conflicting a b \<longleftrightarrow>
     (\<exists>k. outputs_on a k \<noteq> [] \<and> outputs_on b k \<noteq> [] \<or> outputs_on a k \<noteq> [] \<and> inputs_on b k \<noteq> [] \<or>
          inputs_on a k \<noteq> [] \<and> outputs_on b k \<noteq> [])"

fun tasks :: "region_op \<Rightarrow> edt_task list" where
  "tasks (EdtTask e) = [e]"
| "tasks (EpochRegion b) = concat (map tasks b)"
| "tasks (IfRegion b c) = concat (map tasks b) @ (case c of None \<Rightarrow> [] | Some d \<Rightarrow> concat (map tasks d))"
| "tasks (ForRegion b) = concat (map tasks b)"
| "tasks OtherRegionOp = []"

text \<open>
  The hypotheses: an acquire belongs to the task it is a dependence of, and acquires of the
  same root are never proved disjoint.
\<close>

definition acquires_owned :: "edt_task list \<Rightarrow> bool" where
  "acquires_owned es = (\<forall>e\<in>set es. \<forall>a\<in>set (acquires e). getEdtUser a = Some (edt_op_id e))"

definition never_disjoint :: "edt_task list \<Rightarrow> bool" where
  "never_disjoint es =
     (\<forall>e\<in>set es. \<forall>f\<in>set es. \<forall>a\<in>set (acquires e). \<forall>b\<in>set (acquires f).
        getRootAlloc a = getRootAlloc b \<longrightarrow> estimateOverlap a b \<noteq> Disjoint)"

subsection \<open>The environment after a task\<close>

definition wset :: "environment \<Rightarrow> nat option \<Rightarrow> acquire_node set" where
  "wset E k = set (entry (env_writers E) k)"

definition rset :: "environment \<Rightarrow> nat option \<Rightarrow> acquire_node set" where
  "rset E k = set (entry (env_readers E) k)"

definition env_le :: "environment \<Rightarrow> environment \<Rightarrow> bool" where
  "env_le E F \<longleftrightarrow> (\<forall>k. wset E k \<subseteq> wset F k \<and> rset E k \<subseteq> rset F k)"

definition ordered :: "dep_map \<Rightarrow> (nat \<times> nat) set" where
  "ordered deps = {(f, u). \<exists>x. (f, u, x) \<in> set deps}"

lemma entry_update [simp]: "entry (AList.update k v m) j = (if j = k then v else entry m j)"
  by (simp add: entry_def update_conv')

lemma set_insert_new [simp]: "set (insert_new x xs) = insert x (set xs)"
  by (auto simp: insert_new_def)

lemma set_fold_insert_new [simp]: "set (fold insert_new ys xs) = set xs \<union> set ys"
  by (induction ys arbitrary: xs) auto

lemma recordDep_mono: "set deps \<subseteq> set (recordDep p c t deps)"
  by (auto simp: recordDep_def split: option.splits)

lemma record_all_mono: "set deps \<subseteq> set (record_all ps c t deps)"
  unfolding record_all_def
proof (induction ps arbitrary: deps)
  case (Cons p ps)
  show ?case using Cons.IH [of "if classifyDep p c = Some t then recordDep p c t deps else deps"]
      recordDep_mono [of deps p c t] by (auto split: if_splits)
qed simp

lemma record_all_Cons:
  "record_all (p # ps) c t deps =
     record_all ps c t (if classifyDep p c = Some t then recordDep p c t deps else deps)"
  by (simp add: record_all_def)

lemma record_all_edge:
  "p \<in> set ps \<Longrightarrow> classifyDep p c = Some t \<Longrightarrow> getEdtUser p = Some f \<Longrightarrow> getEdtUser c = Some u \<Longrightarrow>
     (f, u) \<in> (ordered (record_all ps c t deps))\<^sup>="
proof (induction ps arbitrary: deps)
  case (Cons q ps)
  show ?case
  proof (cases "p \<in> set ps")
    case True
    then show ?thesis using Cons by (simp only: record_all_Cons)
  next
    case False
    then have q: "q = p" using Cons.prems(1) by simp
    have "f = u \<or> (\<exists>x. (f, u, x) \<in> set (recordDep p c t deps))"
      using Cons.prems by (auto simp: recordDep_def)
    then show ?thesis
      using record_all_mono [of "recordDep p c t deps" ps c t] Cons.prems(2)
      by (auto simp: record_all_Cons q ordered_def)
  qed
qed simp

lemma ordered_mono: "set d \<subseteq> set d' \<Longrightarrow> ordered d \<subseteq> ordered d'"
  by (auto simp: ordered_def)

lemma raw_fold_mono: "set deps \<subseteq> set (fold (raw_step E) cs deps)"
proof (induction cs arbitrary: deps)
  case (Cons c cs)
  show ?case using Cons.IH [of "raw_step E c deps"] record_all_mono [of deps _ c RAW]
    by (auto simp: raw_step_def)
qed simp

lemma raw_fold_edge:
  "c \<in> set cs \<Longrightarrow> p \<in> set (findDefinitions c E) \<Longrightarrow> classifyDep p c = Some RAW \<Longrightarrow>
     getEdtUser p = Some f \<Longrightarrow> getEdtUser c = Some u \<Longrightarrow>
     (f, u) \<in> (ordered (fold (raw_step E) cs deps))\<^sup>="
proof (induction cs arbitrary: deps)
  case (Cons d cs)
  show ?case
  proof (cases "c \<in> set cs")
    case True
    then show ?thesis using Cons by simp
  next
    case False
    then have d: "d = c" using Cons.prems(1) by simp
    have "(f, u) \<in> (ordered (raw_step E c deps))\<^sup>="
      unfolding raw_step_def by (rule record_all_edge) (use Cons.prems in auto)
    then show ?thesis using ordered_mono [OF raw_fold_mono [of "raw_step E c deps" E cs]] by (auto simp: d)
  qed
qed simp

text \<open>The writers: the last output on a root replaces what the root held.\<close>

definition last_output :: "acquire_node list \<Rightarrow> nat option \<Rightarrow> acquire_node list" where
  "last_output ws k = filter (\<lambda>w. getRootAlloc w = k) ws"

lemma last_output_root: "last_output ws k = w # rest \<Longrightarrow> getRootAlloc w = k"
  unfolding last_output_def by (drule filter_eq_ConsD) auto

lemma waw_fold:
  "fold waw_step ws (E, c, deps) = (E', c', deps') \<Longrightarrow>
     entry (env_writers E') k =
       (if last_output ws k = [] then entry (env_writers E) k else [last (last_output ws k)]) \<and>
     env_readers E' = env_readers E \<and> set deps \<subseteq> set deps'"
proof (induction ws arbitrary: E c deps)
  case (Cons w ws)
  obtain E1 c1 d1 where s: "waw_step w (E, c, deps) = (E1, c1, d1)" by (metis prod_cases3)
  have ih: "entry (env_writers E') k =
       (if last_output ws k = [] then entry (env_writers E1) k else [last (last_output ws k)]) \<and>
     env_readers E' = env_readers E1 \<and> set d1 \<subseteq> set deps'"
    using Cons.IH [of E1 c1 d1] Cons.prems s by simp
  have "entry (env_writers E1) k = (if getRootAlloc w = k then [w] else entry (env_writers E) k)"
    "env_readers E1 = env_readers E" "set deps \<subseteq> set d1"
    using s record_all_mono [of deps _ w WAW] by (auto simp: waw_step_def Let_def split: if_splits)
  then show ?case using ih by (auto simp: last_output_def)
qed (simp add: last_output_def)

lemma waw_fold_edge:
  assumes "fold waw_step ws (E, c, deps) = (E', c', deps')"
    "last_output ws k = w # rest" "p \<in> set (findDefinitions w E)" "classifyDep p w = Some WAW"
    "getEdtUser p = Some f" "getEdtUser w = Some u"
  shows "(f, u) \<in> (ordered deps')\<^sup>="
  using assms
proof (induction ws arbitrary: E c deps)
  case (Cons v ws)
  obtain E1 c1 d1 where s: "waw_step v (E, c, deps) = (E1, c1, d1)" by (metis prod_cases3)
  have fold1: "fold waw_step ws (E1, c1, d1) = (E', c', deps')" using Cons.prems(1) s by simp
  show ?case
  proof (cases "v = w")
    case True
    have "(f, u) \<in> (ordered d1)\<^sup>="
      using record_all_edge [OF Cons.prems(3) Cons.prems(4) Cons.prems(5) Cons.prems(6)] s True
      by (auto simp: waw_step_def Let_def split: if_splits)
    then show ?thesis using waw_fold [OF fold1] ordered_mono [of d1 deps'] by auto
  next
    case False
    then have v: "getRootAlloc v \<noteq> k" "last_output ws k = w # rest"
      using Cons.prems(2) by (auto simp: last_output_def split: if_splits)
    have w: "getRootAlloc w = k" by (rule last_output_root [OF v(2)])
    have "entry (env_writers E1) k = entry (env_writers E) k"
      using s v(1) by (auto simp: waw_step_def Let_def split: if_splits)
    then have "findDefinitions w E1 = findDefinitions w E" by (simp add: findDefinitions_def w)
    then show ?thesis using Cons.IH [OF fold1 v(2)] Cons.prems by simp
  qed
qed (simp add: last_output_def)

text \<open>The readers: an output on a root forgets them, then the inputs of the task are added.\<close>

lemma war_fold:
  "fold war_step ws (E, deps) = (E', deps') \<Longrightarrow>
     entry (env_readers E') k = (if last_output ws k = [] then entry (env_readers E) k else []) \<and>
     env_writers E' = env_writers E \<and> set deps \<subseteq> set deps'"
proof (induction ws arbitrary: E deps)
  case (Cons w ws)
  obtain E1 d1 where s: "war_step w (E, deps) = (E1, d1)" by (metis surj_pair)
  have ih: "entry (env_readers E') k = (if last_output ws k = [] then entry (env_readers E1) k else []) \<and>
     env_writers E' = env_writers E1 \<and> set d1 \<subseteq> set deps'"
    using Cons.IH [of E1 d1] Cons.prems s by simp
  have "entry (env_readers E1) k = (if getRootAlloc w = k then [] else entry (env_readers E) k)"
    "env_writers E1 = env_writers E" "set deps \<subseteq> set d1"
    using s record_all_mono [of deps _ w WAR] by (auto simp: war_step_def Let_def split: if_splits)
  then show ?case using ih by (auto simp: last_output_def)
qed (simp add: last_output_def)

lemma war_fold_edge:
  assumes "fold war_step ws (E, deps) = (E', deps')"
    "last_output ws k = w # rest" "p \<in> rset E k" "classifyDep p w = Some WAR"
    "getEdtUser p = Some f" "getEdtUser w = Some u"
  shows "(f, u) \<in> (ordered deps')\<^sup>="
  using assms
proof (induction ws arbitrary: E deps)
  case (Cons v ws)
  obtain E1 d1 where s: "war_step v (E, deps) = (E1, d1)" by (metis surj_pair)
  have fold1: "fold war_step ws (E1, d1) = (E', deps')" using Cons.prems(1) s by simp
  show ?case
  proof (cases "v = w")
    case True
    have "getRootAlloc w = k" by (rule last_output_root [OF Cons.prems(2)])
    then have "(f, u) \<in> (ordered d1)\<^sup>="
      using record_all_edge [of p "entry (env_readers E) k" w WAR f u deps] Cons.prems(3-6) s True
      by (auto simp: war_step_def rset_def Let_def split: if_splits)
    then show ?thesis using war_fold [OF fold1] ordered_mono [of d1 deps'] by auto
  next
    case False
    then have v: "getRootAlloc v \<noteq> k" "last_output ws k = w # rest"
      using Cons.prems(2) by (auto simp: last_output_def split: if_splits)
    have "rset E1 k = rset E k" using s v(1) by (auto simp: war_step_def rset_def Let_def split: if_splits)
    then show ?thesis using Cons.IH [OF fold1 v(2)] Cons.prems by simp
  qed
qed (simp add: last_output_def)

lemma reader_fold:
  "rset (fold add_reader rs E) k = rset E k \<union> {r \<in> set rs. getRootAlloc r = k} \<and>
     env_writers (fold add_reader rs E) = env_writers E"
proof (induction rs arbitrary: E)
  case (Cons r rs)
  have "rset (add_reader r E) k = rset E k \<union> (if getRootAlloc r = k then {r} else {})"
    "env_writers (add_reader r E) = env_writers E"
    by (auto simp: add_reader_def rset_def)
  then show ?case using Cons.IH [of "add_reader r E"] by auto
qed simp

text \<open>
  What has happened since the last wait: the acquire that wrote a root last, and those that
  read it since.
\<close>

record history =
  last_writer :: "nat option \<Rightarrow> acquire_node option"
  readers_since :: "nat option \<Rightarrow> acquire_node set"

definition idle :: history where
  "idle = \<lparr>last_writer = (\<lambda>k. None), readers_since = (\<lambda>k. {})\<rparr>"

definition after_task :: "edt_task \<Rightarrow> history \<Rightarrow> history" where
  "after_task e S =
     \<lparr>last_writer = (\<lambda>k. if outputs_on e k = [] then last_writer S k else Some (last (outputs_on e k))),
      readers_since = (\<lambda>k. (if outputs_on e k = [] then readers_since S k else {}) \<union> set (inputs_on e k))\<rparr>"

definition needs :: "history \<Rightarrow> edt_task \<Rightarrow> (nat \<times> nat) set" where
  "needs S e =
     {(f, edt_op_id e) | f k a. last_writer S k = Some a \<and> getEdtUser a = Some f \<and>
        (outputs_on e k \<noteq> [] \<or> inputs_on e k \<noteq> [])} \<union>
     {(f, edt_op_id e) | f k a. a \<in> readers_since S k \<and> getEdtUser a = Some f \<and> getMode a = ModeIn \<and>
        outputs_on e k \<noteq> []}"

fun after_events :: "history \<Rightarrow> event list \<Rightarrow> history" where
  "after_events S [] = S"
| "after_events S (Run e # t) = after_events (after_task e S) t"
| "after_events S (Wait # t) = after_events idle t"

fun covers :: "(nat \<times> nat) set \<Rightarrow> history \<Rightarrow> event list \<Rightarrow> bool" where
  "covers R S [] = True"
| "covers R S (Run e # t) = (needs S e \<subseteq> R\<^sup>= \<and> covers R (after_task e S) t)"
| "covers R S (Wait # t) = covers R idle t"

text \<open>The environment holds the history, with acquires of the tasks considered.\<close>

definition holds :: "acquire_node set \<Rightarrow> history \<Rightarrow> environment \<Rightarrow> bool" where
  "holds A S E \<longleftrightarrow>
     (\<forall>k a. last_writer S k = Some a \<longrightarrow> a \<in> wset E k \<and> a \<in> A \<and> getRootAlloc a = k \<and> writes_mode (getMode a)) \<and>
     (\<forall>k. \<forall>a\<in>readers_since S k. a \<in> rset E k \<and> a \<in> A \<and> getRootAlloc a = k \<and> reads_mode (getMode a))"

lemma after_events_append: "after_events S (t @ u) = after_events (after_events S t) u"
  by (induction S t rule: after_events.induct) auto

lemma covers_append: "covers R S (t @ u) \<longleftrightarrow> covers R S t \<and> covers R (after_events S t) u"
  by (induction R S t rule: covers.induct) auto

lemma covers_mono: "covers R S t \<Longrightarrow> R \<subseteq> R' \<Longrightarrow> covers R' S t"
  by (induction R S t rule: covers.induct) auto

lemma holds_idle [simp]: "holds A idle E"
  by (simp add: holds_def idle_def)

lemma holds_mono: "holds A S E \<Longrightarrow> env_le E F \<Longrightarrow> holds A S F"
  unfolding holds_def env_le_def by (meson subsetD)

lemma last_output_outputs:
  "last_output (filter (\<lambda>a. writes_mode (getMode a)) (acquires e)) k = outputs_on e k"
  by (simp add: last_output_def outputs_on_def conj_commute)

lemma processEdt_sets:
  assumes "processEdt e E deps = (E', c, deps')"
  shows "wset E' k = (if isSync e then {} else if outputs_on e k = [] then wset E k else {last (outputs_on e k)})"
    and "rset E' k = (if isSync e then {}
                      else (if outputs_on e k = [] then rset E k else {}) \<union> set (inputs_on e k))"
    and "set deps \<subseteq> set deps'"
proof -
  let ?ins = "filter (\<lambda>a. reads_mode (getMode a)) (acquires e)"
  let ?outs = "filter (\<lambda>a. writes_mode (getMode a)) (acquires e)"
  obtain E2 c2 d2 where f2: "fold waw_step ?outs (E, False, fold (raw_step E) ?ins deps) = (E2, c2, d2)"
    by (metis prod_cases3)
  obtain E3 d3 where f3: "fold war_step ?outs (E2, d2) = (E3, d3)" by (metis surj_pair)
  let ?E4 = "fold add_reader ?ins E3"
  have res: "(E', c, deps') =
      (if isSync e then (empty_environment, c2 \<or> env_writers ?E4 \<noteq> [] \<or> env_readers ?E4 \<noteq> [], d3)
       else (?E4, c2, d3))"
    using assms by (simp add: processEdt_def Let_def f2 f3)
  note w = waw_fold [OF f2, of k, unfolded last_output_outputs]
  note r = war_fold [OF f3, of k, unfolded last_output_outputs]
  note a = reader_fold [of ?ins E3 k]
  have e0: "wset empty_environment k = {}" "rset empty_environment k = {}"
    by (simp_all add: empty_environment_def wset_def rset_def entry_def)
  show "wset E' k = (if isSync e then {} else if outputs_on e k = [] then wset E k else {last (outputs_on e k)})"
    using res w r a e0 by (auto simp: wset_def split: if_splits)
  have "{r \<in> set ?ins. getRootAlloc r = k} = set (inputs_on e k)" by (auto simp: inputs_on_def)
  then show "rset E' k = (if isSync e then {}
                      else (if outputs_on e k = [] then rset E k else {}) \<union> set (inputs_on e k))"
    using res w r a e0 by (auto simp: rset_def split: if_splits)
  show "set deps \<subseteq> set deps'"
    using res w r raw_fold_mono [of deps E ?ins] by (auto split: if_splits)
qed

definition overlapping :: "acquire_node set \<Rightarrow> bool" where
  "overlapping A = (\<forall>a\<in>A. \<forall>b\<in>A. getRootAlloc a = getRootAlloc b \<longrightarrow> estimateOverlap a b \<noteq> Disjoint)"

lemma found_definition:
  assumes "overlapping A" "a \<in> A" "c \<in> A" "getRootAlloc a = k" "getRootAlloc c = k" "a \<in> wset E k"
  shows "a \<in> set (findDefinitions c E)"
proof -
  have "estimateOverlap a c \<noteq> Disjoint" using assms by (simp add: overlapping_def)
  moreover have "\<not> different_roots a c"
    using assms(4,5) by (auto simp: different_roots_def split: option.splits)
  ultimately show ?thesis using assms(5,6)
    by (auto simp: findDefinitions_def classifyAlias_def wset_def split: overlap_kind.splits)
qed

lemma processEdt_needs:
  assumes "processEdt e E deps = (E', c, deps')" "holds A S E" "overlapping A"
    "set (acquires e) \<subseteq> A" "\<forall>a\<in>set (acquires e). getEdtUser a = Some (edt_op_id e)"
  shows "needs S e \<subseteq> (ordered deps')\<^sup>="
proof -
  let ?ins = "filter (\<lambda>a. reads_mode (getMode a)) (acquires e)"
  let ?outs = "filter (\<lambda>a. writes_mode (getMode a)) (acquires e)"
  let ?d1 = "fold (raw_step E) ?ins deps"
  obtain E2 c2 d2 where f2: "fold waw_step ?outs (E, False, ?d1) = (E2, c2, d2)"
    by (metis prod_cases3)
  obtain E3 d3 where f3: "fold war_step ?outs (E2, d2) = (E3, d3)" by (metis surj_pair)
  have d: "deps' = d3" using assms(1) by (auto simp: processEdt_def Let_def f2 f3 split: if_splits)
  have mono: "ordered ?d1 \<subseteq> ordered d2" "ordered d2 \<subseteq> ordered d3"
    using waw_fold [OF f2] war_fold [OF f3] by (auto intro!: ordered_mono)
  have waw: "(f, edt_op_id e) \<in> (ordered d3)\<^sup>="
    if a: "last_writer S k = Some a" "getEdtUser a = Some f" and ne: "outputs_on e k \<noteq> [] \<or> inputs_on e k \<noteq> []"
    for f k a
  proof (cases "inputs_on e k = []")
    case False
    then obtain q where q: "q \<in> set (inputs_on e k)" by (metis list.set_intros(1) list.exhaust)
    have h: "a \<in> wset E k" "a \<in> A" "getRootAlloc a = k" "writes_mode (getMode a)"
      using assms(2) a(1) by (auto simp: holds_def)
    have qq: "q \<in> set ?ins" "q \<in> A" "getRootAlloc q = k" "getEdtUser q = Some (edt_op_id e)"
      using q assms(4,5) by (auto simp: inputs_on_def)
    have "(f, edt_op_id e) \<in> (ordered ?d1)\<^sup>="
      by (rule raw_fold_edge [OF qq(1) found_definition [OF assms(3) h(2) qq(2) h(3) qq(3) h(1)] _ a(2) qq(4)])
         (use h qq in \<open>auto simp: classifyDep_def\<close>)
    then show ?thesis using mono by auto
  next
    case True
    then obtain w rest where w: "outputs_on e k = w # rest" using ne by (metis list.exhaust)
    then have "w \<in> set (outputs_on e k)" by simp
    then have ww: "w \<in> A" "getRootAlloc w = k" "getEdtUser w = Some (edt_op_id e)" "writes_mode (getMode w)"
      "w \<in> set (acquires e)"
      using assms(4,5) by (auto simp: outputs_on_def)
    then have "\<not> reads_mode (getMode w)" using True by (auto simp: inputs_on_def filter_empty_conv)
    moreover have h: "a \<in> wset E k" "a \<in> A" "getRootAlloc a = k" "writes_mode (getMode a)"
      using assms(2) a(1) by (auto simp: holds_def)
    ultimately have "classifyDep a w = Some WAW" using ww by (simp add: classifyDep_def)
    then have "(f, edt_op_id e) \<in> (ordered d2)\<^sup>="
      by (rule waw_fold_edge [OF f2 w [folded last_output_outputs]
            found_definition [OF assms(3) h(2) ww(1) h(3) ww(2) h(1)] _ a(2) ww(3)])
    then show ?thesis using mono by auto
  qed
  have war: "(f, edt_op_id e) \<in> (ordered d3)\<^sup>="
    if a: "a \<in> readers_since S k" "getEdtUser a = Some f" "getMode a = ModeIn" and ne: "outputs_on e k \<noteq> []" for f k a
  proof -
    obtain w rest where w: "outputs_on e k = w # rest" using ne by (metis list.exhaust)
    then have "w \<in> set (outputs_on e k)" by simp
    then have ww: "getRootAlloc w = k" "getEdtUser w = Some (edt_op_id e)" "writes_mode (getMode w)"
      using assms(4,5) by (auto simp: outputs_on_def)
    have "a \<in> rset E k" "getRootAlloc a = k" using assms(2) a(1) by (auto simp: holds_def)
    then have "a \<in> rset E2 k" "classifyDep a w = Some WAR"
      using waw_fold [OF f2] ww a(3) by (auto simp: rset_def classifyDep_def writes_mode_def reads_mode_def)
    then show ?thesis
      using war_fold_edge [OF f3 w [folded last_output_outputs] _ _ a(2) ww(2)] by blast
  qed
  show ?thesis using waw war unfolding needs_def d by blast
qed

lemma processEdt_holds:
  assumes "processEdt e E deps = (E', c, deps')" "holds A S E" "set (acquires e) \<subseteq> A" "\<not> isSync e"
  shows "holds A (after_task e S) E'"
proof -
  have l: "last (outputs_on e k) \<in> set (outputs_on e k)" if "outputs_on e k \<noteq> []" for k
    using that by simp
  show ?thesis
    using assms(2,3,4) l
    by (auto simp: holds_def after_task_def processEdt_sets [OF assms(1)] outputs_on_def inputs_on_def
        split: if_splits)
qed

subsection \<open>The environment after a region\<close>

lemma entry_Cons: "entry ((k, v) # m) j = (if j = k then v else entry m j)"
  by (simp add: entry_def)

lemma union_map_sets:
  "union_map target source = (m, c) \<Longrightarrow> distinct (map fst source) \<Longrightarrow>
     set (entry m k) = set (entry target k) \<union> set (entry source k) \<and>
     (\<not> c \<longrightarrow> (\<forall>k. set (entry source k) \<subseteq> set (entry target k)))"
proof (induction source arbitrary: target m c)
  case Nil
  then show ?case by (simp add: entry_def)
next
  case (Cons x rest)
  obtain j acqs where x: "x = (j, acqs)" by force
  let ?defs = "entry target j"
  let ?t = "AList.update j (fold insert_new acqs ?defs) target"
  obtain m1 c1 where u: "union_map ?t rest = (m1, c1)" by (metis surj_pair)
  have mc: "m = m1" "c = (fold insert_new acqs ?defs \<noteq> ?defs \<or> c1)"
    using Cons.prems(1) by (auto simp: x u Let_def)
  have ih: "set (entry m1 k) = set (entry ?t k) \<union> set (entry rest k)"
    "\<not> c1 \<Longrightarrow> set (entry rest i) \<subseteq> set (entry ?t i)" for i
    using Cons.IH [OF u] Cons.prems(2) by (auto simp: x)
  have "map_of rest j = None" using Cons.prems(2) by (simp add: x map_of_eq_None_iff)
  then have j: "entry rest j = []" by (simp add: entry_def)
  have "set acqs \<subseteq> set ?defs" if "fold insert_new acqs ?defs = ?defs"
    using set_fold_insert_new [of acqs ?defs] that by (metis sup.cobounded2)
  moreover have "\<not> c1 \<Longrightarrow> i \<noteq> j \<Longrightarrow> set (entry rest i) \<subseteq> set (entry target i)" for i
    using ih(2) [of i] by simp
  ultimately show ?case using ih(1) j by (auto simp: x mc entry_Cons split: if_splits)
qed

definition proper :: "environment \<Rightarrow> bool" where
  "proper E = (distinct (map fst (env_writers E)) \<and> distinct (map fst (env_readers E)))"

lemma proper_empty [simp]: "proper empty_environment"
  by (simp add: proper_def empty_environment_def)

lemma union_map_distinct:
  "union_map target source = (m, c) \<Longrightarrow> distinct (map fst target) \<Longrightarrow> distinct (map fst m)"
  by (induction source arbitrary: target m c) (auto simp: Let_def distinct_update split: prod.splits)

lemma unionInto_sets:
  assumes "unionInto E F = (G, c)" "proper F"
  shows "wset G k = wset E k \<union> wset F k" "rset G k = rset E k \<union> rset F k"
    "\<not> c \<Longrightarrow> env_le F E" "proper E \<Longrightarrow> proper G"
proof -
  obtain ws c1 where w: "union_map (env_writers E) (env_writers F) = (ws, c1)" by (metis surj_pair)
  obtain rs c2 where r: "union_map (env_readers E) (env_readers F) = (rs, c2)" by (metis surj_pair)
  have g: "G = \<lparr>env_writers = ws, env_readers = rs\<rparr>" "c = (c1 \<or> c2)"
    using assms(1) by (simp_all add: unionInto_def w r)
  show "wset G k = wset E k \<union> wset F k" "rset G k = rset E k \<union> rset F k" "\<not> c \<Longrightarrow> env_le F E"
    using union_map_sets [OF w] union_map_sets [OF r] assms(2)
    by (auto simp: g wset_def rset_def env_le_def proper_def)
  show "proper E \<Longrightarrow> proper G"
    using union_map_distinct [OF w] union_map_distinct [OF r] by (simp add: g proper_def)
qed

text \<open>
  Every step of the analysis forgets what some roots held and adds acquires that do not
  depend on the environment, so two passes over a loop body reach the fixed point.
\<close>

definition gen_kill_form ::
  "(nat option \<Rightarrow> acquire_node set) \<Rightarrow> (nat option \<Rightarrow> bool) \<Rightarrow> (nat option \<Rightarrow> acquire_node set) \<Rightarrow> (nat option \<Rightarrow> bool) \<Rightarrow>
     (environment \<Rightarrow> dep_map \<Rightarrow> environment \<times> bool \<times> dep_map) \<Rightarrow> bool" where
  "gen_kill_form G K H L f \<longleftrightarrow>
     (\<forall>E d E' c d'. proper E \<longrightarrow> f E d = (E', c, d') \<longrightarrow>
        proper E' \<and> set d \<subseteq> set d' \<and>
        (\<forall>k. wset E' k = G k \<union> (if K k then {} else wset E k) \<and>
             rset E' k = H k \<union> (if L k then {} else rset E k)))"

definition gen_kill :: "(environment \<Rightarrow> dep_map \<Rightarrow> environment \<times> bool \<times> dep_map) \<Rightarrow> bool" where
  "gen_kill f \<longleftrightarrow> (\<exists>G K H L. gen_kill_form G K H L f)"

lemma gen_killI:
  assumes "\<And>E d E' c d' k. proper E \<Longrightarrow> f E d = (E', c, d') \<Longrightarrow>
     proper E' \<and> set d \<subseteq> set d' \<and> wset E' k = G k \<union> (if K k then {} else wset E k) \<and>
     rset E' k = H k \<union> (if L k then {} else rset E k)"
  shows "gen_kill f"
proof -
  have "gen_kill_form G K H L f" unfolding gen_kill_form_def using assms by blast
  then show ?thesis unfolding gen_kill_def by blast
qed

lemma gen_killD:
  assumes "gen_kill_form G K H L f" "proper E" "f E d = (E', c, d')"
  shows "proper E'" "set d \<subseteq> set d'" "wset E' k = G k \<union> (if K k then {} else wset E k)"
    "rset E' k = H k \<union> (if L k then {} else rset E k)"
  using assms unfolding gen_kill_form_def by blast+

lemma waw_proper: "fold waw_step ws (E, c, d) = (E', c', d') \<Longrightarrow> proper E \<Longrightarrow> proper E'"
proof (induction ws arbitrary: E c d)
  case (Cons w ws)
  obtain E1 c1 d1 where s: "waw_step w (E, c, d) = (E1, c1, d1)" by (metis prod_cases3)
  then have "proper E1" using Cons.prems(2)
    by (auto simp: waw_step_def Let_def proper_def distinct_update split: if_splits)
  then show ?case using Cons.IH [of E1 c1 d1] Cons.prems(1) s by simp
qed simp

lemma war_proper: "fold war_step ws (E, d) = (E', d') \<Longrightarrow> proper E \<Longrightarrow> proper E'"
proof (induction ws arbitrary: E d)
  case (Cons w ws)
  obtain E1 d1 where s: "war_step w (E, d) = (E1, d1)" by (metis surj_pair)
  then have "proper E1" using Cons.prems(2)
    by (auto simp: war_step_def Let_def proper_def distinct_update split: if_splits)
  then show ?case using Cons.IH [of E1 d1] Cons.prems(1) s by simp
qed simp

lemma reader_proper: "proper E \<Longrightarrow> proper (fold add_reader rs E)"
  by (induction rs arbitrary: E) (auto simp: add_reader_def proper_def distinct_update)

lemma processEdt_proper: "processEdt e E d = (E', c, d') \<Longrightarrow> proper E \<Longrightarrow> proper E'"
  by (auto simp: processEdt_def Let_def intro!: reader_proper split: prod.splits if_splits
      dest: waw_proper war_proper)

lemma gen_kill_edt: "gen_kill (processEdt e)"
proof (rule gen_killI)
  fix E d E' c d' k
  assume p: "proper E" and r: "processEdt e E d = (E', c, d')"
  show "proper E' \<and> set d \<subseteq> set d' \<and>
      wset E' k = (if isSync e \<or> outputs_on e k = [] then {} else {last (outputs_on e k)}) \<union>
                  (if isSync e \<or> outputs_on e k \<noteq> [] then {} else wset E k) \<and>
      rset E' k = (if isSync e then {} else set (inputs_on e k)) \<union>
                  (if isSync e \<or> outputs_on e k \<noteq> [] then {} else rset E k)"
    using processEdt_sets [OF r] processEdt_proper [OF r p] by auto
qed

lemma processFor_sets:
  assumes gk: "gen_kill_form G K H L body"
  shows "processFor body n E d = (E', c, d') \<Longrightarrow> proper E \<Longrightarrow>
     proper E' \<and> set d \<subseteq> set d' \<and> wset E' k = (if n = 0 then {} else G k) \<union> wset E k \<and>
     rset E' k = (if n = 0 then {} else H k) \<union> rset E k"
proof (induction n arbitrary: E d E' c d')
  case (Suc n)
  obtain F fc d1 where b: "body E d = (F, fc, d1)" by (metis prod_cases3)
  obtain E1 uc where u: "unionInto E F = (E1, uc)" by (metis surj_pair)
  note g = gen_killD [OF gk Suc.prems(2) b]
  note s = unionInto_sets [OF u g(1)]
  have e1: "wset E1 k = G k \<union> wset E k" "rset E1 k = H k \<union> rset E k" "proper E1"
    using s(1,2) [of k] s(4) [OF Suc.prems(2)] g(3,4) [of k] by auto
  show ?case
  proof (cases "\<not> fc \<and> \<not> uc")
    case True
    then show ?thesis using Suc.prems(1) e1 g(2) by (auto simp: b u)
  next
    case False
    obtain E2 c2 d2 where r: "processFor body n E1 d1 = (E2, c2, d2)" by (metis prod_cases3)
    then have e: "E' = E2" "d' = d2" using Suc.prems(1) False by (auto simp: b u)
    show ?thesis using Suc.IH [OF r e1(3)] e1 g(2) unfolding e by simp blast
  qed
qed simp

lemma env_le_refl [simp]: "env_le E E"
  by (simp add: env_le_def)

lemma env_le_trans: "env_le E F \<Longrightarrow> env_le F G \<Longrightarrow> env_le E G"
  unfolding env_le_def by (meson subset_trans)

text \<open>Within \<open>maxIterations\<close> passes one pass starts from an environment it does not enlarge.\<close>

lemma processFor_fixpoint:
  assumes gk: "gen_kill_form G K H L body"
    and run: "processFor body (Suc (Suc n)) E d = (E', c, d')" and p: "proper E"
  shows "\<exists>M D F fc D'. proper M \<and> body M D = (F, fc, D') \<and> env_le E M \<and> env_le F M \<and> env_le M E' \<and> set D' \<subseteq> set d'"
proof -
  obtain F fc d1 where b: "body E d = (F, fc, d1)" by (metis prod_cases3)
  obtain E1 uc where u: "unionInto E F = (E1, uc)" by (metis surj_pair)
  note g = gen_killD [OF gk p b]
  note s = unionInto_sets [OF u g(1)]
  show ?thesis
  proof (cases "\<not> fc \<and> \<not> uc")
    case True
    then have e: "E' = E1" "d' = d1" using run by (auto simp: b u)
    have "env_le F E" using s(3) True by simp
    moreover have "env_le E E1" using s(1,2) by (auto simp: env_le_def)
    ultimately show ?thesis using p b env_le_refl e by blast
  next
    case False
    have p1: "proper E1" using s(4) [OF p] .
    obtain F1 fc1 d2 where b1: "body E1 d1 = (F1, fc1, d2)" by (metis prod_cases3)
    note g1 = gen_killD [OF gk p1 b1]
    have le: "env_le E E1" "env_le F1 E1"
      using s(1,2) g(3,4) g1(3,4) by (auto simp: env_le_def)
    obtain E2 c2 d3 where r: "processFor body (Suc n) E1 d1 = (E2, c2, d3)" by (metis prod_cases3)
    have e: "E' = E2" "d' = d3" using run [unfolded processFor.simps(2) [of body "Suc n" E d]] False
      unfolding b u prod.case Let_def r by (auto split: if_splits)
    have sub: "env_le E1 E2" using processFor_sets [OF gk r p1] by (auto simp: env_le_def)
    obtain E3 uc1 where u1: "unionInto E1 F1 = (E3, uc1)" by (metis surj_pair)
    have p3: "proper E3" using unionInto_sets(4) [OF u1 g1(1) p1] .
    have "set d2 \<subseteq> set d3"
    proof (cases "\<not> fc1 \<and> \<not> uc1")
      case True
      then show ?thesis using r by (auto simp: b1 u1)
    next
      case False
      obtain E4 c4 d4 where r1: "processFor body n E3 d2 = (E4, c4, d4)" by (metis prod_cases3)
      then have "d3 = d4" using r False by (auto simp: b1 u1)
      then show ?thesis using processFor_sets [OF gk r1 p3] by blast
    qed
    then show ?thesis using p1 b1 le sub e by blast
  qed
qed

lemma gen_kill_id: "gen_kill (\<lambda>E d. (E, False, d))"
  by (rule gen_killI [where G = "\<lambda>k. {}" and K = "\<lambda>k. False" and H = "\<lambda>k. {}" and L = "\<lambda>k. False"]) auto

lemma gen_kill_comp:
  assumes "gen_kill f" "gen_kill g"
  shows "gen_kill (\<lambda>E d. case f E d of (E1, c1, d1) \<Rightarrow> (case g E1 d1 of (E2, c2, d2) \<Rightarrow> (E2, c1 \<or> c2, d2)))"
proof -
  obtain G K H L G' K' H' L' where f: "gen_kill_form G K H L f" and g: "gen_kill_form G' K' H' L' g"
    using assms by (auto simp: gen_kill_def)
  show ?thesis
  proof (rule gen_killI)
    fix E d E' c d' k
    assume p: "proper E"
      and r: "(case f E d of (E1, c1, d1) \<Rightarrow> (case g E1 d1 of (E2, c2, d2) \<Rightarrow> (E2, c1 \<or> c2, d2))) = (E', c, d')"
    obtain E1 c1 d1 where r1: "f E d = (E1, c1, d1)" by (metis prod_cases3)
    obtain E2 c2 d2 where r2: "g E1 d1 = (E2, c2, d2)" by (metis prod_cases3)
    have e: "E' = E2" "d' = d2" using r by (auto simp: r1 r2)
    note f1 = gen_killD [OF f p r1] 
    note g1 = gen_killD [OF g f1(1) r2]
    show "proper E' \<and> set d \<subseteq> set d' \<and>
       wset E' k = (G' k \<union> (if K' k then {} else G k)) \<union> (if K k \<or> K' k then {} else wset E k) \<and>
       rset E' k = (H' k \<union> (if L' k then {} else H k)) \<union> (if L k \<or> L' k then {} else rset E k)"
      using f1(2) f1(3,4) [of k] g1(1,2) g1(3,4) [of k] by (auto simp: e)
  qed
qed

lemma gen_kill_epoch:
  assumes "gen_kill f"
  shows "gen_kill (\<lambda>E d. case f E d of (E1, c1, d1) \<Rightarrow> (empty_environment, c1, d1))"
proof -
  obtain G K H L where f: "gen_kill_form G K H L f" using assms by (auto simp: gen_kill_def)
  show ?thesis
  proof (rule gen_killI)
    fix E d E' c d' k
    assume p: "proper E" and r: "(case f E d of (E1, c1, d1) \<Rightarrow> (empty_environment, c1, d1)) = (E', c, d')"
    obtain E1 c1 d1 where r1: "f E d = (E1, c1, d1)" by (metis prod_cases3)
    have "E' = empty_environment" "d' = d1" using r by (simp_all add: r1)
    then show "proper E' \<and> set d \<subseteq> set d' \<and> wset E' k = {} \<union> (if True then {} else wset E k) \<and>
        rset E' k = {} \<union> (if True then {} else rset E k)"
      using gen_killD(2) [OF f p r1]
      by simp (simp add: empty_environment_def wset_def rset_def entry_def)
  qed
qed

lemma gen_kill_if:
  assumes "gen_kill f" "gen_kill g"
  shows "gen_kill (\<lambda>E d. case f E d of (E1, c1, d1) \<Rightarrow>
      (case g E d1 of (E2, c2, d2) \<Rightarrow> (case unionInto E1 E2 of (M, m) \<Rightarrow> (M, c1 \<or> c2 \<or> m, d2))))"
proof -
  obtain G K H L G' K' H' L' where f: "gen_kill_form G K H L f" and g: "gen_kill_form G' K' H' L' g"
    using assms by (auto simp: gen_kill_def)
  show ?thesis
  proof (rule gen_killI)
    fix E d E' c d' k
    assume p: "proper E"
      and r: "(case f E d of (E1, c1, d1) \<Rightarrow>
      (case g E d1 of (E2, c2, d2) \<Rightarrow> (case unionInto E1 E2 of (M, m) \<Rightarrow> (M, c1 \<or> c2 \<or> m, d2)))) = (E', c, d')"
    obtain E1 c1 d1 where r1: "f E d = (E1, c1, d1)" by (metis prod_cases3)
    obtain E2 c2 d2 where r2: "g E d1 = (E2, c2, d2)" by (metis prod_cases3)
    obtain M m where u: "unionInto E1 E2 = (M, m)" by (metis surj_pair)
    have e: "E' = M" "d' = d2" using r by (auto simp: r1 r2 u)
    note f1 = gen_killD [OF f p r1] and g1 = gen_killD [OF g p r2]
    note s = unionInto_sets [OF u g1(1)]
    show "proper E' \<and> set d \<subseteq> set d' \<and>
       wset E' k = (G k \<union> G' k) \<union> (if K k \<and> K' k then {} else wset E k) \<and>
       rset E' k = (H k \<union> H' k) \<union> (if L k \<and> L' k then {} else rset E k)"
      using f1(2) f1(3,4) [of k] g1(2) g1(3,4) [of k] s(1,2) [of k] s(4) [OF f1(1)] by (auto simp: e)
  qed
qed

lemma gen_kill_for:
  assumes "gen_kill f"
  shows "gen_kill (processFor f maxIterations)"
proof -
  obtain G K H L where f: "gen_kill_form G K H L f" using assms by (auto simp: gen_kill_def)
  show ?thesis
  proof (rule gen_killI)
    fix E d E' c d' k
    assume "proper E" "processFor f maxIterations E d = (E', c, d')"
    then show "proper E' \<and> set d \<subseteq> set d' \<and> wset E' k = G k \<union> (if False then {} else wset E k) \<and>
        rset E' k = H k \<union> (if False then {} else rset E k)"
      using processFor_sets [OF f, of maxIterations E d E' c d' k] by (simp add: maxIterations_def)
  qed
qed

lemma gen_kill_region:
  fixes E :: environment and d :: dep_map
  shows "gen_kill (processOp x)" "gen_kill (processRegion xs)"
proof (induction x E d and xs E d rule: processOp_processRegion.induct)
  case (1 edt E deps)
  have "processOp (EdtTask edt) = processEdt edt" by (intro ext) simp
  then show ?case by (simp add: gen_kill_edt)
next
  case (2 body E deps)
  have "processOp (EpochRegion body) =
      (\<lambda>E d. case processRegion body E d of (E1, c1, d1) \<Rightarrow> (empty_environment, c1, d1))"
    by (intro ext) simp
  then show ?case using gen_kill_epoch [OF 2] by simp
next
  case (3 thens elses E deps)
  let ?e = "\<lambda>E d. case elses of None \<Rightarrow> (E, False, d) | Some es \<Rightarrow> processRegion es E d"
  have e: "gen_kill ?e"
  proof (cases elses)
    case None
    then show ?thesis by (simp add: gen_kill_id)
  next
    case (Some es)
    obtain a b c where "processRegion thens E deps = (a, b, c)" by (metis prod_cases3)
    then have "gen_kill (processRegion es)" using 3 Some by metis
    then show ?thesis by (simp add: Some)
  qed
  have "processOp (IfRegion thens elses) = (\<lambda>E d. case processRegion thens E d of (E1, c1, d1) \<Rightarrow>
      (case ?e E d1 of (E2, c2, d2) \<Rightarrow> (case unionInto E1 E2 of (M, m) \<Rightarrow> (M, c1 \<or> c2 \<or> m, d2))))"
    by (intro ext) simp
  then show ?case using gen_kill_if [OF _ e] 3 by simp
next
  case (4 body E deps)
  have "processOp (ForRegion body) = processFor (processRegion body) maxIterations" by (intro ext) simp
  then show ?case using gen_kill_for 4 by simp
next
  case (5 E deps)
  have "processOp OtherRegionOp = (\<lambda>E d. (E, False, d))" by (intro ext) simp
  then show ?case by (simp add: gen_kill_id)
next
  case (6 E deps)
  have "processRegion [] = (\<lambda>E d. (E, False, d))" by (intro ext) simp
  then show ?case by (simp add: gen_kill_id)
next
  case (7 x xs E deps)
  have *: "processRegion (x # xs) = (\<lambda>E d. case processOp x E d of (E1, c1, d1) \<Rightarrow>
      (case processRegion xs E1 d1 of (E2, c2, d2) \<Rightarrow> (E2, c1 \<or> c2, d2)))"
    by (intro ext) simp
  obtain a b c where "processOp x E deps = (a, b, c)" by (metis prod_cases3)
  then have "gen_kill (processRegion xs)" using 7 by metis
  then show ?case using gen_kill_comp 7(1) * by simp
qed

subsection \<open>Every task sequence is covered\<close>

lemma region_mono:
  "proper E \<Longrightarrow> processRegion xs E d = (E', c, d') \<Longrightarrow> proper E' \<and> set d \<subseteq> set d'"
  "proper E \<Longrightarrow> processOp x E d = (E', c, d') \<Longrightarrow> proper E' \<and> set d \<subseteq> set d'"
  using gen_kill_region gen_killD(1,2) unfolding gen_kill_def by metis+

definition tasks_in :: "acquire_node set \<Rightarrow> edt_task list \<Rightarrow> bool" where
  "tasks_in A es = (\<forall>e\<in>set es. set (acquires e) \<subseteq> A \<and> (\<forall>a\<in>set (acquires e). getEdtUser a = Some (edt_op_id e)))"

lemma tasks_in_append [simp]: "tasks_in A (es @ fs) \<longleftrightarrow> tasks_in A es \<and> tasks_in A fs"
  by (auto simp: tasks_in_def)

lemma tasks_in_single: "tasks_in A [e] \<longleftrightarrow>
    set (acquires e) \<subseteq> A \<and> (\<forall>a\<in>set (acquires e). getEdtUser a = Some (edt_op_id e))"
  by (simp add: tasks_in_def)

lemma analysis_covers:
  assumes A: "overlapping A"
  shows "run_op x t \<Longrightarrow> tasks_in A (tasks x) \<Longrightarrow> holds A S E \<Longrightarrow> proper E \<Longrightarrow> processOp x E d = (E', c, d') \<Longrightarrow>
      holds A (after_events S t) E' \<and> covers (ordered d') S t"
    and "run_ops xs t \<Longrightarrow> tasks_in A (concat (map tasks xs)) \<Longrightarrow> holds A S E \<Longrightarrow> proper E \<Longrightarrow>
      processRegion xs E d = (E', c, d') \<Longrightarrow> holds A (after_events S t) E' \<and> covers (ordered d') S t"
    and "run_loop b t \<Longrightarrow> tasks_in A (concat (map tasks b)) \<Longrightarrow> holds A S E \<Longrightarrow> proper E \<Longrightarrow>
      processRegion b E d = (E', c, d') \<Longrightarrow> env_le E' E \<Longrightarrow>
      holds A (after_events S t) E \<and> covers (ordered d') S t"
proof (induction arbitrary: S E d E' c d' and S E d E' c d' and S E d E' c d' rule: run_op_run_ops_run_loop.inducts)
  case (task e)
  have t: "set (acquires e) \<subseteq> A" "\<forall>a\<in>set (acquires e). getEdtUser a = Some (edt_op_id e)"
    using task.prems(1) by (simp_all add: tasks_in_single)
  have r: "processEdt e E d = (E', c, d')" using task.prems(4) by simp
  show ?case
    using processEdt_needs [OF r task.prems(2) A t] processEdt_holds [OF r task.prems(2) t(1)] by auto
next
  case (epoch b t)
  obtain E1 where "processRegion b E d = (E1, c, d')" using epoch.prems(4) by (auto split: prod.splits)
  then have "covers (ordered d') S t" using epoch.IH [of S E d E1 c d'] epoch.prems by auto
  then show ?case by (simp add: after_events_append covers_append)
next
  case (if_then b t c')
  obtain E1 c1 d1 where r1: "processRegion b E d = (E1, c1, d1)" by (metis prod_cases3)
  obtain E2 c2 d2 where r2: "(case c' of None \<Rightarrow> (E, False, d1) | Some es \<Rightarrow> processRegion es E d1) = (E2, c2, d2)"
    by (metis prod_cases3)
  obtain M m where u: "unionInto E1 E2 = (M, m)" by (metis surj_pair)
  have e: "E' = M" "d' = d2" using if_then.prems(4) by (auto simp: r1 r2 u)
  have p2: "proper E2" "set d1 \<subseteq> set d2"
    using r2 if_then.prems(3) region_mono(1) [OF if_then.prems(3)] by (auto split: option.splits)
  have ih: "holds A (after_events S t) E1" "covers (ordered d1) S t"
    using if_then.IH [OF _ if_then.prems(2,3) r1] if_then.prems(1) by auto
  have "env_le E1 M" using unionInto_sets(1,2) [OF u p2(1)] by (auto simp: env_le_def)
  then show ?case using holds_mono [OF ih(1)] covers_mono [OF ih(2) ordered_mono [OF p2(2)]] by (simp add: e)
next
  case (if_else c' t b)
  obtain E1 c1 d1 where r1: "processRegion b E d = (E1, c1, d1)" by (metis prod_cases3)
  obtain E2 c2 d2 where r2: "processRegion c' E d1 = (E2, c2, d2)" by (metis prod_cases3)
  obtain M m where u: "unionInto E1 E2 = (M, m)" by (metis surj_pair)
  have e: "E' = M" "d' = d2" using if_else.prems(4) by (auto simp: r1 r2 u)
  have ih: "holds A (after_events S t) E2" "covers (ordered d2) S t"
    using if_else.IH [OF _ if_else.prems(2,3) r2] if_else.prems(1) by auto
  have "env_le E2 M"
    using unionInto_sets(1,2) [OF u] region_mono(1) [OF if_else.prems(3) r2] by (auto simp: env_le_def)
  then show ?case using holds_mono [OF ih(1)] ih(2) by (simp add: e)
next
  case (if_skip b)
  obtain E1 c1 d1 where r1: "processRegion b E d = (E1, c1, d1)" by (metis prod_cases3)
  obtain M m where u: "unionInto E1 E = (M, m)" by (metis surj_pair)
  have "E' = M" using if_skip.prems(4) by (auto simp: r1 u)
  moreover have "env_le E M" using unionInto_sets(1,2) [OF u if_skip.prems(3)] by (auto simp: env_le_def)
  ultimately show ?case using holds_mono [OF if_skip.prems(2)] by simp
next
  case (for_loop b t)
  obtain G K H L where gk: "gen_kill_form G K H L (processRegion b)"
    using gen_kill_region(2) [of b] unfolding gen_kill_def by blast
  have "processFor (processRegion b) (Suc (Suc 3)) E d = (E', c, d')"
    using for_loop.prems(4) by (simp add: maxIterations_def numeral_eq_Suc)
  from processFor_fixpoint [OF gk this for_loop.prems(3)]
  obtain M D F fc D' where m: "proper M" "processRegion b M D = (F, fc, D')" "env_le E M" "env_le F M"
    "env_le M E'" "set D' \<subseteq> set d'" by blast
  have "holds A (after_events S t) M" "covers (ordered D') S t"
    using for_loop.IH [OF _ holds_mono [OF for_loop.prems(2) m(3)] m(1,2,4)] for_loop.prems(1) by auto
  then show ?case using holds_mono m(5) covers_mono ordered_mono [OF m(6)] by blast
next
  case other
  then show ?case by simp
next
  case nil
  then show ?case by simp
next
  case (cons x t xs u)
  obtain E1 c1 d1 where r1: "processOp x E d = (E1, c1, d1)" by (metis prod_cases3)
  obtain E2 c2 d2 where r2: "processRegion xs E1 d1 = (E2, c2, d2)" by (metis prod_cases3)
  have e: "E' = E2" "d' = d2" using cons.prems(4) by (auto simp: r1 r2)
  have t: "tasks_in A (tasks x)" "tasks_in A (concat (map tasks xs))" using cons.prems(1) by auto
  note ih1 = cons.IH(1) [OF t(1) cons.prems(2,3) r1]
  have p1: "proper E1" using region_mono(2) [OF cons.prems(3) r1] by simp
  note ih2 = cons.IH(2) [OF t(2) conjunct1 [OF ih1] p1 r2]
  have "covers (ordered d2) S t"
    using covers_mono [OF conjunct2 [OF ih1]] ordered_mono region_mono(1) [OF p1 r2] by blast
  then show ?case using ih2 by (simp add: e after_events_append covers_append)
next
  case (stop b)
  then show ?case by simp
next
  case (again b t u)
  have ih1: "holds A (after_events S t) E'" "covers (ordered d') S t"
    using again.IH(1) [OF again.prems(1-4)] by simp_all
  note ih2 = again.IH(2) [OF again.prems(1) holds_mono [OF ih1(1) again.prems(5)] again.prems(3-5)]
  show ?case using ih1 ih2 by (simp add: after_events_append covers_append)
qed

subsection \<open>The dependences of a function\<close>

text \<open>
  \<open>run\<close>: the recorded edges grouped by task pair, ordered by the positions of the two tasks in
  the walk of the function.
\<close>

definition run_dataflow :: "(nat \<Rightarrow> nat) \<Rightarrow> region_op list \<Rightarrow> (nat \<times> nat \<times> db_edge list) list" where
  "run_dataflow opOrder body =
     (let (env, changed, deps) = processRegion body empty_environment [];
          keys = sort_key (\<lambda>(f, u). (opOrder f, opOrder u)) (remdups (map (\<lambda>(f, u, x). (f, u)) deps))
      in map (\<lambda>(f, u). (f, u, map (\<lambda>(a, b, x). x) (filter (\<lambda>(a, b, x). a = f \<and> b = u) deps)))
           (filter (\<lambda>(f, u). f \<noteq> u) keys))"

definition dependences :: "(nat \<times> nat \<times> db_edge list) list \<Rightarrow> (nat \<times> nat) set" where
  "dependences result = {(f, u). \<exists>es. (f, u, es) \<in> set result}"

lemma dependences_run:
  "processRegion body empty_environment [] = (E, c, deps) \<Longrightarrow>
     dependences (run_dataflow opOrder body) = ordered deps - Id"
  by (force simp: dependences_def run_dataflow_def ordered_def)

lemma event_tasks:
  "run_op x t \<Longrightarrow> Run e \<in> set t \<Longrightarrow> e \<in> set (tasks x)"
  "run_ops xs t \<Longrightarrow> Run e \<in> set t \<Longrightarrow> e \<in> set (concat (map tasks xs))"
  "run_loop xs t \<Longrightarrow> Run e \<in> set t \<Longrightarrow> e \<in> set (concat (map tasks xs))"
  by (induction rule: run_op_run_ops_run_loop.inducts) (auto split: if_splits)

definition owned :: "edt_task \<Rightarrow> bool" where
  "owned e = (\<forall>a\<in>set (acquires e). getEdtUser a = Some (edt_op_id e))"

text \<open>A write stays ordered before the last writer, a read before the last writer or among the readers.\<close>

definition before_writer :: "(nat \<times> nat) set \<Rightarrow> nat \<Rightarrow> history \<Rightarrow> nat option \<Rightarrow> bool" where
  "before_writer R i S k = (\<exists>a f. last_writer S k = Some a \<and> getEdtUser a = Some f \<and> (i, f) \<in> R\<^sup>*)"

definition still_reading :: "nat \<Rightarrow> history \<Rightarrow> nat option \<Rightarrow> bool" where
  "still_reading i S k = (\<exists>a\<in>readers_since S k. getEdtUser a = Some i \<and> getMode a = ModeIn)"

lemma output_user: "owned e \<Longrightarrow> outputs_on e k \<noteq> [] \<Longrightarrow> getEdtUser (last (outputs_on e k)) = Some (edt_op_id e)"
proof -
  assume "owned e" "outputs_on e k \<noteq> []"
  then have "last (outputs_on e k) \<in> set (acquires e)"
    using last_in_set [of "outputs_on e k"] by (auto simp: outputs_on_def)
  then show ?thesis using \<open>owned e\<close> by (simp add: owned_def)
qed

lemma wrote: "owned e \<Longrightarrow> outputs_on e k \<noteq> [] \<Longrightarrow> before_writer R (edt_op_id e) (after_task e S) k"
  by (simp add: before_writer_def after_task_def output_user)

lemma read:
  assumes "owned e" "inputs_on e k \<noteq> []" "outputs_on e k = []"
  shows "still_reading (edt_op_id e) (after_task e S) k"
proof -
  obtain a where a: "a \<in> set (inputs_on e k)" using assms(2) by (metis list.set_intros(1) list.exhaust)
  then have "\<not> writes_mode (getMode a)" using assms(3) by (auto simp: inputs_on_def outputs_on_def filter_empty_conv)
  then have "getMode a = ModeIn" using a by (auto simp: inputs_on_def reads_mode_def writes_mode_def)
  moreover have "getEdtUser a = Some (edt_op_id e)" using a assms(1) by (auto simp: inputs_on_def owned_def)
  ultimately show ?thesis using a by (auto simp: still_reading_def after_task_def)
qed

lemma writer_orders:
  assumes "before_writer R i S k" "needs S e \<subseteq> R\<^sup>=" "outputs_on e k \<noteq> [] \<or> inputs_on e k \<noteq> []"
  shows "(i, edt_op_id e) \<in> R\<^sup>*"
proof -
  obtain a f where a: "last_writer S k = Some a" "getEdtUser a = Some f" "(i, f) \<in> R\<^sup>*"
    using assms(1) by (auto simp: before_writer_def)
  then have "(f, edt_op_id e) \<in> needs S e" using assms(3) by (auto simp: needs_def)
  then show ?thesis using assms(2) a(3) by (metis UnE pair_in_Id_conv rtrancl.rtrancl_into_rtrancl subsetD)
qed

lemma reader_orders:
  assumes "still_reading i S k" "needs S e \<subseteq> R\<^sup>=" "outputs_on e k \<noteq> []"
  shows "(i, edt_op_id e) \<in> R\<^sup>*"
proof -
  have "(i, edt_op_id e) \<in> needs S e" using assms(1,3) by (auto simp: still_reading_def needs_def)
  then show ?thesis using assms(2) by auto
qed

lemma before_writer_step:
  assumes "before_writer R i S k" "needs S e \<subseteq> R\<^sup>=" "owned e"
  shows "before_writer R i (after_task e S) k"
proof (cases "outputs_on e k = []")
  case True
  then show ?thesis using assms(1) by (simp add: before_writer_def after_task_def)
next
  case False
  then show ?thesis using writer_orders [OF assms(1,2)] output_user [OF assms(3) False]
    by (auto simp: before_writer_def after_task_def)
qed

lemma still_reading_step:
  assumes "still_reading i S k" "needs S e \<subseteq> R\<^sup>=" "owned e"
  shows "still_reading i (after_task e S) k \<or> before_writer R i (after_task e S) k"
proof (cases "outputs_on e k = []")
  case True
  then show ?thesis using assms(1) by (auto simp: still_reading_def after_task_def)
next
  case False
  then show ?thesis using reader_orders [OF assms(1,2)] output_user [OF assms(3) False]
    by (auto simp: before_writer_def after_task_def)
qed

lemma ordered_by_path:
  assumes "covers R S (t @ Run b # u)" "Wait \<notin> set t" "\<forall>e. Run e \<in> set t \<longrightarrow> owned e"
    "before_writer R i S k \<and> (outputs_on b k \<noteq> [] \<or> inputs_on b k \<noteq> []) \<or>
     still_reading i S k \<and> outputs_on b k \<noteq> []"
  shows "(i, edt_op_id b) \<in> R\<^sup>*"
  using assms
proof (induction t arbitrary: S)
  case Nil
  then show ?case using writer_orders [of R i S k b] reader_orders [of i S k b R] by auto
next
  case (Cons ev t)
  obtain e where e: "ev = Run e" using Cons.prems(2) by (cases ev) auto
  have n: "needs S e \<subseteq> R\<^sup>=" "owned e" "covers R (after_task e S) (t @ Run b # u)"
    using Cons.prems(1,3) by (auto simp: e)
  have "before_writer R i (after_task e S) k \<and> (outputs_on b k \<noteq> [] \<or> inputs_on b k \<noteq> []) \<or>
     still_reading i (after_task e S) k \<and> outputs_on b k \<noteq> []"
    using Cons.prems(4) before_writer_step [OF _ n(1,2)] still_reading_step [OF _ n(1,2)] by blast
  then show ?case using Cons.IH [OF n(3)] Cons.prems(2,3) by auto
qed

text \<open>
  C1: The dependences cover every conflict. Whenever a run of the function body starts task
  \<open>a\<close>, later task \<open>b\<close> with no wait in between, and one of them writes a datablock the other
  accesses, the analysis leaves a path of dependences from \<open>a\<close> to \<open>b\<close>, whatever branches
  were taken and however often loops ran. This assumes that every acquire belongs to the task
  it is a dependence of, and that acquires of the same datablock are never proved disjoint.
  The tasks are those of the body, its conditionals and its \<open>scf.for\<close> loops; regions of other
  operations are not walked into.
\<close>

theorem dependences_cover_conflicts:
  assumes "run_ops body (t @ Run a # u @ Run b # v)" "Wait \<notin> set u" "conflicting a b"
    "acquires_owned (concat (map tasks body))" "never_disjoint (concat (map tasks body))"
  shows "(edt_op_id a, edt_op_id b) \<in> (dependences (run_dataflow opOrder body))\<^sup>*"
proof -
  let ?es = "concat (map tasks body)"
  let ?A = "\<Union>e\<in>set ?es. set (acquires e)"
  obtain E c deps where r: "processRegion body empty_environment [] = (E, c, deps)" by (metis prod_cases3)
  let ?R = "ordered deps"
  have A: "overlapping ?A" "tasks_in ?A ?es"
    using assms(4,5) by (auto simp: overlapping_def never_disjoint_def tasks_in_def acquires_owned_def)
  have cov: "covers ?R idle (t @ Run a # u @ Run b # v)"
    using analysis_covers(2) [OF A(1) assms(1) A(2) holds_idle proper_empty r] by simp
  have own: "owned e" if "Run e \<in> set (t @ Run a # u @ Run b # v)" for e
    using event_tasks(2) [OF assms(1) that] assms(4) unfolding owned_def acquires_owned_def by blast
  have ow: "owned a" "\<forall>e. Run e \<in> set u \<longrightarrow> owned e" using own by simp_all
  let ?S = "after_task a (after_events idle t)"
  have c: "covers ?R ?S (u @ Run b # v)" using cov by (simp add: covers_append)
  obtain k where k: "outputs_on a k \<noteq> [] \<and> outputs_on b k \<noteq> [] \<or> outputs_on a k \<noteq> [] \<and> inputs_on b k \<noteq> [] \<or>
          inputs_on a k \<noteq> [] \<and> outputs_on b k \<noteq> []"
    using assms(3) by (auto simp: conflicting_def)
  then have "before_writer ?R (edt_op_id a) ?S k \<and> (outputs_on b k \<noteq> [] \<or> inputs_on b k \<noteq> []) \<or>
     still_reading (edt_op_id a) ?S k \<and> outputs_on b k \<noteq> []"
    using wrote [OF ow(1)] read [OF ow(1)] by blast
  from ordered_by_path [OF c assms(2) ow(2) this]
  have "(edt_op_id a, edt_op_id b) \<in> ?R\<^sup>*" .
  moreover have "(?R - Id)\<^sup>* = ?R\<^sup>*" by (rule rtrancl_r_diff_Id)
  ultimately show ?thesis by (simp add: dependences_run [OF r])
qed

text \<open>A loop whose second task reads what the first wrote in the same pass and the first
  overwrites in the next.\<close>

definition sample_acquire :: "nat \<Rightarrow> nat \<Rightarrow> arts_mode \<Rightarrow> nat \<Rightarrow> val list \<Rightarrow> acquire_node" where
  "sample_acquire i r m u block =
     \<lparr>node_op = i, getRootAlloc = Some r, getMode = m, getEdtUser = Some u, getOffsets = block,
      getSizes = map (\<lambda>v. index_const 0 1) block, getPartitionOffsets = [], getPartitionSizes = []\<rparr>"

definition sample_writer :: edt_task where
  "sample_writer = \<lparr>edt_op_id = 10, isSync = False, acquires = [sample_acquire 1 0 ModeOut 10 []]\<rparr>"

definition sample_reader :: edt_task where
  "sample_reader = \<lparr>edt_op_id = 20, isSync = False, acquires = [sample_acquire 2 0 ModeIn 20 []]\<rparr>"

lemma dependences_cover_conflicts_witness:
  "(20, 10) \<in> (dependences (run_dataflow id [ForRegion [EdtTask sample_writer, EdtTask sample_reader]]))\<^sup>*"
proof -
  have pass: "run_ops [EdtTask sample_writer, EdtTask sample_reader] [Run sample_writer, Run sample_reader]"
    using run_op_run_ops_run_loop.cons [OF run_op_run_ops_run_loop.task [of sample_writer]
        run_op_run_ops_run_loop.cons [OF run_op_run_ops_run_loop.task [of sample_reader]
          run_op_run_ops_run_loop.nil]]
    by (simp add: sample_writer_def sample_reader_def)
  have "run_loop [EdtTask sample_writer, EdtTask sample_reader]
      ([Run sample_writer, Run sample_reader] @ [Run sample_writer, Run sample_reader] @ [])"
    by (intro run_op_run_ops_run_loop.again run_op_run_ops_run_loop.stop pass)
  from run_op_run_ops_run_loop.cons [OF run_op_run_ops_run_loop.for_loop [OF this] run_op_run_ops_run_loop.nil]
  have "run_ops [ForRegion [EdtTask sample_writer, EdtTask sample_reader]]
      ([Run sample_writer] @ Run sample_reader # [] @ Run sample_writer # [Run sample_reader])"
    by simp
  then have "(edt_op_id sample_reader, edt_op_id sample_writer)
      \<in> (dependences (run_dataflow id [ForRegion [EdtTask sample_writer, EdtTask sample_reader]]))\<^sup>*"
  proof (rule dependences_cover_conflicts)
    show "conflicting sample_reader sample_writer"
      unfolding conflicting_def
      by (rule exI [of _ "Some 0"])
         (simp add: outputs_on_def inputs_on_def sample_writer_def sample_reader_def sample_acquire_def
            reads_mode_def writes_mode_def)
    show "acquires_owned (concat (map tasks [ForRegion [EdtTask sample_writer, EdtTask sample_reader]]))"
      "never_disjoint (concat (map tasks [ForRegion [EdtTask sample_writer, EdtTask sample_reader]]))"
      by (simp_all add: acquires_owned_def never_disjoint_def sample_writer_def sample_reader_def
          sample_acquire_def estimateOverlap_def different_roots_def refineAliasWithSlices_def
          extractConstantSlice_def)
  qed simp
  then show ?thesis by (simp add: sample_writer_def sample_reader_def)
qed

text \<open>
  Without that hypothesis a dependence can be lost: the environment keeps one writer for the
  whole datablock, so a task that writes another block hides the task that wrote this one.
\<close>

lemma disjoint_writer_hides_dependence:
  "run_dataflow id
     [EdtTask \<lparr>edt_op_id = 10, isSync = False, acquires = [sample_acquire 1 0 ModeOut 10 [index_const 5 0]]\<rparr>,
      EdtTask \<lparr>edt_op_id = 20, isSync = False, acquires = [sample_acquire 2 0 ModeOut 20 [index_const 6 1]]\<rparr>,
      EdtTask \<lparr>edt_op_id = 30, isSync = False, acquires = [sample_acquire 3 0 ModeIn 30 [index_const 7 0]]\<rparr>] = []"
  by code_simp

end
