(* ===== verification/EdtGraph.thy ===== *)
theory EdtGraph
  imports EdtDataflow DbSlices RuntimeConfig "HOL-Library.List_Lexorder"
begin

text \<open>
  The task graph (\<open>EdtGraph.cpp\<close>): its construction from the dependences, reachability, the
  deterministic topological order, and the independence test on memory roots.
\<close>

section \<open>Construction\<close>

text \<open>
  A node is known by the number in its hierarchical id, given in walk order from 1. The edge
  map has at most one edge for a pair of nodes, so the edges are a list of distinct pairs, and
  the out- and in-edges of a node are those with it as first or second component.
\<close>

record edt_graph =
  graph_nodes :: "nat list"
  edt_of :: "(nat \<times> nat) list"
  graph_edges :: "(nat \<times> nat) list"

definition getHierId :: "nat \<Rightarrow> string" where
  "getHierId n = ''T'' @ show_nat n"

definition getEdtNode :: "edt_graph \<Rightarrow> nat \<Rightarrow> nat option" where
  "getEdtNode G edt = map_of (edt_of G) edt"

definition getOrCreateNode :: "edt_graph \<Rightarrow> nat \<Rightarrow> edt_graph" where
  "getOrCreateNode G edt =
     (case getEdtNode G edt of
        Some n \<Rightarrow> G
      | None \<Rightarrow>
          (let n = length (edt_of G) + 1
           in G\<lparr>graph_nodes := graph_nodes G @ [n], edt_of := (edt, n) # edt_of G\<rparr>))"

definition addEdge :: "edt_graph \<Rightarrow> nat \<Rightarrow> nat \<Rightarrow> edt_graph" where
  "addEdge G from to =
     (if (from, to) \<in> set (graph_edges G) then G else G\<lparr>graph_edges := graph_edges G @ [(from, to)]\<rparr>)"

definition empty_graph :: edt_graph where
  "empty_graph = \<lparr>graph_nodes = [], edt_of = [], graph_edges = []\<rparr>"

definition add_dependence :: "(nat \<times> nat \<times> db_edge list) \<Rightarrow> edt_graph \<Rightarrow> edt_graph" where
  "add_dependence dep G =
     (case dep of (from, to, edges) \<Rightarrow>
        if edges = [] then G
        else case (getEdtNode G from, getEdtNode G to) of
               (Some f, Some t) \<Rightarrow> addEdge G f t
             | _ \<Rightarrow> G)"

text \<open>\<open>collectNodes\<close> over the tasks in walk order, then \<open>buildDependencies\<close>.\<close>

definition collectNodes :: "nat list \<Rightarrow> edt_graph" where
  "collectNodes edts = fold (\<lambda>e G. getOrCreateNode G e) edts empty_graph"

definition build_graph :: "nat list \<Rightarrow> (nat \<times> nat \<times> db_edge list) list \<Rightarrow> edt_graph" where
  "build_graph edts deps = fold add_dependence deps (collectNodes edts)"

section \<open>Reachability\<close>

text \<open>The edges out of a node: stop at the target, push what was not visited.\<close>

fun scan_out :: "nat \<Rightarrow> nat list \<Rightarrow> nat list \<Rightarrow> nat list \<Rightarrow> bool \<times> nat list \<times> nat list" where
  "scan_out to [] visited wl = (False, visited, wl)"
| "scan_out to (next # ns) visited wl =
     (if next = to then (True, visited, wl)
      else if next \<in> set visited then scan_out to ns visited wl
      else scan_out to ns (next # visited) (next # wl))"

definition out_nodes :: "edt_graph \<Rightarrow> nat \<Rightarrow> nat list" where
  "out_nodes G n = map snd (filter (\<lambda>(f, t). f = n) (graph_edges G))"

definition in_nodes :: "edt_graph \<Rightarrow> nat \<Rightarrow> nat list" where
  "in_nodes G n = map fst (filter (\<lambda>(f, t). t = n) (graph_edges G))"

definition graph_rel :: "edt_graph \<Rightarrow> (nat \<times> nat) set" where
  "graph_rel G = set (graph_edges G)"

lemma set_out_nodes: "set (out_nodes G n) = {t. (n, t) \<in> graph_rel G}"
  by (auto simp: out_nodes_def graph_rel_def image_iff)

lemma set_in_nodes: "set (in_nodes G n) = {f. (f, n) \<in> graph_rel G}"
  by (auto simp: in_nodes_def graph_rel_def image_iff)

lemma scan_out_measure:
  "scan_out to ns visited wl = (found, visited', wl') \<Longrightarrow>
     set visited \<subseteq> set visited' \<and> set visited' \<subseteq> set visited \<union> set ns \<and>
     (visited' = visited \<and> wl' = wl \<or> set visited \<subset> set visited')"
proof (induction to ns visited wl arbitrary: found rule: scan_out.induct)
  case (2 to n ns visited wl)
  show ?case
  proof (cases "n = to \<or> n \<in> set visited")
    case True
    then show ?thesis using 2 by (auto split: if_splits)
  next
    case False
    then show ?thesis using 2(2) [of found] 2(3) by auto
  qed
qed simp

lemma scan_out_smaller:
  assumes "scan_out to (out_nodes G current) visited rest = (found, visited', wl')"
  shows "visited' = visited \<and> wl' = rest \<or>
     card (snd ` graph_rel G - set visited') < card (snd ` graph_rel G - set visited)"
proof (cases "set visited \<subset> set visited'")
  case True
  have fin: "finite (snd ` graph_rel G)" by (simp add: graph_rel_def)
  obtain x where x: "x \<in> set visited'" "x \<notin> set visited" using True by auto
  then have "x \<in> set (out_nodes G current)" using scan_out_measure [OF assms] by auto
  then have "x \<in> snd ` graph_rel G" by (force simp: set_out_nodes)
  then have "snd ` graph_rel G - set visited' \<subset> snd ` graph_rel G - set visited"
    using True x by auto
  then show ?thesis using fin by (intro disjI2 psubset_card_mono) auto
next
  case False
  then show ?thesis using scan_out_measure [OF assms] by blast
qed

text \<open>The worklist is a stack: its last element, here the head, is taken next.\<close>

function reach_loop :: "edt_graph \<Rightarrow> nat \<Rightarrow> nat list \<Rightarrow> nat list \<Rightarrow> bool" where
  "reach_loop G to visited wl =
     (case wl of
        [] \<Rightarrow> False
      | current # rest \<Rightarrow>
          (case scan_out to (out_nodes G current) visited rest of
             (found, visited', wl') \<Rightarrow> if found then True else reach_loop G to visited' wl'))"
  by pat_completeness auto
termination
  by (relation "inv_image (less_than <*lex*> less_than)
      (\<lambda>(G, to, visited, wl). (card (snd ` graph_rel G - set visited), length wl))")
    (auto dest!: scan_out_smaller [OF sym])

declare reach_loop.simps [simp del]

definition isEdtReachable :: "edt_graph \<Rightarrow> nat \<Rightarrow> nat \<Rightarrow> bool" where
  "isEdtReachable G fromOp toOp =
     (case (getEdtNode G fromOp, getEdtNode G toOp) of
        (Some from, Some to) \<Rightarrow> reach_loop G to [from] [from]
      | _ \<Rightarrow> False)"

section \<open>Topological order\<close>

text \<open>Nodes are sorted by their ids as strings, so \<open>T10\<close> comes before \<open>T2\<close>.\<close>

definition sortEdtNodesByHierId :: "nat list \<Rightarrow> nat list" where
  "sortEdtNodesByHierId ns = sort_key (\<lambda>n. map (of_char :: char \<Rightarrow> nat) (getHierId n)) ns"

text \<open>In-degrees are unsigned.\<close>

definition decrement :: "nat \<Rightarrow> nat" where
  "decrement n = (if n = 0 then 2 ^ 32 - 1 else n - 1)"

fun release :: "nat list \<Rightarrow> nat list \<Rightarrow> (nat \<Rightarrow> nat) \<Rightarrow> (nat \<Rightarrow> nat) \<times> nat list" where
  "release ns0 [] inDegree = (inDegree, [])"
| "release ns0 (t # ts) inDegree =
     (if t \<in> set ns0
      then let d = inDegree(t := decrement (inDegree t)); (d', successors) = release ns0 ts d
           in (d', if d t = 0 then t # successors else successors)
      else release ns0 ts inDegree)"

partial_function (option) topo_loop ::
  "edt_graph \<Rightarrow> nat list \<Rightarrow> (nat \<Rightarrow> nat) \<Rightarrow> nat list \<Rightarrow> nat list option" where
  "topo_loop G worklist inDegree topoOrder =
     (case worklist of
        [] \<Rightarrow> Some topoOrder
      | current # rest \<Rightarrow>
          (case release (graph_nodes G) (out_nodes G current) inDegree of
             (inDegree', successors) \<Rightarrow>
               topo_loop G (rev (sortEdtNodesByHierId successors) @ rest) inDegree' (topoOrder @ [current])))"

definition inDegree_of :: "edt_graph \<Rightarrow> nat \<Rightarrow> nat" where
  "inDegree_of G n = length (filter (\<lambda>f. f \<in> set (graph_nodes G)) (in_nodes G n))"

definition getDeterministicTopologicalOrder :: "edt_graph \<Rightarrow> (nat list \<times> nat list) option" where
  "getDeterministicTopologicalOrder G =
     (if graph_nodes G = [] then Some ([], [])
      else case topo_loop G (rev (sortEdtNodesByHierId (filter (\<lambda>n. inDegree_of G n = 0) (graph_nodes G))))
                  (inDegree_of G) [] of
             None \<Rightarrow> None
           | Some topoOrder \<Rightarrow>
               if length topoOrder = length (graph_nodes G) then Some (topoOrder, [])
               else Some (topoOrder, sortEdtNodesByHierId (filter (\<lambda>n. n \<notin> set topoOrder) (graph_nodes G))))"

section \<open>Independence\<close>

text \<open>The memory accesses of the tasks are given by the walk of their regions.\<close>

definition areEdtsIndependent :: "(nat \<Rightarrow> access list) \<Rightarrow> edt_graph \<Rightarrow> nat \<Rightarrow> nat \<Rightarrow> bool" where
  "areEdtsIndependent accesses G a b =
     (if a = b then False
      else if getEdtNode G a = None \<or> getEdtNode G b = None then False
      else \<not> hasSharedWritableRootConflict (accesses a) (accesses b))"

section \<open>Graphs that are built\<close>

definition well_formed_graph :: "edt_graph \<Rightarrow> bool" where
  "well_formed_graph G \<longleftrightarrow>
     distinct (graph_nodes G) \<and> distinct (graph_edges G) \<and>
     set (graph_nodes G) = {1..length (edt_of G)} \<and>
     graph_rel G \<subseteq> set (graph_nodes G) \<times> set (graph_nodes G) \<and>
     snd ` set (edt_of G) \<subseteq> set (graph_nodes G)"

lemma well_formed_empty: "well_formed_graph empty_graph"
  by (simp add: well_formed_graph_def empty_graph_def graph_rel_def)

lemma well_formed_node: "well_formed_graph G \<Longrightarrow> well_formed_graph (getOrCreateNode G e)"
  by (fastforce simp: well_formed_graph_def getOrCreateNode_def graph_rel_def Let_def split: option.splits)

lemma well_formed_collect: "well_formed_graph (collectNodes edts)"
proof -
  have "well_formed_graph G \<Longrightarrow> well_formed_graph (fold (\<lambda>e G. getOrCreateNode G e) edts G)" for G
    by (induction edts arbitrary: G) (simp_all add: well_formed_node)
  then show ?thesis by (simp add: collectNodes_def well_formed_empty)
qed

lemma node_in_graph: "well_formed_graph G \<Longrightarrow> getEdtNode G e = Some n \<Longrightarrow> n \<in> set (graph_nodes G)"
  unfolding well_formed_graph_def getEdtNode_def by (force dest: map_of_SomeD)

lemma well_formed_dependence:
  assumes "well_formed_graph G"
  shows "well_formed_graph (add_dependence dep G)"
proof -
  obtain f t es where dep: "dep = (f, t, es)" by (metis prod_cases3)
  show ?thesis
  proof (cases "es = [] \<or> getEdtNode G f = None \<or> getEdtNode G t = None")
    case True
    then show ?thesis using assms by (auto simp: dep add_dependence_def split: option.splits)
  next
    case False
    then obtain a b where ab: "getEdtNode G f = Some a" "getEdtNode G t = Some b" "es \<noteq> []" by auto
    then have "a \<in> set (graph_nodes G)" "b \<in> set (graph_nodes G)" using node_in_graph assms by auto
    then show ?thesis using assms
      by (auto simp: dep add_dependence_def ab addEdge_def well_formed_graph_def graph_rel_def)
  qed
qed

lemma well_formed_built: "well_formed_graph (build_graph edts deps)"
proof -
  have "well_formed_graph G \<Longrightarrow> well_formed_graph (fold add_dependence deps G)" for G
    by (induction deps arbitrary: G) (simp_all add: well_formed_dependence)
  then show ?thesis by (simp add: build_graph_def well_formed_collect)
qed

section \<open>Reachability\<close>

lemma scan_out_spec:
  "scan_out to ns visited wl = (found, visited', wl') \<Longrightarrow>
     (found \<longleftrightarrow> to \<in> set ns) \<and>
     (\<not> found \<longrightarrow> set visited' = set visited \<union> set ns \<and> set wl' = set wl \<union> (set ns - set visited))"
proof (induction to ns visited wl rule: scan_out.induct)
  case (2 to n ns visited wl)
  consider "n = to" | "n \<noteq> to" "n \<in> set visited" | "n \<noteq> to" "n \<notin> set visited" by blast
  then show ?case
  proof cases
    case 1
    then show ?thesis using 2(3) by simp
  next
    case 2
    then show ?thesis using "2.IH"(1) "2.prems" by (auto simp: insert_absorb)
  next
    case 3
    then show ?thesis using "2.IH"(2) "2.prems" by auto
  qed
qed simp

definition explored :: "(nat \<times> nat) set \<Rightarrow> nat \<Rightarrow> nat list \<Rightarrow> nat list \<Rightarrow> bool" where
  "explored R to visited wl \<longleftrightarrow>
     set wl \<subseteq> set visited \<and> (\<forall>v \<in> set visited - set wl. \<forall>t. (v, t) \<in> R \<longrightarrow> t \<in> set visited \<and> t \<noteq> to)"

lemma reach_loop_iff:
  "explored (graph_rel G) to visited wl \<Longrightarrow>
     reach_loop G to visited wl \<longleftrightarrow> (\<exists>x\<in>set visited. (x, to) \<in> (graph_rel G)\<^sup>+)"
proof (induction G to visited wl rule: reach_loop.induct)
  case (1 G to visited wl)
  show ?case
  proof (cases wl)
    case Nil
    have step: "(v, t) \<in> graph_rel G \<Longrightarrow> v \<in> set visited \<Longrightarrow> t \<in> set visited \<and> t \<noteq> to" for v t
      using 1(2) by (auto simp: explored_def Nil)
    have "x \<in> set visited \<Longrightarrow> (x, y) \<in> (graph_rel G)\<^sup>+ \<Longrightarrow> y \<in> set visited \<and> y \<noteq> to" for x y
      by (rotate_tac, induction rule: trancl_induct) (auto dest: step)
    then show ?thesis by (auto simp: Nil reach_loop.simps)
  next
    case (Cons current rest)
    obtain found visited' wl' where s: "scan_out to (out_nodes G current) visited rest = (found, visited', wl')"
      by (metis prod_cases3)
    note sp = scan_out_spec [OF s, unfolded set_out_nodes]
    have c: "current \<in> set visited" using 1(2) by (simp add: explored_def Cons)
    show ?thesis
    proof (cases found)
      case True
      then have "(current, to) \<in> graph_rel G" using sp by simp
      then have "\<exists>x\<in>set visited. (x, to) \<in> (graph_rel G)\<^sup>+" using c by blast
      moreover have "reach_loop G to visited wl"
        by (subst reach_loop.simps) (simp add: Cons s True)
      ultimately show ?thesis by simp
    next
      case False
      have v: "set visited' = set visited \<union> {t. (current, t) \<in> graph_rel G}"
        "set wl' = set rest \<union> ({t. (current, t) \<in> graph_rel G} - set visited)" "(current, to) \<notin> graph_rel G"
        using sp False by auto
      have "explored (graph_rel G) to visited' wl'"
        unfolding explored_def
      proof (intro conjI ballI allI impI)
        show "set wl' \<subseteq> set visited'" using 1(2) unfolding explored_def Cons v(1,2) by auto
        fix x t
        assume x: "x \<in> set visited' - set wl'" and t: "(x, t) \<in> graph_rel G"
        then have "x \<in> set visited" "x \<notin> set rest" unfolding v(1,2) by auto
        then have "x = current \<or> x \<in> set visited - set wl" unfolding Cons by auto
        then have "t \<in> set visited' \<and> t \<noteq> to"
        proof
          assume "x = current"
          then show ?thesis using t v(3) unfolding v(1) by auto
        next
          assume "x \<in> set visited - set wl"
          then show ?thesis using t 1(2) unfolding explored_def v(1) by blast
        qed
        then show "t \<in> set visited'" "t \<noteq> to" by simp_all
      qed
      then have "reach_loop G to visited' wl' \<longleftrightarrow> (\<exists>x\<in>set visited'. (x, to) \<in> (graph_rel G)\<^sup>+)"
        using 1(1) [OF Cons s [symmetric]] False by simp
      moreover have "(current, x) \<in> graph_rel G \<Longrightarrow> (x, to) \<in> (graph_rel G)\<^sup>+ \<Longrightarrow> (current, to) \<in> (graph_rel G)\<^sup>+" for x
        by (rule trancl_into_trancl2)
      moreover have "reach_loop G to visited wl = reach_loop G to visited' wl'"
        by (subst reach_loop.simps) (simp add: Cons s False)
      ultimately show ?thesis using c v(1) by blast
    qed
  qed
qed

text \<open>
  C15: A task reaches another in the graph exactly when the graph has nodes for both and a path
  of at least one edge from the one to the other; a task reaches itself only on a cycle. The
  search ends on every graph.
\<close>

theorem isEdtReachable_iff:
  "isEdtReachable G a b \<longleftrightarrow>
     (\<exists>m n. getEdtNode G a = Some m \<and> getEdtNode G b = Some n \<and> (m, n) \<in> (graph_rel G)\<^sup>+)"
  using reach_loop_iff [of G _ "[m]" "[m]" for m]
  by (auto simp: isEdtReachable_def explored_def split: option.splits)

section \<open>The topological order\<close>

definition waiting :: "edt_graph \<Rightarrow> nat list \<Rightarrow> nat \<Rightarrow> nat set" where
  "waiting G topoOrder v = {u \<in> set (graph_nodes G). (u, v) \<in> graph_rel G \<and> u \<notin> set topoOrder}"

definition in_order :: "edt_graph \<Rightarrow> nat list \<Rightarrow> bool" where
  "in_order G topoOrder \<longleftrightarrow>
     (\<forall>i < length topoOrder. \<forall>u \<in> set (graph_nodes G).
        (u, topoOrder ! i) \<in> graph_rel G \<longrightarrow> u \<in> set (take i topoOrder))"

definition topo_inv :: "edt_graph \<Rightarrow> nat list \<Rightarrow> (nat \<Rightarrow> nat) \<Rightarrow> nat list \<Rightarrow> bool" where
  "topo_inv G worklist inDegree topoOrder \<longleftrightarrow>
     distinct (topoOrder @ worklist) \<and> set (topoOrder @ worklist) \<subseteq> set (graph_nodes G) \<and>
     (\<forall>v \<in> set (graph_nodes G). inDegree v = card (waiting G topoOrder v)) \<and>
     (\<forall>v \<in> set (graph_nodes G). v \<in> set (topoOrder @ worklist) \<longleftrightarrow> inDegree v = 0) \<and>
     in_order G topoOrder"

lemma release_spec:
  "release vs ts d = (d', successors) \<Longrightarrow> distinct ts \<Longrightarrow>
     d' v = (if v \<in> set vs \<and> v \<in> set ts then decrement (d v) else d v) \<and>
     set successors = {t \<in> set ts. t \<in> set vs \<and> decrement (d t) = 0} \<and> distinct successors"
proof (induction vs ts d arbitrary: d' successors rule: release.induct)
  case (2 vs t ts d)
  show ?case
  proof (cases "t \<in> set vs")
    case True
    let ?d = "d(t := decrement (d t))"
    obtain d1 s1 where r: "release vs ts ?d = (d1, s1)" by (metis surj_pair)
    have e: "d' = d1" "successors = (if decrement (d t) = 0 then t # s1 else s1)"
      using "2.prems"(1) True r by (auto simp: Let_def)
    have ts: "t \<notin> set ts" "distinct ts" using "2.prems"(2) by auto
    note ih = "2.IH"(1) [OF True refl r ts(2)]
    have s1: "set s1 = {x \<in> set ts. x \<in> set vs \<and> decrement (d x) = 0}" "distinct s1"
      using conjunct2 [OF ih] ts(1) by (auto split: if_splits)
    show ?thesis
    proof (intro conjI)
      show "d' v = (if v \<in> set vs \<and> v \<in> set (t # ts) then decrement (d v) else d v)"
        using conjunct1 [OF ih] ts(1) True unfolding e(1) by (cases "v = t") simp_all
      show "set successors = {x \<in> set (t # ts). x \<in> set vs \<and> decrement (d x) = 0}"
        unfolding e(2) using s1(1) True by (cases "decrement (d t) = 0") auto
      show "distinct successors" unfolding e(2) using s1 ts(1) by simp
    qed
  next
    case False
    then show ?thesis using 2(2)[OF False] 2(3,4) by auto
  qed
qed simp

lemma set_sortEdt [simp]: "set (sortEdtNodesByHierId xs) = set xs"
  by (simp add: sortEdtNodesByHierId_def)

lemma distinct_sortEdt [simp]: "distinct (sortEdtNodesByHierId xs) = distinct xs"
  by (simp add: sortEdtNodesByHierId_def)

lemma mset_sortEdt [simp]: "mset (sortEdtNodesByHierId xs) = mset xs"
  by (simp add: sortEdtNodesByHierId_def)

lemma finite_waiting [simp]: "finite (waiting G topoOrder v)"
  by (simp add: waiting_def)

lemma waiting_snoc: "waiting G (topoOrder @ [c]) v = waiting G topoOrder v - {c}"
  by (auto simp: waiting_def)

lemma distinct_out_nodes: "distinct (graph_edges G) \<Longrightarrow> distinct (out_nodes G n)"
  unfolding out_nodes_def
  by (subst distinct_map) (auto simp: inj_on_def)

lemma topo_step:
  assumes inv: "topo_inv G (c # rest) d topoOrder" and wf: "well_formed_graph G"
    and rel: "release (graph_nodes G) (out_nodes G c) d = (d', successors)"
  shows "topo_inv G (rev (sortEdtNodesByHierId successors) @ rest) d' (topoOrder @ [c])"
proof -
  let ?V = "set (graph_nodes G)" and ?R = "graph_rel G"
  have dist: "distinct (out_nodes G c)" using wf by (simp add: well_formed_graph_def distinct_out_nodes)
  note rs = release_spec [OF rel dist, unfolded set_out_nodes]
  have I: "distinct (topoOrder @ c # rest)" "set (topoOrder @ c # rest) \<subseteq> ?V"
    "\<And>v. v \<in> ?V \<Longrightarrow> d v = card (waiting G topoOrder v)"
    "\<And>v. v \<in> ?V \<Longrightarrow> v \<in> set (topoOrder @ c # rest) \<longleftrightarrow> d v = 0" "in_order G topoOrder"
    using inv unfolding topo_inv_def by blast+
  have c: "c \<in> ?V" "c \<notin> set topoOrder" "d c = 0" using I(1,2,4) by auto
  have wc: "waiting G topoOrder c = {}" using c I(3) by simp
  have dpos: "0 < d v" if "v \<in> ?V" "(c, v) \<in> ?R" for v
  proof -
    have "c \<in> waiting G topoOrder v" using c that by (simp add: waiting_def)
    then show ?thesis using I(3) [OF that(1)] by (auto simp: card_gt_0_iff)
  qed
  have d': "d' v = card (waiting G (topoOrder @ [c]) v)" if v: "v \<in> ?V" for v
  proof (cases "(c, v) \<in> ?R")
    case True
    then have "d' v = d v - 1" using rs v dpos [OF v True] by (auto simp: decrement_def)
    moreover have "c \<in> waiting G topoOrder v" using c True by (simp add: waiting_def)
    ultimately show ?thesis using I(3) [OF v] by (simp add: waiting_snoc)
  next
    case False
    then have "c \<notin> waiting G topoOrder v" by (simp add: waiting_def)
    then show ?thesis using rs False I(3) [OF v] by (auto simp: waiting_snoc)
  qed
  have succ: "set successors = {t \<in> ?V. (c, t) \<in> ?R \<and> d' t = 0}" "distinct successors"
    using rs release_spec [OF rel dist, unfolded set_out_nodes] by auto
  have fresh: "t \<notin> set (topoOrder @ c # rest)" if "t \<in> set successors" for t
    using that succ(1) dpos I(4) by auto
  have mem: "v \<in> set (topoOrder @ c # rest) \<or> v \<in> set successors \<longleftrightarrow> d' v = 0" if v: "v \<in> ?V" for v
  proof (cases "(c, v) \<in> ?R")
    case True
    then show ?thesis using dpos [OF v True] I(4) [OF v] succ(1) v by auto
  next
    case False
    then show ?thesis using rs I(4) [OF v] succ(1) by auto
  qed
  have resp: "in_order G (topoOrder @ [c])"
    using I(5) wc unfolding in_order_def waiting_def
    by (auto simp: nth_append less_Suc_eq)
  let ?new = "(topoOrder @ [c]) @ rev (sortEdtNodesByHierId successors) @ rest"
  have all: "set ?new = set (topoOrder @ c # rest) \<union> set successors" by auto
  have "distinct ?new" using I(1) succ(2) fresh by auto
  moreover have "set ?new \<subseteq> ?V" unfolding all succ(1) using I(2) by blast
  moreover have "\<forall>v\<in>?V. v \<in> set ?new \<longleftrightarrow> d' v = 0" unfolding all using mem by blast
  ultimately show ?thesis unfolding topo_inv_def using d' resp by blast
qed

lemma in_order_length: "topo_inv G wl d topoOrder \<Longrightarrow> distinct (graph_nodes G) \<Longrightarrow> length topoOrder \<le> length (graph_nodes G)"
  unfolding topo_inv_def
  by (metis card_mono distinct_append distinct_card le_sup_iff List.finite_set set_append)

lemma topo_loop_ends:
  assumes wf: "well_formed_graph G"
  shows "topo_inv G wl d topoOrder \<Longrightarrow> \<exists>r d'. topo_loop G wl d topoOrder = Some r \<and> topo_inv G [] d' r"
proof (induction "length (graph_nodes G) - length topoOrder" arbitrary: wl d topoOrder rule: less_induct)
  case less
  show ?case
  proof (cases wl)
    case Nil
    then show ?thesis using less.prems by (auto simp: topo_loop.simps)
  next
    case (Cons c rest)
    obtain d' s where r: "release (graph_nodes G) (out_nodes G c) d = (d', s)" by (metis surj_pair)
    have inv: "topo_inv G (rev (sortEdtNodesByHierId s) @ rest) d' (topoOrder @ [c])"
      by (rule topo_step [OF _ wf r]) (use less.prems Cons in simp)
    have "length (topoOrder @ [c]) \<le> length (graph_nodes G)"
      using in_order_length [OF inv] wf by (simp add: well_formed_graph_def)
    then have "\<exists>r d''. topo_loop G (rev (sortEdtNodesByHierId s) @ rest) d' (topoOrder @ [c]) = Some r \<and> topo_inv G [] d'' r"
      by (intro less.hyps inv) simp
    moreover have "topo_loop G wl d topoOrder = topo_loop G (rev (sortEdtNodesByHierId s) @ rest) d' (topoOrder @ [c])"
      by (subst topo_loop.simps) (simp add: Cons r)
    ultimately show ?thesis by simp
  qed
qed

lemma distinct_in_nodes: "distinct (graph_edges G) \<Longrightarrow> distinct (in_nodes G n)"
  unfolding in_nodes_def
  by (subst distinct_map) (auto simp: inj_on_def)

lemma inDegree_waiting: "well_formed_graph G \<Longrightarrow> inDegree_of G n = card (waiting G [] n)"
proof -
  assume wf: "well_formed_graph G"
  let ?l = "filter (\<lambda>f. f \<in> set (graph_nodes G)) (in_nodes G n)"
  have "distinct ?l" using wf by (simp add: well_formed_graph_def distinct_in_nodes)
  moreover have "set ?l = waiting G [] n" by (auto simp: waiting_def set_in_nodes)
  ultimately show ?thesis using distinct_card [of ?l] by (simp add: inDegree_of_def)
qed

lemma topo_inv_start:
  "well_formed_graph G \<Longrightarrow>
     topo_inv G (rev (sortEdtNodesByHierId (filter (\<lambda>n. inDegree_of G n = 0) (graph_nodes G)))) (inDegree_of G) []"
  unfolding topo_inv_def
  by (simp add: inDegree_waiting in_order_def) (simp add: well_formed_graph_def)

lemma leftover_cycle:
  assumes "acyclic (graph_rel G)" "\<forall>v\<in>L. \<exists>u\<in>L. (u, v) \<in> graph_rel G"
  shows "L = {}"
proof (rule ccontr)
  assume "L \<noteq> {}"
  then obtain x where "x \<in> L" by auto
  moreover have "wf (graph_rel G)" by (rule finite_acyclic_wf [OF _ assms(1)]) (simp add: graph_rel_def)
  ultimately obtain z where "z \<in> L" "\<And>y. (y, z) \<in> graph_rel G \<Longrightarrow> y \<notin> L"
    using wfE_min [of "graph_rel G" x L] by metis
  then show False using assms(2) by blast
qed

lemma topo_result:
  assumes wf: "well_formed_graph G"
  shows "\<exists>topo left. getDeterministicTopologicalOrder G = Some (topo, left) \<and> distinct (topo @ left) \<and>
     set (topo @ left) = set (graph_nodes G) \<and> in_order G topo \<and>
     (\<forall>v\<in>set left. \<exists>u\<in>set left. (u, v) \<in> graph_rel G)"
proof (cases "graph_nodes G = []")
  case True
  then show ?thesis by (simp add: getDeterministicTopologicalOrder_def in_order_def)
next
  case False
  let ?wl = "rev (sortEdtNodesByHierId (filter (\<lambda>n. inDegree_of G n = 0) (graph_nodes G)))"
  obtain r d' where r: "topo_loop G ?wl (inDegree_of G) [] = Some r" and inv: "topo_inv G [] d' r"
    using topo_loop_ends [OF wf topo_inv_start [OF wf]] by blast
  let ?left = "sortEdtNodesByHierId (filter (\<lambda>n. n \<notin> set r) (graph_nodes G))"
  have I: "distinct r" "set r \<subseteq> set (graph_nodes G)"
    "\<And>v. v \<in> set (graph_nodes G) \<Longrightarrow> d' v = card (waiting G r v)"
    "\<And>v. v \<in> set (graph_nodes G) \<Longrightarrow> v \<in> set r \<longleftrightarrow> d' v = 0" "in_order G r"
    using inv by (simp_all add: topo_inv_def)
  have dn: "distinct (graph_nodes G)" using wf by (simp add: well_formed_graph_def)
  have full: "set r = set (graph_nodes G)" if "length r = length (graph_nodes G)"
    using I(1,2) dn that by (simp add: card_subset_eq distinct_card)
  have eq: "getDeterministicTopologicalOrder G = Some (r, ?left)"
    using False r full
    by (simp add: getDeterministicTopologicalOrder_def) (simp add: sortEdtNodesByHierId_def)
  have "\<exists>u\<in>set ?left. (u, v) \<in> graph_rel G" if "v \<in> set ?left" for v
  proof -
    have "waiting G r v \<noteq> {}" using that I(3,4) by fastforce
    then show ?thesis by (auto simp: waiting_def)
  qed
  then show ?thesis using eq I(1,2,5) dn by (intro exI [of _ r] exI [of _ ?left]) auto
qed

text \<open>
  C14: On the graph built from any dependences the topological sort ends. Its two lists hold
  every node exactly once; in the first every node comes after all its predecessors, every
  node of the second has a predecessor in the second, and without a cycle the second is
  empty.
\<close>

theorem topological_order_spec:
  "\<exists>topo left. getDeterministicTopologicalOrder (build_graph edts deps) = Some (topo, left) \<and>
     distinct (topo @ left) \<and> set (topo @ left) = set (graph_nodes (build_graph edts deps)) \<and>
     in_order (build_graph edts deps) topo \<and>
     (\<forall>v\<in>set left. \<exists>u\<in>set left. (u, v) \<in> graph_rel (build_graph edts deps)) \<and>
     (acyclic (graph_rel (build_graph edts deps)) \<longrightarrow> left = [])"
proof -
  obtain topo left where t: "getDeterministicTopologicalOrder (build_graph edts deps) = Some (topo, left)"
    "distinct (topo @ left)" "set (topo @ left) = set (graph_nodes (build_graph edts deps))"
    "in_order (build_graph edts deps) topo"
    "\<forall>v\<in>set left. \<exists>u\<in>set left. (u, v) \<in> graph_rel (build_graph edts deps)"
    using topo_result [OF well_formed_built [of edts deps]] by blast
  moreover have "acyclic (graph_rel (build_graph edts deps)) \<longrightarrow> left = []"
    using leftover_cycle [OF _ t(5)] by auto
  ultimately show ?thesis by blast
qed

definition sample_edge :: db_edge where
  "sample_edge = \<lparr>producer = sample_acquire 1 0 ModeOut 10 [], consumer = sample_acquire 2 0 ModeIn 20 [],
     depType = RAW\<rparr>"

definition sample_graph :: edt_graph where
  "sample_graph = build_graph [10, 20, 30] [(10, 20, [sample_edge]), (30, 20, [sample_edge]), (10, 20, [])]"

lemma sample_graph_nodes: "graph_nodes sample_graph = [1, 2, 3]" "graph_edges sample_graph = [(1, 2), (3, 2)]"
  by code_simp+

lemma topological_order_spec_witness:
  "\<exists>topo. getDeterministicTopologicalOrder sample_graph = Some (topo, []) \<and> distinct topo \<and> set topo = {1, 2, 3} \<and>
     in_order sample_graph topo"
proof -
  have "acyclic (graph_rel sample_graph)"
    by (rule acyclicI_order [where f = "\<lambda>n. if n = 2 then 0 else (1 :: nat)"])
       (auto simp: graph_rel_def sample_graph_nodes)
  then show ?thesis
    using topological_order_spec [of "[10, 20, 30]" "[(10, 20, [sample_edge]), (30, 20, [sample_edge]), (10, 20, [])]"]
    unfolding sample_graph_def [symmetric] by (auto simp: sample_graph_nodes)
qed

end
