(* ===== verification/BlockAccess.thy ===== *)
theory BlockAccess
  imports DbModel
begin

text \<open>
  Block-relative index expressions: the helpers of \<open>arts/Utils/BlockedAccessUtils.h\<close>, the
  clamp stripping of \<open>arts/Utils/ValueAnalysisUtils.cpp\<close> and the induction variable analysis
  of \<open>arts/Analysis/loop/LoopNode.cpp\<close> they are combined with.

  The lemmas say which of the syntactic tests are sound for the value of the expression, and
  on which operations: the sign tests and the block-base matching hold where the
  arithmetic does not wrap, and the extent normalisation where no clamp is stripped.
\<close>

section \<open>Sign of an index expression\<close>

text \<open>
  \<open>L\<close> gives, for a block that is the body of an \<open>scf.for\<close>, the induction variable, the lower
  bound, the upper bound and the step of that loop.
\<close>

type_synonym loop_env = "nat \<Rightarrow> (val \<times> val \<times> val \<times> val) option"

definition tryFoldBool :: "mlir \<Rightarrow> val \<Rightarrow> bool option" where
  "tryFoldBool P v = (case arts_tryFoldConstantIndex P 0 v of None \<Rightarrow> None | Some c \<Rightarrow> Some (c \<noteq> 0))"

definition induction_loop :: "loop_env \<Rightarrow> val \<Rightarrow> (val \<times> val \<times> val) option" where
  "induction_loop L v =
     (case v of
        BlockArg b n t d \<Rightarrow>
          (case L b of Some (iv, bounds) \<Rightarrow> if iv = v then Some bounds else None | None \<Rightarrow> None)
      | _ \<Rightarrow> None)"

definition clamp_of_negative :: "mlir \<Rightarrow> val \<Rightarrow> val \<Rightarrow> bool" where
  "clamp_of_negative P c falseValue =
     (case stripNumericCasts c of
        CmpI i p a b \<Rightarrow>
          (let lhs = stripNumericCasts a; rhs = stripNumericCasts b
           in if p = Cslt \<or> p = Cult then sameValue P lhs falseValue \<and> isZeroConstant rhs
              else if p = Csgt \<or> p = Cugt then sameValue P rhs falseValue \<and> isZeroConstant lhs
              else False)
      | _ \<Rightarrow> False)"

function isKnownNonNegative :: "mlir \<Rightarrow> loop_env \<Rightarrow> nat \<Rightarrow> val \<Rightarrow> bool" where
  "isKnownNonNegative P L depth u =
     (if depth > 8 then False
      else
        let v = stripNumericCasts u in
        case arts_tryFoldConstantIndex P 0 v of
          Some c \<Rightarrow> c \<ge> 0
        | None \<Rightarrow>
            (case v of
               BlockArg b n t d \<Rightarrow>
                 (case induction_loop L v of
                    Some (lb, ub, step) \<Rightarrow>
                      isKnownNonNegative P L (depth + 1) lb \<and> isConstantAtLeastOne P step
                  | None \<Rightarrow> False)
             | Bin i t f a b \<Rightarrow>
                 if f = MaxUI
                 then isZeroConstant a \<or> isZeroConstant b \<or>
                      (isKnownNonNegative P L (depth + 1) a \<and> isKnownNonNegative P L (depth + 1) b)
                 else if f = AddI
                 then isKnownNonNegative P L (depth + 1) a \<and> isKnownNonNegative P L (depth + 1) b
                 else if f = MulI
                 then (let lhs = stripNumericCasts a; rhs = stripNumericCasts b in
                       case arts_tryFoldConstantIndex P 0 lhs of
                         Some c \<Rightarrow> c \<ge> 0 \<and> isKnownNonNegative P L (depth + 1) rhs
                       | None \<Rightarrow>
                           (case arts_tryFoldConstantIndex P 0 rhs of
                              Some c \<Rightarrow> c \<ge> 0 \<and> isKnownNonNegative P L (depth + 1) lhs
                            | None \<Rightarrow> isKnownNonNegative P L (depth + 1) lhs \<and>
                                      isKnownNonNegative P L (depth + 1) rhs))
                 else f = DivUI \<or> f = RemUI
             | Select i t c a b \<Rightarrow>
                 (case tryFoldBool P c of
                    Some k \<Rightarrow> isKnownNonNegative P L (depth + 1) (if k then a else b)
                  | None \<Rightarrow>
                      (let trueValue = stripNumericCasts a; falseValue = stripNumericCasts b in
                       if \<not> isZeroConstant trueValue
                       then isKnownNonNegative P L (depth + 1) trueValue \<and>
                            isKnownNonNegative P L (depth + 1) falseValue
                       else clamp_of_negative P c falseValue))
             | _ \<Rightarrow> False))"
  by pat_completeness auto
termination by (relation "measure (\<lambda>(P, L, depth, v). 9 - depth)") auto

declare isKnownNonNegative.simps [simp del]

function isKnownNonPositive :: "mlir \<Rightarrow> loop_env \<Rightarrow> nat \<Rightarrow> val \<Rightarrow> bool" where
  "isKnownNonPositive P L depth u =
     (if depth > 8 then False
      else
        let v = stripNumericCasts u in
        case arts_tryFoldConstantIndex P 0 v of
          Some c \<Rightarrow> c \<le> 0
        | None \<Rightarrow>
            (case v of
               Bin i t f a b \<Rightarrow> f = SubI \<and> isZeroConstant a \<and> isKnownNonNegative P L (depth + 1) b
             | Select i t c a b \<Rightarrow>
                 (case tryFoldBool P c of
                    Some k \<Rightarrow> isKnownNonPositive P L (depth + 1) (if k then a else b)
                  | None \<Rightarrow> isKnownNonPositive P L (depth + 1) a \<and> isKnownNonPositive P L (depth + 1) b)
             | _ \<Rightarrow> False))"
  by pat_completeness auto
termination by (relation "measure (\<lambda>(P, L, depth, v). 9 - depth)") auto

declare isKnownNonPositive.simps [simp del]

section \<open>Extents bounded by a block\<close>

function isValueBoundedByBlockSpan :: "mlir \<Rightarrow> loop_env \<Rightarrow> nat \<Rightarrow> val \<Rightarrow> val \<Rightarrow> bool" where
  "isValueBoundedByBlockSpan P L depth u w =
     (if depth > 8 then False
      else
        let v = stripNumericCasts u; blockSize = stripClampOne w in
        if sameValue P v blockSize then True
        else
          case (arts_tryFoldConstantIndex P 0 v, arts_tryFoldConstantIndex P 0 blockSize) of
            (Some x, Some y) \<Rightarrow> x \<le> y
          | _ \<Rightarrow>
              (case (extractBlockSizeFromHint P 0 v, extractBlockSizeFromHint P 0 blockSize) of
                 (Some x, Some y) \<Rightarrow> x \<le> y
               | _ \<Rightarrow>
                   (case v of
                      Bin i t f a b \<Rightarrow>
                        if f = MinUI
                        then isValueBoundedByBlockSpan P L (depth + 1) a blockSize \<or>
                             isValueBoundedByBlockSpan P L (depth + 1) b blockSize
                        else if f = SubI
                        then isValueBoundedByBlockSpan P L (depth + 1) a blockSize \<and>
                             isKnownNonNegative P L (depth + 1) b
                        else if f = MulI
                        then (let lhs = stripClampOne a; rhs = stripClampOne b;
                                  lhsConst = arts_tryFoldConstantIndex P 0 lhs;
                                  rhsConst = arts_tryFoldConstantIndex P 0 rhs
                              in if sameValue P lhs blockSize \<and> rhsConst \<noteq> None
                                 then 0 \<le> the rhsConst \<and> the rhsConst \<le> 1
                                 else if sameValue P rhs blockSize \<and> lhsConst \<noteq> None
                                 then 0 \<le> the lhsConst \<and> the lhsConst \<le> 1
                                 else False)
                        else False
                    | Select i t c a b \<Rightarrow>
                        (case tryFoldBool P c of
                           Some k \<Rightarrow> isValueBoundedByBlockSpan P L (depth + 1) (if k then a else b) blockSize
                         | None \<Rightarrow> isValueBoundedByBlockSpan P L (depth + 1) a blockSize \<and>
                                   isValueBoundedByBlockSpan P L (depth + 1) b blockSize)
                    | _ \<Rightarrow> False)))"
  by pat_completeness auto
termination by (relation "measure (\<lambda>(P, L, depth, v, w). 9 - depth)") auto

declare isValueBoundedByBlockSpan.simps [simp del]

definition isLoopIvBoundedBy :: "mlir \<Rightarrow> loop_env \<Rightarrow> val \<Rightarrow> val \<Rightarrow> bool" where
  "isLoopIvBoundedBy P L idx blockSize =
     (case induction_loop L idx of
        None \<Rightarrow> False
      | Some (lowerBound, upperBound, step) \<Rightarrow>
          (let lb = stripNumericCasts lowerBound; ub = stripClampOne upperBound; bs = stripClampOne blockSize
           in if \<not> isKnownNonNegative P L 0 lb then False
              else isValueBoundedByBlockSpan P L 0 ub bs))"

section \<open>Block-relative indices\<close>

definition isMulOf :: "mlir \<Rightarrow> val \<Rightarrow> val \<Rightarrow> val \<Rightarrow> bool" where
  "isMulOf P value lhsExpected rhsExpected =
     (let le = stripClampOne lhsExpected; re = stripClampOne rhsExpected in
      case stripClampOne value of
        Bin i t MulI a b \<Rightarrow>
          (let lhs = stripClampOne a; rhs = stripClampOne b
           in sameValue P lhs le \<and> sameValue P rhs re \<or> sameValue P lhs re \<and> sameValue P rhs le)
      | _ \<Rightarrow> False)"

definition canonicalizeStartBlock :: "mlir \<Rightarrow> val \<Rightarrow> val \<Rightarrow> val" where
  "canonicalizeStartBlock P startBlock blockSize =
     (let sb = stripClampOne startBlock; bs = stripClampOne blockSize in
      case sb of
        Bin i t DivUI a b \<Rightarrow>
          if \<not> sameValue P (stripClampOne b) bs then sb
          else (case stripClampOne a of
                  Bin j s MulI p q \<Rightarrow>
                    (let mulLhs = stripClampOne p; mulRhs = stripClampOne q
                     in if sameValue P mulLhs bs then mulRhs
                        else if sameValue P mulRhs bs then mulLhs
                        else sb)
                | _ \<Rightarrow> sb)
      | _ \<Rightarrow> sb)"

text \<open>The base index a match writes; \<open>Some None\<close> is a match without a base.\<close>

definition matchLoopInvariantAddend :: "mlir \<Rightarrow> val \<Rightarrow> val \<Rightarrow> val option option" where
  "matchLoopInvariantAddend P value inductionVar =
     (let v = stripNumericCasts value; iv = stripNumericCasts inductionVar in
      if sameValue P v iv then Some None
      else case v of
             Bin i t AddI a b \<Rightarrow>
               (let lhs = stripNumericCasts a; rhs = stripNumericCasts b
                in if sameValue P lhs iv \<and> \<not> dependsOn 0 rhs iv then Some (Some rhs)
                   else if sameValue P rhs iv \<and> \<not> dependsOn 0 lhs iv then Some (Some lhs)
                   else None)
           | _ \<Rightarrow> None)"

definition extractLocalFromBlockBase :: "mlir \<Rightarrow> val \<Rightarrow> val \<Rightarrow> val \<Rightarrow> val option" where
  "extractLocalFromBlockBase P globalIndex startBlock blockSize =
     (let sb = canonicalizeStartBlock P startBlock blockSize in
      case stripNumericCasts globalIndex of
        Bin i t AddI a b \<Rightarrow>
          (let lhs = stripNumericCasts a; rhs = stripNumericCasts b
           in if isMulOf P lhs sb blockSize then Some rhs
              else if isMulOf P rhs sb blockSize then Some lhs
              else None)
      | _ \<Rightarrow> None)"

section \<open>Extents of owned slices\<close>

definition same_extent :: "mlir \<Rightarrow> val \<Rightarrow> val \<Rightarrow> bool" where
  "same_extent P a b = (sameValue P a b \<or> areValuesEquivalent P 0 a b)"

function normalizeOwnedSliceExtent :: "mlir \<Rightarrow> nat \<Rightarrow> val \<Rightarrow> val" where
  "normalizeOwnedSliceExtent P depth u =
     (if depth > 8 then u
      else
        let value = stripClampOne (stripSelectClamp P 8 (stripClampOne (stripNumericCasts u))) in
        case value of
          Bin i t f a b \<Rightarrow>
            if f \<noteq> MinUI then value
            else
              let lhs = normalizeOwnedSliceExtent P (depth + 1) a;
                  rhs = normalizeOwnedSliceExtent P (depth + 1) b;
                  absorbs = (\<lambda>x y. case y of
                               Bin j s g p q \<Rightarrow>
                                 g = MinUI \<and>
                                 (same_extent P x (normalizeOwnedSliceExtent P (depth + 1) p) \<or>
                                  same_extent P x (normalizeOwnedSliceExtent P (depth + 1) q))
                             | _ \<Rightarrow> False)
              in if same_extent P lhs rhs then lhs
                 else if absorbs lhs rhs then rhs
                 else if absorbs rhs lhs then lhs
                 else value
        | _ \<Rightarrow> value)"
  by pat_completeness auto
termination by (relation "measure (\<lambda>(P, depth, v). 9 - depth)") auto

declare normalizeOwnedSliceExtent.simps [simp del]

definition areEquivalentOwnedSliceExtents :: "mlir \<Rightarrow> val \<Rightarrow> val \<Rightarrow> bool" where
  "areEquivalentOwnedSliceExtents P lhs rhs =
     (let l = normalizeOwnedSliceExtent P 0 lhs; r = normalizeOwnedSliceExtent P 0 rhs
      in sameValue P l r \<or> areValuesEquivalent P 0 l r)"

section \<open>Induction variable analysis\<close>

text \<open>
  A \<open>LoopNode\<close> through its accessors: the induction variable, the bounds and the step, null
  where the loop kind does not give one, and the nesting depth.
\<close>

record loop_node =
  getInductionVar :: "val option"
  getLowerBound :: "val option"
  getUpperBound :: "val option"
  getStep :: "val option"
  getNestingDepth :: int

function depends_on_iv :: "val \<Rightarrow> val \<Rightarrow> bool" where
  "depends_on_iv iv v = (v = iv \<or> list_ex (depends_on_iv iv) (operands v))"
  by pat_completeness auto
termination by (relation "measure (\<lambda>(iv, v). size v)") (auto simp: operands_size)

declare depends_on_iv.simps [simp del]

definition dependsOnInductionVar :: "loop_node \<Rightarrow> val \<Rightarrow> bool" where
  "dependsOnInductionVar loop v =
     (case getInductionVar loop of None \<Rightarrow> False | Some iv \<Rightarrow> depends_on_iv iv v)"

definition dependsOnInductionVarNormalized :: "loop_node \<Rightarrow> val \<Rightarrow> bool" where
  "dependsOnInductionVarNormalized loop v = dependsOnInductionVar loop (stripNumericCasts v)"

record iv_expr =
  dependsOnIV :: bool
  offset :: "int option"
  multiplier :: "int option"

definition scaled :: "int option \<Rightarrow> int option \<Rightarrow> iv_expr" where
  "scaled m k = \<lparr>dependsOnIV = True, offset = k, multiplier = m\<rparr>"

definition analyzeIndexExpr :: "loop_node \<Rightarrow> val \<Rightarrow> iv_expr" where
  "analyzeIndexExpr loop index =
     (case getInductionVar loop of
        None \<Rightarrow> \<lparr>dependsOnIV = False, offset = None, multiplier = None\<rparr>
      | Some iv \<Rightarrow>
          if \<not> dependsOnInductionVar loop index
          then \<lparr>dependsOnIV = False, offset = None, multiplier = None\<rparr>
          else if index = iv then scaled (Some 1) (Some 0)
          else case index of
                 Bin i t AddI lhs rhs \<Rightarrow>
                   if lhs = iv
                   then (case getConstantIndex rhs of Some c \<Rightarrow> scaled (Some 1) (Some c) | None \<Rightarrow> scaled None None)
                   else if rhs = iv
                   then (case getConstantIndex lhs of Some c \<Rightarrow> scaled (Some 1) (Some c) | None \<Rightarrow> scaled None None)
                   else scaled None None
               | Bin i t SubI lhs rhs \<Rightarrow>
                   if lhs = iv
                   then (case getConstantIndex rhs of
                           Some c \<Rightarrow> scaled (Some 1) (Some (wrap64 (- c))) | None \<Rightarrow> scaled None None)
                   else scaled None None
               | Bin i t MulI lhs rhs \<Rightarrow>
                   if lhs = iv
                   then (case getConstantIndex rhs of Some c \<Rightarrow> scaled (Some c) (Some 0) | None \<Rightarrow> scaled None None)
                   else if rhs = iv
                   then (case getConstantIndex lhs of Some c \<Rightarrow> scaled (Some c) (Some 0) | None \<Rightarrow> scaled None None)
                   else scaled None None
               | _ \<Rightarrow> scaled None None)"

lemma index_expr_shape:
  assumes "analyzeIndexExpr loop index = \<lparr>dependsOnIV = True, offset = Some k, multiplier = Some m\<rparr>"
    and "getInductionVar loop = Some iv"
  obtains "index = iv" "k = 0" "m = 1"
  | i t a where "index = Bin i t AddI iv a" "getConstantIndex a = Some k" "m = 1"
  | i t a where "index = Bin i t AddI a iv" "getConstantIndex a = Some k" "m = 1"
  | i t a c where "index = Bin i t SubI iv a" "getConstantIndex a = Some c" "k = wrap64 (- c)" "m = 1"
  | i t a where "index = Bin i t MulI iv a" "getConstantIndex a = Some m" "k = 0"
  | i t a where "index = Bin i t MulI a iv" "getConstantIndex a = Some m" "k = 0"
proof (cases "index = iv")
  case True
  then show ?thesis using assms that(1) by (auto simp: analyzeIndexExpr_def scaled_def split: if_splits)
next
  case False
  show ?thesis
  proof (cases index)
    case (Bin i t f a b)
    then show ?thesis using assms False that(2-) unfolding analyzeIndexExpr_def
      by (cases f) (auto simp: scaled_def split: if_splits option.splits)
  qed (use assms False in \<open>auto simp: analyzeIndexExpr_def scaled_def split: if_splits\<close>)
qed

lemma wrap64_minus: "wrap64 (y + wrap64 (- c)) = wrap64 (y - c)"
  by (rule wrap64_cong) (metis diff_conv_add_uminus take_bit_add take_bit_wrap64)

text \<open>What the analysis answers is the value of the index: multiplier times the induction variable plus offset.\<close>

lemma index_expr_value:
  assumes shape: "analyzeIndexExpr loop index = \<lparr>dependsOnIV = True, offset = Some k, multiplier = Some m\<rparr>"
    and iv: "getInductionVar loop = Some iv" and safe: "fold_safe e index" and x: "eval e index = Some x"
  shows "\<exists>y. eval e iv = Some y \<and> x = wrap64 (m * y + k)"
proof -
  have const: "y = c" if "fold_safe e v" "getConstantIndex v = Some c" "eval e v = Some y" for v c y
    using constant_value that by blast
  from shape iv show ?thesis
  proof (cases rule: index_expr_shape)
    case 1
    then show ?thesis using safe x eval_in64 [of e index x] by (simp add: wrap64_id)
  next
    case (2 i t a)
    then show ?thesis using safe x const [of a k] by (auto simp: sgn_at_64 split: option.splits)
  next
    case (3 i t a)
    then show ?thesis using safe x const [of a k] by (auto simp: sgn_at_64 add.commute split: option.splits)
  next
    case (4 i t a c)
    then show ?thesis using safe x const [of a c] by (auto simp: sgn_at_64 wrap64_minus split: option.splits)
  next
    case (5 i t a)
    then show ?thesis using safe x const [of a m] by (auto simp: sgn_at_64 mult.commute split: option.splits)
  next
    case (6 i t a)
    then show ?thesis using safe x const [of a m] by (auto simp: sgn_at_64 split: option.splits)
  qed
qed

section \<open>Soundness of the sign tests\<close>

text \<open>
  \<open>configured\<close>: the environment answers the runtime queries as the module records them.
  \<open>exact\<close>: sums, differences and products do not wrap, and unsigned maxima, divisions,
  remainders and comparisons get non-negative operands; nothing is said of the operands or
  results of the other operations.
\<close>

definition configured :: "mlir \<Rightarrow> env \<Rightarrow> bool" where
  "configured P e \<longleftrightarrow> with_module P e = e"

lemma configured_with_module: "configured P (with_module P e)"
  by (auto simp: configured_def with_module_def fun_eq_iff split: query_kind.splits option.splits)

lemma arts_fold_agrees:
  assumes "services_sound P e" "configured P e" "fold_safe e v"
    and "arts_tryFoldConstantIndex P d v = Some c" "eval e v = Some x"
  shows "agrees (type_of v) c x"
  using assms runtime.fold_sound unfolding configured_def arts_tryFoldConstantIndex_def by metis

lemma arts_fold_value:
  assumes "services_sound P e" "configured P e" "fold_safe e v" "type_of v \<noteq> IntTy 1"
    and "arts_tryFoldConstantIndex P d v = Some c" "eval e v = Some x"
  shows "x = c"
  using arts_fold_agrees [OF assms(1-3,5,6)] assms(4) by (simp add: agrees_int)

lemma zero_constant_value:
  assumes "isZeroConstant v" "fold_safe e v" "eval e v = Some x"
  shows "x = 0"
  using assms constant_value [of e v _ x]
  by (cases v) (auto simp: isZeroConstant_def isConstantEqual_def split: option.splits attr.splits
      elim!: getConstantIndex.elims getConstantFloat.elims)

definition both :: "(int \<Rightarrow> int \<Rightarrow> bool) \<Rightarrow> int option \<Rightarrow> int option \<Rightarrow> bool" where
  "both Q l r = (case (l, r) of (Some x, Some y) \<Rightarrow> Q x y | _ \<Rightarrow> True)"

fun exact :: "env \<Rightarrow> val \<Rightarrow> bool" where
  "exact e (Bin i t f a b) =
     (exact e a \<and> exact e b \<and>
      (if f = AddI then both (\<lambda>x y. in64 (x + y)) (eval e a) (eval e b)
       else if f = MulI then both (\<lambda>x y. in64 (x * y)) (eval e a) (eval e b)
       else if f = SubI then both (\<lambda>x y. in64 (x - y)) (eval e a) (eval e b)
       else f \<in> {MaxUI, DivUI, RemUI} \<longrightarrow> both (\<lambda>x y. 0 \<le> x \<and> 0 \<le> y) (eval e a) (eval e b)))"
| "exact e (Cast i t c a) = exact e a"
| "exact e (CmpI i p a b) =
     (exact e a \<and> exact e b \<and>
      (p \<in> {Cult, Cule, Cugt, Cuge} \<longrightarrow> both (\<lambda>x y. 0 \<le> x \<and> 0 \<le> y) (eval e a) (eval e b)))"
| "exact e (Select i t c a b) = (exact e c \<and> exact e a \<and> exact e b)"
| "exact e _ = True"

definition plain :: "env \<Rightarrow> val \<Rightarrow> bool" where
  "plain e v \<longleftrightarrow> fold_safe e v \<and> exact e v \<and> type_of v \<noteq> IntTy 1"

text \<open>An induction variable is at least the value of its lower bound.\<close>

definition loops_ok :: "loop_env \<Rightarrow> env \<Rightarrow> bool" where
  "loops_ok L e \<longleftrightarrow>
     (\<forall>b iv lb ub st x. L b = Some (iv, lb, ub, st) \<and> eval e iv = Some x \<longrightarrow>
        plain e lb \<and> (\<exists>l. eval e lb = Some l \<and> l \<le> x))"

lemma exact_strip: "exact e v \<Longrightarrow> exact e (stripNumericCasts v)"
  by (induction v rule: stripNumericCasts.induct) auto

lemma plain_strip:
  "plain e v \<Longrightarrow> plain e (stripNumericCasts v) \<and> eval e (stripNumericCasts v) = eval e v"
  using strip_safe [of e v] exact_strip [of e v] by (auto simp: plain_def)

lemma fold_safe_i1: "fold_safe e (Bin i t f a b) \<Longrightarrow> t \<noteq> IntTy 1 \<and> type_of a \<noteq> IntTy 1 \<and> type_of b \<noteq> IntTy 1"
  by auto

lemma plain_bin:
  assumes "plain e (Bin i t f a b)"
  shows "plain e a" "plain e b" "width t = 64"
  using assms by (auto simp: plain_def)

lemma plain_select:
  assumes "plain e (Select i t c a b)"
  shows "plain e a" "plain e b" "fold_safe e c" "exact e c" "type_of c = IntTy 1"
  using assms by (simp_all add: plain_def)

lemma plain_bin_value:
  assumes "plain e (Bin i t f a b)" "eval e (Bin i t f a b) = Some x"
  obtains y z where "eval e a = Some y" "eval e b = Some z" "bin_sem t f y z = Some x" "in64 y" "in64 z"
    "f = AddI \<Longrightarrow> in64 (y + z)" "f = MulI \<Longrightarrow> in64 (y * z)" "f = SubI \<Longrightarrow> in64 (y - z)"
    "f \<in> {MaxUI, DivUI, RemUI} \<Longrightarrow> 0 \<le> y \<and> 0 \<le> z"
proof -
  obtain y z where yz: "eval e a = Some y" "eval e b = Some z" "bin_sem t f y z = Some x"
    using assms(2) by (auto split: option.splits)
  moreover have "in64 y" "in64 z" using assms(1) yz eval_in64 by (auto simp: plain_def)
  moreover have "if f = AddI then in64 (y + z) else if f = MulI then in64 (y * z)
      else if f = SubI then in64 (y - z)
      else f \<in> {MaxUI, DivUI, RemUI} \<longrightarrow> 0 \<le> y \<and> 0 \<le> z"
    using assms(1) yz by (simp add: plain_def both_def split: if_splits)
  ultimately show ?thesis using that by (auto split: if_splits)
qed

lemma nonneg_ops:
  assumes "width t = 64" "in64 y" "in64 z" "0 \<le> y" "0 \<le> z" "bin_sem t f y z = Some x"
    and "f = MaxUI \<or> f = DivUI \<or> f = RemUI \<or> f = MinUI"
  shows "0 \<le> x"
proof -
  have u: "uns_at t y = y" "uns_at t z = z" using assms by (simp_all add: uns_at_64 u64_id in64_def)
  have "y div z \<le> y" if "z \<noteq> 0" using assms that using int_div_le_self [of y z] by (simp add: zdiv_mono2 [of y 1 z, simplified])
  moreover have "y mod z \<le> y" if "z \<noteq> 0" using assms that by (simp add: zmod_le_nonneg_dividend)
  ultimately have "in64 (y div z)" "in64 (y mod z)" if "z \<noteq> 0"
    using assms that by (auto simp: in64_def pos_imp_zdiv_nonneg_iff
        intro: order_trans [of _ 0] le_less_trans)
  then show ?thesis
    using assms u by (auto simp: sgn_at_64 wrap64_id pos_imp_zdiv_nonneg_iff split: if_splits)
qed

lemma exact_ops:
  assumes "width t = 64" "bin_sem t f y z = Some x"
  shows "f = AddI \<Longrightarrow> in64 (y + z) \<Longrightarrow> x = y + z"
    and "f = MulI \<Longrightarrow> in64 (y * z) \<Longrightarrow> x = y * z"
    and "f = SubI \<Longrightarrow> in64 (y - z) \<Longrightarrow> x = y - z"
  using assms by (auto simp: sgn_at_64 wrap64_id)

lemma clamp_value:
  assumes svc: "services_sound P e" and clamp: "clamp_of_negative P c b"
    and c: "fold_safe e c" "exact e c" "type_of c = IntTy 1" "eval e c = Some k" and b: "plain e b" "eval e b = Some y"
  shows "k = 0 \<Longrightarrow> 0 \<le> y"
proof -
  assume k: "k = 0"
  obtain i p u v where cmp: "stripNumericCasts c = CmpI i p u v"
    using clamp by (auto simp: clamp_of_negative_def split: val.splits)
  have s: "fold_safe e (CmpI i p u v)" "exact e (CmpI i p u v)" "eval e (CmpI i p u v) = Some k"
    unfolding cmp [symmetric] using c strip_safe [of e c] exact_strip [of e c] by simp_all
  then obtain l r where lr: "eval e u = Some l" "eval e v = Some r" "\<not> cmp_sem (type_of u) p l r"
    using k by (auto split: option.splits if_splits)
  have uv: "plain e u" "plain e v" "width_ok (type_of u)" "type_of u = type_of v"
  proof -
    have t: "type_of u = type_of v" "type_of u \<noteq> IntTy 1" and f: "fold_safe e u" "fold_safe e v"
      and x: "exact e u" "exact e v"
      using s(1,2) unfolding fold_safe.simps exact.simps by blast+
    show "plain e u" "plain e v" "width_ok (type_of u)" "type_of u = type_of v"
      using t f x width_safe [OF f(1)] unfolding plain_def by simp_all
  qed
  have su: "plain e (stripNumericCasts u)" "eval e (stripNumericCasts u) = Some l"
    and sv: "plain e (stripNumericCasts v)" "eval e (stripNumericCasts v) = Some r"
    using plain_strip uv lr by auto
  have same: "x = y" if "sameValue P w b" "plain e w" "eval e w = Some x" for w x
    using sameValue_value [OF svc that(1)] that b by (auto simp: plain_def)
  have zero: "x = 0" if "isZeroConstant w" "plain e w" "eval e w = Some x" for w x
    using zero_constant_value that by (auto simp: plain_def)
  have range: "sgn_at (type_of u) l = l" "sgn_at (type_of u) r = r"
    using eval_sgn_at [of e u l] eval_sgn_at [of e v r] uv(1,2,4) lr(1,2) unfolding plain_def by simp_all
  have pos: "0 \<le> l \<and> 0 \<le> r" if "p \<in> {Cult, Cugt}"
    using s(2) lr that by (auto simp: both_def)
  have "p \<in> {Cslt, Cult} \<and> sameValue P (stripNumericCasts u) b \<and> isZeroConstant (stripNumericCasts v) \<or>
      p \<in> {Csgt, Cugt} \<and> sameValue P (stripNumericCasts v) b \<and> isZeroConstant (stripNumericCasts u)"
    using clamp unfolding clamp_of_negative_def cmp val.case Let_def by (auto split: if_splits)
  then have "p \<in> {Cslt, Cult} \<and> l = y \<and> r = 0 \<or> p \<in> {Csgt, Cugt} \<and> r = y \<and> l = 0"
    using same su sv zero by blast
  then show "0 \<le> y" using pos lr(3) by auto
qed

lemma nonneg_aux:
  assumes svc: "services_sound P e" and cfg: "configured P e" and loops: "loops_ok L e"
  shows "isKnownNonNegative P L d u \<Longrightarrow> plain e u \<Longrightarrow> eval e u = Some x \<Longrightarrow> 0 \<le> x"
proof (induction "9 - d" arbitrary: d u x rule: less_induct)
  case less
  have d: "\<not> d > 8" using less.prems(1) by (subst (asm) isKnownNonNegative.simps) (simp split: if_splits)
  have IH: "0 \<le> y" if "isKnownNonNegative P L (d + 1) w" "plain e w" "eval e w = Some y" for w y
    using less.hyps [of "d + 1" w y] that d by simp
  define v where "v = stripNumericCasts u"
  have v: "plain e v" "eval e v = Some x" using plain_strip less.prems v_def by auto
  have fold: "y = c" if "arts_tryFoldConstantIndex P 0 w = Some c" "plain e w" "eval e w = Some y" for w c y
    using arts_fold_value [OF svc cfg _ _ that(1)] that by (simp add: plain_def)
  note known = less.prems(1) [unfolded isKnownNonNegative.simps [of P L d u] Let_def, folded v_def]
  show ?case
  proof (cases "arts_tryFoldConstantIndex P 0 v")
    case (Some c)
    then show ?thesis using known d fold [OF Some v] by simp
  next
    case None
    note known = known [unfolded None option.case, simplified d if_False]
    show ?thesis
    proof (cases v)
      case (BlockArg b n t dep)
      then obtain lb ub st where L: "L b = Some (v, lb, ub, st)" "isKnownNonNegative P L (d + 1) lb"
        using known by (auto simp: induction_loop_def split: option.splits if_splits)
      then obtain l where "plain e lb" "eval e lb = Some l" "l \<le> x"
        using loops v unfolding loops_ok_def by blast
      then show ?thesis using IH [OF L(2)] by fastforce
    next
      case (Bin i t f a b)
      note pv = v [unfolded Bin]
      from plain_bin_value [OF pv] obtain y z where
        yz: "eval e a = Some y" "eval e b = Some z" "bin_sem t f y z = Some x" "in64 y" "in64 z"
          "f = AddI \<Longrightarrow> in64 (y + z)" "f = MulI \<Longrightarrow> in64 (y * z)"
          "f \<in> {MaxUI, DivUI, RemUI} \<Longrightarrow> 0 \<le> y \<and> 0 \<le> z" by metis
      have ab: "plain e a" "plain e b" "width t = 64" using plain_bin [OF pv(1)] by auto
      have f: "f = MaxUI \<or> f = AddI \<or> f = MulI \<or> f = DivUI \<or> f = RemUI"
        using known Bin by (auto split: if_splits)
      have mul: "0 \<le> y \<and> 0 \<le> z" if "f = MulI"
      proof -
        have sa: "plain e (stripNumericCasts a)" "eval e (stripNumericCasts a) = Some y"
          and sb: "plain e (stripNumericCasts b)" "eval e (stripNumericCasts b) = Some z"
          using plain_strip ab yz by auto
        note known = known [unfolded Bin val.case that, simplified, unfolded Let_def]
        show ?thesis
        proof (cases "arts_tryFoldConstantIndex P 0 (stripNumericCasts a)")
          case (Some c)
          then show ?thesis using known IH [OF _ sb] fold [OF Some sa] by simp
        next
          case none: None
          show ?thesis
          proof (cases "arts_tryFoldConstantIndex P 0 (stripNumericCasts b)")
            case (Some c)
            then show ?thesis using known none IH [OF _ sa] fold [OF Some sb] by simp
          next
            case None
            then show ?thesis using known none IH [OF _ sa] IH [OF _ sb] by simp
          qed
        qed
      qed
      have add: "0 \<le> y \<and> 0 \<le> z" if "f = AddI"
        using known Bin that IH [OF _ ab(1) yz(1)] IH [OF _ ab(2) yz(2)] by simp
      show ?thesis
        using f
      proof (elim disjE)
        assume "f = AddI" then show ?thesis using add exact_ops(1) [OF ab(3) yz(3)] yz(6) by simp
      next
        assume "f = MulI" then show ?thesis using mul exact_ops(2) [OF ab(3) yz(3)] yz(7) by simp
      qed (use nonneg_ops [OF ab(3) yz(4,5) _ _ yz(3)] yz(8) in simp_all)
    next
      case (Select i t c a b)
      have s: "plain e a" "plain e b" "fold_safe e c" "exact e c" "type_of c = IntTy 1"
        using plain_select [of e i t c a b] v(1) unfolding Select by blast+
      obtain k where k: "eval e c = Some k" using v(2) Select by (auto split: option.splits)
      have x: "(if k \<noteq> 0 then eval e a else eval e b) = Some x" using v(2) Select k by simp
      show ?thesis
      proof (cases "tryFoldBool P c")
        case (Some q)
        then have "q = (k \<noteq> 0)"
          using arts_fold_agrees [OF svc cfg s(3) _ k] s(5) by (auto simp: tryFoldBool_def agrees_def split: option.splits)
        then show ?thesis using known Select Some IH s x by (auto split: if_splits)
      next
        case None
        note known = known [unfolded Select val.case None option.case Let_def]
        have sa: "plain e (stripNumericCasts a)" "eval e (stripNumericCasts a) = eval e a"
          and sb: "plain e (stripNumericCasts b)" "eval e (stripNumericCasts b) = eval e b"
          using plain_strip s by auto
        show ?thesis
        proof (cases "isZeroConstant (stripNumericCasts a)")
          case False
          then show ?thesis using known IH sa sb x by (auto split: if_splits)
        next
          case True
          then have "clamp_of_negative P c (stripNumericCasts b)" using known by simp
          from clamp_value [OF svc this s(3-5) k sb(1)]
          have "k = 0 \<Longrightarrow> 0 \<le> x" using sb x by simp
          moreover have "k \<noteq> 0 \<Longrightarrow> x = 0"
            using zero_constant_value [OF True] sa x by (auto simp: plain_def split: if_splits)
          ultimately show ?thesis by fastforce
        qed
      qed
    qed (use known in simp_all)
  qed
qed

section \<open>Soundness of the block-base matching\<close>

text \<open>A clamp \<open>maxui(x, 1)\<close> is idle when \<open>x\<close> is not zero: stripping it does not change the value.\<close>

fun idle :: "env \<Rightarrow> val \<Rightarrow> bool" where
  "idle e (Bin i t f a b) =
     (idle e a \<and> idle e b \<and> (f = MaxUI \<longrightarrow> both (\<lambda>x y. x \<noteq> 0 \<and> y \<noteq> 0) (eval e a) (eval e b)))"
| "idle e (Cast i t c a) = idle e a"
| "idle e (Select i t c a b) = (idle e a \<and> idle e b)"
| "idle e _ = True"

definition regular :: "env \<Rightarrow> val \<Rightarrow> bool" where
  "regular e v \<longleftrightarrow> plain e v \<and> idle e v"

lemma idle_strip: "idle e v \<Longrightarrow> idle e (stripNumericCasts v)"
  by (induction v rule: stripNumericCasts.induct) auto

lemma regular_strip:
  "regular e v \<Longrightarrow> regular e (stripNumericCasts v) \<and> eval e (stripNumericCasts v) = eval e v"
  using plain_strip idle_strip by (auto simp: regular_def)

lemma regular_bin:
  assumes "regular e (Bin i t f a b)"
  shows "regular e a" "regular e b" "width t = 64"
  using assms plain_bin [of e i t f a b] by (auto simp: regular_def)

lemma one_value: "isOneConstant v \<Longrightarrow> plain e v \<Longrightarrow> eval e v = Some x \<Longrightarrow> x = 1"
  using one_constant_eval by (auto simp: plain_def)

lemma max_idle:
  assumes reg: "regular e (Bin i t MaxUI a b)" and x: "eval e (Bin i t MaxUI a b) = Some x"
  shows "isOneConstant (stripNumericCasts a) \<Longrightarrow> eval e (stripNumericCasts b) = Some x"
    and "isOneConstant (stripNumericCasts b) \<Longrightarrow> eval e (stripNumericCasts a) = Some x"
proof -
  have p: "plain e (Bin i t MaxUI a b)" using reg by (simp add: regular_def)
  from plain_bin_value [OF p x] obtain y z where
    yz: "eval e a = Some y" "eval e b = Some z" "bin_sem t MaxUI y z = Some x" "in64 y" "in64 z" by metis
  have ab: "plain e a" "plain e b" "width t = 64" using plain_bin [OF p] by auto
  have "y \<noteq> 0" "z \<noteq> 0" using reg yz by (auto simp: regular_def both_def)
  moreover have sa: "eval e (stripNumericCasts a) = Some y" "plain e (stripNumericCasts a)"
    and sb: "eval e (stripNumericCasts b) = Some z" "plain e (stripNumericCasts b)"
    using plain_strip ab yz by auto
  ultimately show "isOneConstant (stripNumericCasts a) \<Longrightarrow> eval e (stripNumericCasts b) = Some x"
    "isOneConstant (stripNumericCasts b) \<Longrightarrow> eval e (stripNumericCasts a) = Some x"
    using max_one_sem [OF ab(3)] yz one_value [OF _ sa(2,1)] one_value [OF _ sb(2,1)] by auto
qed

lemma regular_clamp_loop:
  "regular e v \<Longrightarrow> eval e v = Some x \<Longrightarrow> regular e (strip_clamp_loop v) \<and> eval e (strip_clamp_loop v) = Some x"
proof (induction v arbitrary: x rule: strip_clamp_loop.induct)
  case (1 i t f a b)
  show ?case
  proof (cases "f = MaxUI")
    case True
    note reg = "1.prems" [unfolded True]
    have r: "regular e (stripNumericCasts a)" "regular e (stripNumericCasts b)"
      using regular_bin [OF reg(1)] regular_strip by auto
    show ?thesis
      using True "1.IH"(1) [OF True refl refl] "1.IH"(2) [OF True refl refl] r max_idle [OF reg] reg
      by (auto simp: Let_def)
  next
    case False
    then show ?thesis using "1.prems" by simp
  qed
qed simp_all

lemma regular_clamp:
  assumes "regular e v" "eval e v = Some x"
  shows "regular e (stripClampOne v) \<and> eval e (stripClampOne v) = Some x"
  using regular_clamp_loop [of e "stripNumericCasts v" x] regular_strip [of e v] assms
  by (simp add: stripClampOne_def)

lemma same_regular:
  assumes "services_sound P e" "sameValue P a b" "regular e a" "regular e b" "eval e a = Some x" "eval e b = Some y"
  shows "x = y"
  using sameValue_value [OF assms(1,2)] assms(3-) by (simp add: regular_def plain_def)

lemma regular_product:
  assumes svc: "services_sound P e" and v: "regular e (Bin i t MulI a b)" "eval e (Bin i t MulI a b) = Some x"
  obtains y z where "regular e (stripClampOne a)" "eval e (stripClampOne a) = Some y"
    "regular e (stripClampOne b)" "eval e (stripClampOne b) = Some z" "x = y * z" "in64 (y * z)"
proof -
  have p: "plain e (Bin i t MulI a b)" using v(1) by (simp add: regular_def)
  from plain_bin_value [OF p v(2)] obtain y z where
    yz: "eval e a = Some y" "eval e b = Some z" "bin_sem t MulI y z = Some x" "in64 (y * z)" by metis
  then show ?thesis
    using that regular_clamp [of e a y] regular_clamp [of e b z] regular_bin [OF v(1)] exact_ops(2) [of t MulI y z x]
    by simp
qed

lemma mul_of_value:
  assumes svc: "services_sound P e" and mul: "isMulOf P v l r"
    and v: "regular e v" "eval e v = Some x" and l: "regular e l" "eval e l = Some y"
    and r: "regular e r" "eval e r = Some z"
  shows "x = y * z"
proof -
  obtain i t a b where s: "stripClampOne v = Bin i t MulI a b"
    using mul by (auto simp: isMulOf_def Let_def split: val.splits binop.splits)
  have m: "regular e (Bin i t MulI a b)" "eval e (Bin i t MulI a b) = Some x"
    using regular_clamp [OF v] s by simp_all
  from regular_product [OF svc m] obtain p q where
    pq: "regular e (stripClampOne a)" "eval e (stripClampOne a) = Some p"
      "regular e (stripClampOne b)" "eval e (stripClampOne b) = Some q" "x = p * q" by metis
  note same = same_regular [OF svc]
  have "p = y \<and> q = z \<or> p = z \<and> q = y"
    using mul s regular_clamp [OF l] regular_clamp [OF r] pq same [OF _ pq(1) _ pq(2)] same [OF _ pq(3) _ pq(4)]
    by (auto simp: isMulOf_def Let_def)
  then show ?thesis using pq(5) by auto
qed

lemma start_block_cases:
  obtains (same) "canonicalizeStartBlock P sb bs = stripClampOne sb"
    | (div) i t a d j u p q where "stripClampOne sb = Bin i t DivUI a d"
        "sameValue P (stripClampOne d) (stripClampOne bs)" "stripClampOne a = Bin j u MulI p q"
        "sameValue P (stripClampOne p) (stripClampOne bs) \<and> canonicalizeStartBlock P sb bs = stripClampOne q \<or>
         sameValue P (stripClampOne q) (stripClampOne bs) \<and> canonicalizeStartBlock P sb bs = stripClampOne p"
proof (cases "\<exists>i t a d j u p q. stripClampOne sb = Bin i t DivUI a d \<and>
    sameValue P (stripClampOne d) (stripClampOne bs) \<and> stripClampOne a = Bin j u MulI p q")
  case False
  then have "canonicalizeStartBlock P sb bs = stripClampOne sb"
    unfolding canonicalizeStartBlock_def Let_def by (simp split: val.split binop.split) blast
  then show ?thesis by (rule that(1))
next
  case True
  then obtain i t a d j u p q where sh: "stripClampOne sb = Bin i t DivUI a d"
    "sameValue P (stripClampOne d) (stripClampOne bs)" "stripClampOne a = Bin j u MulI p q" by blast
  then have "canonicalizeStartBlock P sb bs =
      (if sameValue P (stripClampOne p) (stripClampOne bs) then stripClampOne q
       else if sameValue P (stripClampOne q) (stripClampOne bs) then stripClampOne p else stripClampOne sb)"
    by (simp add: canonicalizeStartBlock_def Let_def)
  then show ?thesis using that sh by (cases "sameValue P (stripClampOne p) (stripClampOne bs)") (auto split: if_splits)
qed

lemma start_block_value:
  assumes svc: "services_sound P e"
    and s: "regular e sb" "eval e sb = Some y" and b: "regular e bs" "eval e bs = Some z"
  shows "regular e (canonicalizeStartBlock P sb bs) \<and> eval e (canonicalizeStartBlock P sb bs) = Some y"
proof -
  note s' = regular_clamp [OF s] and b' = regular_clamp [OF b]
  note same = same_regular [OF svc]
  consider (same) "canonicalizeStartBlock P sb bs = stripClampOne sb"
    | (div) i t a d j u p q where "stripClampOne sb = Bin i t DivUI a d"
        "sameValue P (stripClampOne d) (stripClampOne bs)" "stripClampOne a = Bin j u MulI p q"
        "sameValue P (stripClampOne p) (stripClampOne bs) \<and> canonicalizeStartBlock P sb bs = stripClampOne q \<or>
         sameValue P (stripClampOne q) (stripClampOne bs) \<and> canonicalizeStartBlock P sb bs = stripClampOne p"
    by (rule start_block_cases)
  then show ?thesis
  proof cases
    case same
    then show ?thesis using s' by simp
  next
    case (div i t a d j u p q)
    have r: "regular e (Bin i t DivUI a d)" "eval e (Bin i t DivUI a d) = Some y" using s' div(1) by simp_all
    have pl: "plain e (Bin i t DivUI a d)" using r(1) by (simp add: regular_def)
    obtain n m where
      nm: "eval e a = Some n" "eval e d = Some m" "bin_sem t DivUI n m = Some y" "in64 n" "in64 m" "0 \<le> n \<and> 0 \<le> m"
      by (rule plain_bin_value [OF pl r(2)]) simp
    note d' = regular_clamp [OF regular_bin(2) [OF r(1)] nm(2)] and a' = regular_clamp [OF regular_bin(1) [OF r(1)] nm(1)]
    have mz: "m = z" using same [OF div(2)] d' b' by simp
    from a' div(3) have "regular e (Bin j u MulI p q)" "eval e (Bin j u MulI p q) = Some n" by simp_all
    from regular_product [OF svc this] obtain k l where
      kl: "regular e (stripClampOne p)" "eval e (stripClampOne p) = Some k"
        "regular e (stripClampOne q)" "eval e (stripClampOne q) = Some l" "n = k * l" by metis
    have w: "width t = 64" using regular_bin [OF r(1)] by simp
    have m0: "m \<noteq> 0" and y: "y = wrap64 (n div m)"
      using nm w by (auto simp: sgn_at_64 uns_at_64 u64_id in64_def split: if_splits)
    have in_kl: "in64 k" "in64 l" using kl eval_in64 by (auto simp: regular_def plain_def)
    from div(4) show ?thesis
    proof
      assume "sameValue P (stripClampOne p) (stripClampOne bs) \<and> canonicalizeStartBlock P sb bs = stripClampOne q"
      then show ?thesis using same [OF _ kl(1) _ kl(2)] b' kl mz m0 y in_kl by (auto simp: wrap64_id)
    next
      assume "sameValue P (stripClampOne q) (stripClampOne bs) \<and> canonicalizeStartBlock P sb bs = stripClampOne p"
      then show ?thesis using same [OF _ kl(3) _ kl(4)] b' kl mz m0 y in_kl by (auto simp: wrap64_id)
    qed
  qed
qed

lemma local_index_value:
  assumes svc: "services_sound P e" and loc: "extractLocalFromBlockBase P g sb bs = Some w"
    and g: "regular e g" "eval e g = Some x" and s: "regular e sb" "eval e sb = Some y"
    and b: "regular e bs" "eval e bs = Some z"
  shows "\<exists>k. eval e w = Some k \<and> x = y * z + k"
proof -
  let ?sb = "canonicalizeStartBlock P sb bs"
  obtain i t a d where st: "stripNumericCasts g = Bin i t AddI a d"
    and m: "isMulOf P (stripNumericCasts a) ?sb bs \<and> w = stripNumericCasts d \<or>
            isMulOf P (stripNumericCasts d) ?sb bs \<and> w = stripNumericCasts a"
    using loc by (auto simp: extractLocalFromBlockBase_def Let_def split: val.splits binop.splits if_splits)
  have r: "regular e (Bin i t AddI a d)" "eval e (Bin i t AddI a d) = Some x" using regular_strip [OF g(1)] g st by simp_all
  have pl: "plain e (Bin i t AddI a d)" using r(1) by (simp add: regular_def)
  from plain_bin_value [OF pl r(2)] obtain p q where
    pq: "eval e a = Some p" "eval e d = Some q" "bin_sem t AddI p q = Some x" "in64 (p + q)" by metis
  have x: "x = p + q" using exact_ops(1) pq regular_bin [OF r(1)] by blast
  have sa: "regular e (stripNumericCasts a)" "eval e (stripNumericCasts a) = Some p"
    and sd: "regular e (stripNumericCasts d)" "eval e (stripNumericCasts d) = Some q"
    using regular_strip regular_bin [OF r(1)] pq by auto
  note sb' = start_block_value [OF svc s b]
  from m show ?thesis
  proof
    assume "isMulOf P (stripNumericCasts a) ?sb bs \<and> w = stripNumericCasts d"
    then show ?thesis using mul_of_value [OF svc _ sa _ _ b] sb' sd x by auto
  next
    assume "isMulOf P (stripNumericCasts d) ?sb bs \<and> w = stripNumericCasts a"
    then show ?thesis using mul_of_value [OF svc _ sd _ _ b] sb' sa x by auto
  qed
qed

section \<open>Soundness of the extent normalisation\<close>

text \<open>
  \<open>bare\<close>: no select and no unsigned maximum among the casts and arithmetic of the extent,
  so that no clamp is stripped from it.
\<close>

fun bare :: "val \<Rightarrow> bool" where
  "bare (Bin i t f a b) = (f \<noteq> MaxUI \<and> bare a \<and> bare b)"
| "bare (Cast i t c a) = bare a"
| "bare (Select i t c a b) = False"
| "bare _ = True"

definition extent_ok :: "env \<Rightarrow> val \<Rightarrow> bool" where
  "extent_ok e v \<longleftrightarrow> fold_safe e v \<and> attr_free v \<and> bare v \<and> type_of v \<noteq> IntTy 1"

lemma bare_strip: "bare v \<Longrightarrow> bare (stripNumericCasts v)"
  by (induction v rule: stripNumericCasts.induct) auto

lemma bare_clamp: "bare v \<Longrightarrow> stripClampOne v = stripNumericCasts v"
  using bare_strip [of v] by (cases "stripNumericCasts v") (auto simp: stripClampOne_def)

lemma bare_select: "bare v \<Longrightarrow> stripSelectClamp P (Suc n) v = stripNumericCasts v"
  using bare_strip [of v]
  by (subst stripSelectClamp.simps) (cases "stripNumericCasts v", auto)

lemma bare_normal:
  assumes "bare v"
  shows "stripClampOne (stripSelectClamp P 8 (stripClampOne (stripNumericCasts v))) = stripNumericCasts v"
proof -
  have b: "bare (stripNumericCasts v)" using assms by (rule bare_strip)
  have "stripSelectClamp P 8 (stripNumericCasts v) = stripNumericCasts v"
    using bare_select [OF b, of P 7] by (simp add: eval_nat_numeral)
  then show ?thesis using bare_clamp [OF b] by simp
qed

lemma extent_strip:
  "extent_ok e v \<Longrightarrow> extent_ok e (stripNumericCasts v) \<and> eval e (stripNumericCasts v) = eval e v"
  using strip_safe [of e v] bare_strip strip_attr_free by (auto simp: extent_ok_def)

lemma extent_bin:
  assumes "extent_ok e (Bin i t f a b)"
  shows "extent_ok e a" "extent_ok e b" "width t = 64"
  using assms by (auto simp: extent_ok_def)

lemma same_extent_value:
  assumes "services_sound P e" "same_extent P a b" "extent_ok e a" "extent_ok e b"
    and "eval e a = Some x" "eval e b = Some y"
  shows "x = y"
  using assms sameValue_value [OF assms(1)] equivalent_sound_aux
  unfolding same_extent_def extent_ok_def by blast

lemma min_sem:
  assumes "width t = 64" "in64 y" "in64 z"
  shows "bin_sem t MinUI y y = Some y"
    and "bin_sem t MinUI y z = bin_sem t MinUI z y"
    and "bin_sem t MinUI y z = Some w \<Longrightarrow> width s = 64 \<Longrightarrow> bin_sem s MinUI y w = Some w"
  using assms bin_sem_comm [of MinUI t y z] by (auto simp: uns_at_64 split: if_splits)

definition absorbed_by :: "mlir \<Rightarrow> nat \<Rightarrow> val \<Rightarrow> val \<Rightarrow> bool" where
  "absorbed_by P depth x y =
     (case y of
        Bin j s g p q \<Rightarrow>
          g = MinUI \<and>
          (same_extent P x (normalizeOwnedSliceExtent P (depth + 1) p) \<or>
           same_extent P x (normalizeOwnedSliceExtent P (depth + 1) q))
      | _ \<Rightarrow> False)"

lemma normalize_min:
  assumes "\<not> depth > 8" "bare u" "stripNumericCasts u = Bin i t MinUI a b"
  shows "normalizeOwnedSliceExtent P depth u =
    (let lhs = normalizeOwnedSliceExtent P (depth + 1) a; rhs = normalizeOwnedSliceExtent P (depth + 1) b
     in if same_extent P lhs rhs then lhs
        else if absorbed_by P depth lhs rhs then rhs
        else if absorbed_by P depth rhs lhs then lhs
        else Bin i t MinUI a b)"
  by (subst normalizeOwnedSliceExtent.simps, unfold bare_normal [OF assms(2)], unfold assms(3) Let_def)
    (simp only: assms(1) if_False val.case absorbed_by_def Let_def simp_thms)

lemma normalize_other:
  assumes "depth > 8 \<or> (\<forall>i t a b. stripNumericCasts u \<noteq> Bin i t MinUI a b)" "bare u"
  shows "normalizeOwnedSliceExtent P depth u = (if depth > 8 then u else stripNumericCasts u)"
proof (cases "depth > 8")
  case True
  then show ?thesis by (subst normalizeOwnedSliceExtent.simps) simp
next
  case False
  have "normalizeOwnedSliceExtent P depth u = stripNumericCasts u"
  proof (cases "stripNumericCasts u")
    case (Bin i t f a b)
    then have "f \<noteq> MinUI" using assms(1) False by blast
    then show ?thesis
      by (subst normalizeOwnedSliceExtent.simps, unfold bare_normal [OF assms(2)], unfold Bin Let_def)
        (simp add: False)
  qed (subst normalizeOwnedSliceExtent.simps, unfold bare_normal [OF assms(2)], simp add: False Let_def)+
  then show ?thesis using False by simp
qed

lemma normalized_extent:
  assumes svc: "services_sound P e"
  shows "extent_ok e u \<Longrightarrow> eval e u = Some x \<Longrightarrow>
    extent_ok e (normalizeOwnedSliceExtent P d u) \<and> eval e (normalizeOwnedSliceExtent P d u) = Some x"
proof (induction "9 - d" arbitrary: d u x rule: less_induct)
  case less
  have bare: "bare u" using less.prems by (simp add: extent_ok_def)
  show ?case
  proof (cases "\<not> d > 8 \<and> (\<exists>i t a b. stripNumericCasts u = Bin i t MinUI a b)")
    case False
    then show ?thesis using less.prems extent_strip [of e u] normalize_other [OF _ bare, of d P] by auto
  next
    case True
    then obtain i t a b where d: "\<not> d > 8" and st: "stripNumericCasts u = Bin i t MinUI a b" by blast
    have IH: "extent_ok e (normalizeOwnedSliceExtent P (d + 1) w) \<and>
        eval e (normalizeOwnedSliceExtent P (d + 1) w) = Some y" if "extent_ok e w" "eval e w = Some y" for w y
      using less.hyps [of "d + 1" w y] that d by simp
    have u: "extent_ok e (Bin i t MinUI a b)" "eval e (Bin i t MinUI a b) = Some x"
      using extent_strip [OF less.prems(1)] less.prems(2) st by simp_all
    then obtain y z where yz: "eval e a = Some y" "eval e b = Some z" "bin_sem t MinUI y z = Some x"
      by (auto split: option.splits)
    define l where "l = normalizeOwnedSliceExtent P (d + 1) a"
    define r where "r = normalizeOwnedSliceExtent P (d + 1) b"
    have l: "extent_ok e l" "eval e l = Some y" and r: "extent_ok e r" "eval e r = Some z"
      unfolding l_def r_def using IH extent_bin [OF u(1)] yz by auto
    have w: "width t = 64" "in64 y" "in64 z"
      using extent_bin [OF u(1)] yz eval_in64 by (auto simp: extent_ok_def)
    have absorb: "n = k" if "absorbed_by P d p q" "extent_ok e p" "eval e p = Some m" "extent_ok e q" "eval e q = Some n"
      "in64 m" "bin_sem t MinUI m n = Some k" for p q m n k
    proof -
      note ab = that
      obtain j s p' q' where q: "q = Bin j s MinUI p' q'"
        and eq: "same_extent P p (normalizeOwnedSliceExtent P (d + 1) p') \<or>
                 same_extent P p (normalizeOwnedSliceExtent P (d + 1) q')"
        using ab(1) by (auto simp: absorbed_by_def split: val.splits)
      obtain g h where gh: "eval e p' = Some g" "eval e q' = Some h" "bin_sem s MinUI g h = Some n"
        using ab(5) q by (auto split: option.splits)
      have pq: "extent_ok e p'" "extent_ok e q'" "width s = 64" using extent_bin [of e j s MinUI p' q'] ab(4) unfolding q by blast+
      have "in64 g" "in64 h" using pq gh eval_in64 by (auto simp: extent_ok_def)
      moreover have "m = g \<or> m = h"
        using eq same_extent_value [OF svc _ ab(2) _ ab(3)] IH [OF pq(1) gh(1)] IH [OF pq(2) gh(2)] by blast
      ultimately have "bin_sem t MinUI m n = Some n"
        using min_sem(3) [OF pq(3) _ _ _ w(1)] min_sem(2) [OF pq(3)] gh(3) by metis
      then show ?thesis using ab(7) by simp
    qed
    note norm = normalize_min [OF d bare st, of P, folded l_def r_def, unfolded Let_def]
    show ?thesis
    proof (cases "same_extent P l r")
      case True
      then have "y = z" using same_extent_value [OF svc _ l(1) r(1) l(2) r(2)] by simp
      then show ?thesis using True norm l yz(3) min_sem(1) [OF w(1,2,2)] by simp
    next
      case not_same: False
      show ?thesis
      proof (cases "absorbed_by P d l r")
        case True
        then show ?thesis using not_same norm r absorb [OF True l r w(2) yz(3)] by simp
      next
        case not_left: False
        show ?thesis
        proof (cases "absorbed_by P d r l")
          case True
          have "bin_sem t MinUI z y = Some x" using min_sem(2) [OF w] yz(3) by simp
          then show ?thesis using True not_same not_left norm l absorb [OF True r l w(3)] by simp
        next
          case False
          then show ?thesis using not_same not_left norm u by simp
        qed
      qed
    qed
  qed
qed

lemma equivalent_extent_value:
  assumes "services_sound P e" "areEquivalentOwnedSliceExtents P a b" "extent_ok e a" "extent_ok e b"
    and "eval e a = Some x" "eval e b = Some y"
  shows "x = y"
  using same_extent_value [OF assms(1)] normalized_extent [OF assms(1)] assms(2-)
  unfolding areEquivalentOwnedSliceExtents_def same_extent_def Let_def by blast

section \<open>Properties\<close>

text \<open>
  C20: The sign test is sound. An expression \<open>isKnownNonNegative\<close> accepts at any depth has a
  non-negative value, whenever arithmetic is on 64-bit types, sums, differences and products
  do not wrap, casts lose nothing, the operands of unsigned maxima, divisions, remainders and
  comparisons are non-negative (the test takes such an operation for non-negative without
  looking at all its operands), every induction variable is at least its lower bound, and
  the bounds solver and the runtime configuration are as the module says. Nothing is assumed
  of other operations: a minimum or a signed division is never accepted unless it folds.
\<close>

theorem isKnownNonNegative_sound:
  assumes "isKnownNonNegative P L d v" "services_sound P e" "configured P e" "loops_ok L e"
    and "plain e v" "eval e v = Some x"
  shows "0 \<le> x"
  using nonneg_aux assms by blast

definition sample_iv :: val where
  "sample_iv = BlockArg 7 0 IndexTy None"

definition sample_loops :: loop_env where
  "sample_loops = (\<lambda>b. if b = 7 then Some (sample_iv, index_const 1 0, index_const 2 64, index_const 3 1) else None)"

definition sample_run :: env where
  "sample_run = with_module no_services (no_env\<lparr>arg_val := (\<lambda>b n. 5)\<rparr>)"

lemma sample_run_ok:
  "services_sound no_services sample_run" "configured no_services sample_run" "loops_ok sample_loops sample_run"
proof -
  show "services_sound no_services sample_run"
    by (simp add: services_sound_def no_services_def sample_run_def no_env_def with_module_def)
  show "configured no_services sample_run" unfolding sample_run_def by (rule configured_with_module)
  have "plain sample_run (index_const 1 0)" "eval sample_run (index_const 1 0) = Some 0"
    "eval sample_run sample_iv = Some 5" by code_simp+
  then show "loops_ok sample_loops sample_run"
    by (auto simp: loops_ok_def sample_loops_def simp del: eval.simps split: if_splits)
qed

lemma isKnownNonNegative_sound_witness:
  "let v = Bin 4 IndexTy AddI (Bin 5 IndexTy MulI sample_iv (index_const 6 16)) (index_const 7 3)
   in isKnownNonNegative no_services sample_loops 0 v \<and>
      0 \<le> the (eval sample_run v)"
proof -
  let ?v = "Bin 4 IndexTy AddI (Bin 5 IndexTy MulI sample_iv (index_const 6 16)) (index_const 7 3)"
  have k: "isKnownNonNegative no_services sample_loops 0 ?v" by code_simp
  have v: "eval sample_run ?v = Some 83" by code_simp
  have p: "plain sample_run ?v"
    by code_simp
  have "0 \<le> (83::int)"
    by (rule isKnownNonNegative_sound [OF k sample_run_ok p v])
  then show ?thesis using k v by simp
qed

text \<open>
  C21: Localising a global index is exact. Where index arithmetic does not wrap and the
  clamps to one are idle, the local index \<open>extractLocalFromBlockBase\<close> extracts satisfies
  \<open>global = startBlock * blockSize + local\<close>, also when the start block is written as
  \<open>(block * blockSize) / blockSize\<close> and canonicalised first, and an induction variable
  expression \<open>analyzeIndexExpr\<close> resolves has the value \<open>multiplier * iv + offset\<close> modulo
  two to the 64.
\<close>

theorem localized_index_exact:
  assumes "services_sound P e" "extractLocalFromBlockBase P g sb bs = Some w"
    and "regular e g" "eval e g = Some x" "regular e sb" "eval e sb = Some y"
    and "regular e bs" "eval e bs = Some z"
    and "analyzeIndexExpr loop index = \<lparr>dependsOnIV = True, offset = Some k, multiplier = Some m\<rparr>"
    and "getInductionVar loop = Some iv" "fold_safe e index" "eval e index = Some n"
  shows "(\<exists>l. eval e w = Some l \<and> x = y * z + l) \<and>
    (\<exists>i. eval e iv = Some i \<and> n = wrap64 (m * i + k))"
  using local_index_value [OF assms(1-8)] index_expr_value [OF assms(9-12)] by blast

definition sample_node :: loop_node where
  "sample_node = \<lparr>getInductionVar = Some sample_iv, getLowerBound = Some (index_const 1 0),
     getUpperBound = Some (index_const 2 64), getStep = Some (index_const 3 1), getNestingDepth = 0\<rparr>"

lemma localized_index_exact_witness:
  "let bs = index_const 10 16; blk = BlockArg 8 0 IndexTy None;
       sb = Bin 11 IndexTy DivUI (Bin 12 IndexTy MulI blk bs) bs;
       g = Bin 13 IndexTy AddI (Bin 14 IndexTy MulI bs blk) sample_iv;
       index = Bin 15 IndexTy MulI sample_iv (index_const 16 3)
   in extractLocalFromBlockBase no_services g sb bs = Some sample_iv \<and>
      the (eval sample_run g) = the (eval sample_run sb) * 16 + the (eval sample_run sample_iv) \<and>
      the (eval sample_run index) = 3 * the (eval sample_run sample_iv)"
proof -
  let ?bs = "index_const 10 16" and ?blk = "BlockArg 8 0 IndexTy None"
  let ?sb = "Bin 11 IndexTy DivUI (Bin 12 IndexTy MulI ?blk ?bs) ?bs"
  let ?g = "Bin 13 IndexTy AddI (Bin 14 IndexTy MulI ?bs ?blk) sample_iv"
  let ?index = "Bin 15 IndexTy MulI sample_iv (index_const 16 3)"
  have ex: "extractLocalFromBlockBase no_services ?g ?sb ?bs = Some sample_iv" by code_simp
  have an: "analyzeIndexExpr sample_node ?index = \<lparr>dependsOnIV = True, offset = Some 0, multiplier = Some 3\<rparr>"
    by (simp add: analyzeIndexExpr_def sample_node_def dependsOnInductionVar_def depends_on_iv.simps
        sample_iv_def scaled_def)
  have g: "regular sample_run ?g" "eval sample_run ?g = Some 85" by code_simp+
  have sb: "regular sample_run ?sb" "eval sample_run ?sb = Some 5" by code_simp+
  have bs: "regular sample_run ?bs" "eval sample_run ?bs = Some 16" by code_simp+
  have iv: "getInductionVar sample_node = Some sample_iv" "eval sample_run sample_iv = Some 5"
    by (simp add: sample_node_def) code_simp
  have ix: "fold_safe sample_run ?index" "eval sample_run ?index = Some 15" by code_simp+
  have w: "wrap64 (3 * 5 + 0) = 15" by code_simp
  from localized_index_exact [OF sample_run_ok(1) ex g sb bs an iv(1) ix]
  show ?thesis using ex g(2) sb(2) iv(2) ix(2) w by simp
qed

section \<open>Where the tests go wrong\<close>

text \<open>
  \<open>maxui\<close> with zero is no clamp: it is its other operand, which may be negative.
\<close>

lemma nonneg_of_unsigned_max:
  "isKnownNonNegative no_services sample_loops 0 (Bin 0 IndexTy MaxUI (BlockArg 1 0 IndexTy None) (index_const 2 0))"
  "eval (no_env\<lparr>arg_val := (\<lambda>b n. - 1)\<rparr>) (Bin 0 IndexTy MaxUI (BlockArg 1 0 IndexTy None) (index_const 2 0))
     = Some (- 1)"
  by code_simp+

text \<open>
  The extent \<open>k < n ? k : n\<close> is normalised to \<open>n\<close>: a loop that stops at the smaller bound
  \<open>k\<close> counts as covering the extent \<open>n\<close>.
\<close>

lemma clamped_extent_is_bound:
  "let n = BlockArg 1 0 IndexTy None; k = BlockArg 2 0 IndexTy None
   in areEquivalentOwnedSliceExtents no_services (Select 3 IndexTy (CmpI 4 Cslt k n) k n) n"
  by code_simp

text \<open>
  A block size that is \<open>minui(x, 8)\<close> has the hint 8, so eight counts as within the block
  whatever \<open>x\<close> is.
\<close>

lemma bounded_by_block_hint:
  "let block = Bin 0 IndexTy MinUI (BlockArg 1 0 IndexTy None) (index_const 2 8)
   in isValueBoundedByBlockSpan no_services sample_loops 0 (index_const 3 8) block \<and>
      eval (no_env\<lparr>arg_val := (\<lambda>b n. 2)\<rparr>) block = Some 2"
  by code_simp

end
