(* ===== verification/Contracts.thy ===== *)
theory Contracts
  imports DbModel
begin

text \<open>
  Lowering contracts (\<open>arts/Utils/LoweringContractUtils.cpp\<close>): the facts about pattern, layout
  and analysis that pattern detection records for a datablock pointer and that partitioning
  and lowering rely on. A contract lives in the IR as an \<open>arts.lowering_contract\<close> operation
  whose target is the pointer; \<open>arts/IR/Dialect.cpp\<close> packs it into attributes and verifies it,
  and \<open>arts/Analysis/db/OwnershipProof.cpp\<close> derives the ownership proof the passes trust.

  The lemmas show that merging keeps contracts verifiable, that what \<open>upsertLoweringContract\<close>
  writes is read back, and what a proof attribute stands for.
\<close>

section \<open>Patterns\<close>

datatype dep_pattern =
    DepUnknown | DepUniform | DepStencil | DepMatmul | DepTriangular | DepWavefront2d
  | DepJacobi | DepElementwisePipeline | DepStencilTilingNd | DepCrossDimStencil3d
  | DepHigherOrderStencil | DepReduction

datatype dist_kind = DistBlock | DistTwoLevel | DistBlockCyclic | DistTiling2d | DistReplicated

datatype dist_pattern =
  PatternUnknown | PatternUniform | PatternStencil | PatternMatmul | PatternTriangular

datatype contract_kind = KindUnknown | KindStencil | KindElementwise | KindMatmul | KindTriangular

fun isStencilFamilyDepPattern :: "dep_pattern \<Rightarrow> bool" where
  "isStencilFamilyDepPattern DepStencil = True"
| "isStencilFamilyDepPattern DepStencilTilingNd = True"
| "isStencilFamilyDepPattern DepCrossDimStencil3d = True"
| "isStencilFamilyDepPattern DepHigherOrderStencil = True"
| "isStencilFamilyDepPattern DepWavefront2d = True"
| "isStencilFamilyDepPattern DepJacobi = True"
| "isStencilFamilyDepPattern _ = False"

fun isUniformFamilyDepPattern :: "dep_pattern \<Rightarrow> bool" where
  "isUniformFamilyDepPattern DepUniform = True"
| "isUniformFamilyDepPattern DepElementwisePipeline = True"
| "isUniformFamilyDepPattern DepReduction = True"
| "isUniformFamilyDepPattern _ = False"

fun getDistributionPatternForDepPattern :: "dep_pattern \<Rightarrow> dist_pattern option" where
  "getDistributionPatternForDepPattern DepUnknown = None"
| "getDistributionPatternForDepPattern DepMatmul = Some PatternMatmul"
| "getDistributionPatternForDepPattern DepTriangular = Some PatternTriangular"
| "getDistributionPatternForDepPattern p =
     (if isStencilFamilyDepPattern p then Some PatternStencil else Some PatternUniform)"

fun deriveDistributionPatternFromKind :: "contract_kind \<Rightarrow> dist_pattern option" where
  "deriveDistributionPatternFromKind KindElementwise = Some PatternUniform"
| "deriveDistributionPatternFromKind KindStencil = Some PatternStencil"
| "deriveDistributionPatternFromKind KindMatmul = Some PatternMatmul"
| "deriveDistributionPatternFromKind KindTriangular = Some PatternTriangular"
| "deriveDistributionPatternFromKind KindUnknown = None"

section \<open>The contract\<close>

record contract_info =
  kind :: contract_kind
  depPattern :: "dep_pattern option"
  distributionKind :: "dist_kind option"
  distributionPattern :: "dist_pattern option"
  distributionVersion :: "int option"
  revision :: "int option"
  ownerDims :: "int list"
  blockShape :: "val list"
  minOffsets :: "val list"
  maxOffsets :: "val list"
  writeFootprint :: "val list"
  staticBlockShape :: "int list"
  staticMinOffsets :: "int list"
  staticMaxOffsets :: "int list"
  spatialDims :: "int list"
  stencilIndependentDims :: "int list"
  centerOffset :: "int option"
  supportedBlockHalo :: bool
  narrowableDep :: bool
  postDbRefined :: bool
  criticalPathDistance :: "int option"

definition empty_contract :: contract_info where
  "empty_contract =
     \<lparr>kind = KindUnknown, depPattern = None, distributionKind = None, distributionPattern = None,
      distributionVersion = None, revision = None, ownerDims = [], blockShape = [], minOffsets = [],
      maxOffsets = [], writeFootprint = [], staticBlockShape = [], staticMinOffsets = [],
      staticMaxOffsets = [], spatialDims = [], stencilIndependentDims = [], centerOffset = None,
      supportedBlockHalo = False, narrowableDep = False, postDbRefined = False,
      criticalPathDistance = None\<rparr>"

definition hasDistributionContract :: "contract_info \<Rightarrow> bool" where
  "hasDistributionContract c =
     (kind c \<noteq> KindUnknown \<or> depPattern c \<noteq> None \<or> distributionKind c \<noteq> None \<or>
      distributionPattern c \<noteq> None \<or> distributionVersion c \<noteq> None \<or> revision c \<noteq> None)"

definition hasSpatialContract :: "contract_info \<Rightarrow> bool" where
  "hasSpatialContract c =
     (\<not> (ownerDims c = [] \<and> blockShape c = [] \<and> minOffsets c = [] \<and> maxOffsets c = [] \<and>
         writeFootprint c = [] \<and> spatialDims c = [] \<and> staticBlockShape c = [] \<and>
         staticMinOffsets c = [] \<and> staticMaxOffsets c = [] \<and> \<not> supportedBlockHalo c \<and>
         stencilIndependentDims c = [] \<and> centerOffset c = None))"

definition is_empty :: "contract_info \<Rightarrow> bool" where
  "is_empty c =
     (\<not> (hasDistributionContract c \<or> narrowableDep c) \<and> \<not> hasSpatialContract c \<and>
      \<not> (postDbRefined c \<or> criticalPathDistance c \<noteq> None))"

definition usesStencilDistribution :: "contract_info \<Rightarrow> bool" where
  "usesStencilDistribution c = (distributionPattern c = Some PatternStencil)"

definition getEffectiveKind :: "contract_info \<Rightarrow> contract_kind" where
  "getEffectiveKind c =
     (if kind c \<noteq> KindUnknown then kind c
      else case depPattern c of
             None \<Rightarrow> if usesStencilDistribution c then KindStencil else KindUnknown
           | Some p \<Rightarrow>
               if isStencilFamilyDepPattern p then KindStencil
               else if isUniformFamilyDepPattern p then KindElementwise
               else if p = DepMatmul then KindMatmul
               else if p = DepTriangular then KindTriangular
               else KindUnknown)"

definition hasExplicitStencilContract :: "contract_info \<Rightarrow> bool" where
  "hasExplicitStencilContract c =
     (if getEffectiveKind c \<noteq> KindStencil then False
      else ownerDims c \<noteq> [] \<or> stencilIndependentDims c \<noteq> [] \<or> blockShape c \<noteq> [] \<or>
           minOffsets c \<noteq> [] \<or> maxOffsets c \<noteq> [] \<or> staticBlockShape c \<noteq> [] \<or>
           staticMinOffsets c \<noteq> [] \<or> staticMaxOffsets c \<noteq> [])"

definition supportsBlockHalo :: "contract_info \<Rightarrow> bool" where
  "supportsBlockHalo c = (supportedBlockHalo c \<and> hasExplicitStencilContract c)"

definition getEffectiveDistributionPattern :: "contract_info \<Rightarrow> dist_pattern option" where
  "getEffectiveDistributionPattern c =
     (if distributionPattern c \<noteq> None \<and> distributionPattern c \<noteq> Some PatternUnknown
      then distributionPattern c
      else case (case depPattern c of None \<Rightarrow> None | Some p \<Rightarrow> getDistributionPatternForDepPattern p) of
             Some derived \<Rightarrow> Some derived
           | None \<Rightarrow> deriveDistributionPatternFromKind (getEffectiveKind c))"

definition isWavefrontFamily :: "contract_info \<Rightarrow> bool" where
  "isWavefrontFamily c = (depPattern c = Some DepWavefront2d)"

definition isWavefrontStencilContract :: "contract_info \<Rightarrow> bool" where
  "isWavefrontStencilContract c =
     (isWavefrontFamily c \<and> hasExplicitStencilContract c \<and> supportsBlockHalo c)"

definition prefersSemanticOwnerLayoutPreservation :: "contract_info \<Rightarrow> bool" where
  "prefersSemanticOwnerLayoutPreservation c = (ownerDims c \<noteq> [] \<and> supportsBlockHalo c)"

fun readConstantIndexValues :: "val list \<Rightarrow> int list option" where
  "readConstantIndexValues [] = Some []"
| "readConstantIndexValues (v # vs) =
     (case getConstantIndex v of
        None \<Rightarrow> None
      | Some c \<Rightarrow> (case readConstantIndexValues vs of None \<Rightarrow> None | Some cs \<Rightarrow> Some (c # cs)))"

definition static_or :: "val list \<Rightarrow> int list \<Rightarrow> int list option" where
  "static_or dyn fallback =
     (case readConstantIndexValues dyn of
        Some cs \<Rightarrow> Some cs
      | None \<Rightarrow> if fallback \<noteq> [] then Some fallback else None)"

definition getStaticBlockShape :: "contract_info \<Rightarrow> int list option" where
  "getStaticBlockShape c = static_or (blockShape c) (staticBlockShape c)"

definition projectHaloWindow :: "contract_info \<Rightarrow> (int list \<times> int list) option" where
  "projectHaloWindow c =
     (case (static_or (minOffsets c) (staticMinOffsets c), static_or (maxOffsets c) (staticMaxOffsets c)) of
        (Some mn, Some mx) \<Rightarrow> Some (mn, mx)
      | _ \<Rightarrow> None)"

definition prefersNDBlock :: "contract_info \<Rightarrow> nat \<Rightarrow> bool" where
  "prefersNDBlock c requiredRank =
     (if \<not> supportsBlockHalo c then False
      else
        let staticShape = getStaticBlockShape c in
        if length (ownerDims c) < requiredRank \<or>
           ((staticShape = None \<or> length (the staticShape) < requiredRank) \<and>
            length (blockShape c) < requiredRank)
        then False else True)"

section \<open>Normalising and merging\<close>

definition clear_mismatched :: "nat \<Rightarrow> 'a list \<Rightarrow> 'a list" where
  "clear_mismatched expectedRank values =
     (if values \<noteq> [] \<and> length values \<noteq> expectedRank then [] else values)"

definition normalizeLoweringContractInfo :: "contract_info \<Rightarrow> contract_info" where
  "normalizeLoweringContractInfo info =
     (let expectedRank = length (ownerDims info)
      in if expectedRank = 0 then info
         else info\<lparr>blockShape := clear_mismatched expectedRank (blockShape info),
                   minOffsets := clear_mismatched expectedRank (minOffsets info),
                   maxOffsets := clear_mismatched expectedRank (maxOffsets info),
                   writeFootprint := clear_mismatched expectedRank (writeFootprint info),
                   staticBlockShape := clear_mismatched expectedRank (staticBlockShape info),
                   staticMinOffsets := clear_mismatched expectedRank (staticMinOffsets info),
                   staticMaxOffsets := clear_mismatched expectedRank (staticMaxOffsets info)\<rparr>)"

text \<open>
  The three ways a field is taken from the source; each answers the new field and whether
  it changed.
\<close>

definition take_option :: "'a option \<Rightarrow> 'a option \<Rightarrow> 'a option \<times> bool" where
  "take_option dest src = (if dest = None \<and> src \<noteq> None then (src, True) else (dest, False))"

definition take_flag :: "bool \<Rightarrow> bool \<Rightarrow> bool \<times> bool" where
  "take_flag dest src = (if \<not> dest \<and> src then (True, True) else (dest, False))"

definition shouldTakeHigherRank :: "nat \<Rightarrow> nat \<Rightarrow> bool" where
  "shouldTakeHigherRank current incoming =
     (if incoming = 0 then False else current = 0 \<or> incoming > current)"

definition take_ranked :: "'a list \<Rightarrow> 'a list \<Rightarrow> 'a list \<times> bool" where
  "take_ranked dest src =
     (if shouldTakeHigherRank (length dest) (length src) then (src, True) else (dest, False))"

definition take_nonempty :: "'a list \<Rightarrow> 'a list \<Rightarrow> 'a list \<times> bool" where
  "take_nonempty dest src = (if dest = [] \<and> src \<noteq> [] then (src, True) else (dest, False))"

definition take_kind :: "contract_kind \<Rightarrow> contract_kind \<Rightarrow> contract_kind \<times> bool" where
  "take_kind dest src =
     (if dest = KindUnknown \<and> src \<noteq> KindUnknown then (src, True) else (dest, False))"

definition take_halo :: "contract_info \<Rightarrow> contract_info \<Rightarrow> dep_pattern option \<Rightarrow> bool \<times> bool" where
  "take_halo dest src destPattern =
     (let effectiveDepPattern = (if destPattern \<noteq> None then destPattern else depPattern src)
      in if \<not> supportedBlockHalo dest \<and> supportedBlockHalo src \<and>
            (case effectiveDepPattern of Some p \<Rightarrow> isStencilFamilyDepPattern p | None \<Rightarrow> False)
         then (True, True) else (supportedBlockHalo dest, False))"

definition merge_fields :: "contract_info \<Rightarrow> contract_info \<Rightarrow> contract_info \<times> bool" where
  "merge_fields d s =
     (let k = take_kind (kind d) (kind s);
          dp = take_option (depPattern d) (depPattern s);
          dk = take_option (distributionKind d) (distributionKind s);
          dq = take_option (distributionPattern d) (distributionPattern s);
          dv = take_option (distributionVersion d) (distributionVersion s);
          rv = take_option (revision d) (revision s);
          nd = take_flag (narrowableDep d) (narrowableDep s);
          od = take_ranked (ownerDims d) (ownerDims s);
          co = take_option (centerOffset d) (centerOffset s);
          bs = take_ranked (blockShape d) (blockShape s);
          mn = take_ranked (minOffsets d) (minOffsets s);
          mx = take_ranked (maxOffsets d) (maxOffsets s);
          wf = take_ranked (writeFootprint d) (writeFootprint s);
          sb = take_ranked (staticBlockShape d) (staticBlockShape s);
          sn = take_ranked (staticMinOffsets d) (staticMinOffsets s);
          sx = take_ranked (staticMaxOffsets d) (staticMaxOffsets s);
          bh = take_halo d s (fst dp);
          sd = take_nonempty (spatialDims d) (spatialDims s);
          si = take_nonempty (stencilIndependentDims d) (stencilIndependentDims s);
          pr = take_flag (postDbRefined d) (postDbRefined s);
          cp = take_option (criticalPathDistance d) (criticalPathDistance s)
      in (\<lparr>kind = fst k, depPattern = fst dp, distributionKind = fst dk, distributionPattern = fst dq,
           distributionVersion = fst dv, revision = fst rv, ownerDims = fst od, blockShape = fst bs,
           minOffsets = fst mn, maxOffsets = fst mx, writeFootprint = fst wf, staticBlockShape = fst sb,
           staticMinOffsets = fst sn, staticMaxOffsets = fst sx, spatialDims = fst sd,
           stencilIndependentDims = fst si, centerOffset = fst co, supportedBlockHalo = fst bh,
           narrowableDep = fst nd, postDbRefined = fst pr, criticalPathDistance = fst cp\<rparr>,
          snd k \<or> snd dp \<or> snd dk \<or> snd dq \<or> snd dv \<or> snd rv \<or> snd nd \<or> snd od \<or> snd co \<or>
          snd bs \<or> snd mn \<or> snd mx \<or> snd wf \<or> snd sb \<or> snd sn \<or> snd sx \<or> snd bh \<or> snd sd \<or>
          snd si \<or> snd pr \<or> snd cp))"

definition mergeLoweringContractInfo :: "contract_info \<Rightarrow> contract_info \<Rightarrow> contract_info \<times> bool" where
  "mergeLoweringContractInfo dest src =
     (case merge_fields dest src of (merged, changed) \<Rightarrow> (normalizeLoweringContractInfo merged, changed))"

fun owner_dims_loop :: "nat \<Rightarrow> int list \<Rightarrow> nat list \<Rightarrow> nat list" where
  "owner_dims_loop rank [] dims = dims"
| "owner_dims_loop rank (d # ds) dims =
     (if d < 0 then owner_dims_loop rank ds dims
      else let dims' = dims @ [nat (take_bit 32 d)]
           in if length dims' = rank then dims' else owner_dims_loop rank ds dims')"

definition resolveContractOwnerDims :: "contract_info \<Rightarrow> nat \<Rightarrow> nat list" where
  "resolveContractOwnerDims info rank =
     (let dims = owner_dims_loop rank (ownerDims info) []
      in if dims = [] then [0..<rank] else dims)"

section \<open>Dependency windows of an acquire\<close>

definition shouldApplyStencilHalo :: "contract_info \<Rightarrow> arts_mode \<Rightarrow> bool" where
  "shouldApplyStencilHalo c mode = (if mode \<noteq> ModeIn then False else supportsBlockHalo c)"

definition shouldUsePartitionSliceAsDepWindow ::
  "contract_info \<Rightarrow> arts_mode \<Rightarrow> partition_mode \<Rightarrow> bool"
where
  "shouldUsePartitionSliceAsDepWindow c mode partitionMode =
     (if mode = ModeIn \<and> hasExplicitStencilContract c \<and> \<not> shouldApplyStencilHalo c mode \<and>
         partitionMode = PartStencil
      then True
      else if mode = ModeInout \<and> isWavefrontStencilContract c then True
      else False)"

definition shouldPreserveParentDepRange :: "contract_info \<Rightarrow> arts_mode \<Rightarrow> bool" where
  "shouldPreserveParentDepRange c mode =
     (if mode \<noteq> ModeIn then False
      else \<not> shouldApplyStencilHalo c mode \<and> \<not> hasExplicitStencilContract c \<and> \<not> narrowableDep c)"

section \<open>The contract operation\<close>

record pattern_attr =
  pa_depPattern :: "dep_pattern option"
  pa_distributionKind :: "dist_kind option"
  pa_distributionPattern :: "dist_pattern option"
  pa_distributionVersion :: "int option"
  pa_revision :: "int option"

record contract_attr =
  ca_ownerDims :: "int list option"
  ca_centerOffset :: "int option"
  ca_spatialDims :: "int list option"
  ca_stencilIndependentDims :: "int list option"
  ca_supportedBlockHalo :: "bool option"
  ca_narrowableDep :: "bool option"
  ca_postDbRefined :: "bool option"
  ca_criticalPathDistance :: "int option"
  ca_contractKind :: "int option"

record proof_attrs =
  at_ownerDimReachability :: "bool option"
  at_partitionAccessMapping :: "bool option"
  at_haloLegality :: "bool option"
  at_depSliceSoundness :: "bool option"
  at_relaunchStateSoundness :: "bool option"

text \<open>
  An \<open>arts.lowering_contract\<close>: its operands, the two attributes its builder packs, and the
  discardable attributes other passes put on it.
\<close>

record lowering_contract =
  getTarget :: val
  getBlockShape :: "val list"
  getMinOffsets :: "val list"
  getMaxOffsets :: "val list"
  getWriteFootprint :: "val list"
  getPattern :: "pattern_attr option"
  getContract :: "contract_attr option"
  partitionModeAttr :: "partition_mode option"
  proofAttrs :: proof_attrs

definition no_proof_attrs :: proof_attrs where
  "no_proof_attrs =
     \<lparr>at_ownerDimReachability = None, at_partitionAccessMapping = None, at_haloLegality = None,
      at_depSliceSoundness = None, at_relaunchStateSoundness = None\<rparr>"

definition list_attr :: "'a list \<Rightarrow> 'a list option" where
  "list_attr xs = (if xs = [] then None else Some xs)"

definition flag_attr :: "bool \<Rightarrow> bool option" where
  "flag_attr b = (if b then Some True else None)"

fun int_of_kind :: "contract_kind \<Rightarrow> int" where
  "int_of_kind KindUnknown = 0"
| "int_of_kind KindStencil = 1"
| "int_of_kind KindElementwise = 2"
| "int_of_kind KindMatmul = 3"
| "int_of_kind KindTriangular = 4"

definition kind_of_int :: "int \<Rightarrow> contract_kind" where
  "kind_of_int n =
     (if n = 1 then KindStencil else if n = 2 then KindElementwise else if n = 3 then KindMatmul
      else if n = 4 then KindTriangular else KindUnknown)"

definition buildPatternAttr :: "contract_info \<Rightarrow> pattern_attr option" where
  "buildPatternAttr info =
     (if depPattern info = None \<and> distributionKind info = None \<and> distributionPattern info = None \<and>
         distributionVersion info = None \<and> revision info = None
      then None
      else Some \<lparr>pa_depPattern = depPattern info, pa_distributionKind = distributionKind info,
                 pa_distributionPattern = distributionPattern info,
                 pa_distributionVersion = distributionVersion info, pa_revision = revision info\<rparr>)"

definition buildContractAttr :: "contract_info \<Rightarrow> contract_attr option" where
  "buildContractAttr info =
     (let contractKind = (if kind info \<noteq> KindUnknown then Some (int_of_kind (kind info)) else None)
      in if list_attr (ownerDims info) = None \<and> centerOffset info = None \<and>
            list_attr (spatialDims info) = None \<and> list_attr (stencilIndependentDims info) = None \<and>
            flag_attr (supportedBlockHalo info) = None \<and> flag_attr (narrowableDep info) = None \<and>
            flag_attr (postDbRefined info) = None \<and> criticalPathDistance info = None \<and>
            contractKind = None
         then None
         else Some \<lparr>ca_ownerDims = list_attr (ownerDims info), ca_centerOffset = centerOffset info,
                    ca_spatialDims = list_attr (spatialDims info),
                    ca_stencilIndependentDims = list_attr (stencilIndependentDims info),
                    ca_supportedBlockHalo = flag_attr (supportedBlockHalo info),
                    ca_narrowableDep = flag_attr (narrowableDep info),
                    ca_postDbRefined = flag_attr (postDbRefined info),
                    ca_criticalPathDistance = criticalPathDistance info,
                    ca_contractKind = contractKind\<rparr>)"

definition create_contract :: "val \<Rightarrow> contract_info \<Rightarrow> lowering_contract" where
  "create_contract target info =
     \<lparr>getTarget = target, getBlockShape = blockShape info, getMinOffsets = minOffsets info,
      getMaxOffsets = maxOffsets info, getWriteFootprint = writeFootprint info,
      getPattern = buildPatternAttr info, getContract = buildContractAttr info,
      partitionModeAttr = None, proofAttrs = no_proof_attrs\<rparr>"

definition from_pattern :: "(pattern_attr \<Rightarrow> 'a option) \<Rightarrow> lowering_contract \<Rightarrow> 'a option" where
  "from_pattern f c = (case getPattern c of None \<Rightarrow> None | Some p \<Rightarrow> f p)"

definition from_contract :: "(contract_attr \<Rightarrow> 'a option) \<Rightarrow> lowering_contract \<Rightarrow> 'a option" where
  "from_contract f c = (case getContract c of None \<Rightarrow> None | Some p \<Rightarrow> f p)"

definition value_or :: "'a option \<Rightarrow> 'a \<Rightarrow> 'a" where
  "value_or x d = (case x of Some v \<Rightarrow> v | None \<Rightarrow> d)"

definition read_contract :: "lowering_contract \<Rightarrow> contract_info" where
  "read_contract c =
     empty_contract
       \<lparr>depPattern := from_pattern pa_depPattern c,
        distributionKind := from_pattern pa_distributionKind c,
        distributionPattern := from_pattern pa_distributionPattern c,
        distributionVersion := from_pattern pa_distributionVersion c,
        revision := from_pattern pa_revision c,
        narrowableDep := value_or (from_contract ca_narrowableDep c) False,
        ownerDims := value_or (from_contract ca_ownerDims c) [],
        centerOffset := from_contract ca_centerOffset c,
        blockShape := getBlockShape c,
        minOffsets := getMinOffsets c,
        maxOffsets := getMaxOffsets c,
        writeFootprint := getWriteFootprint c,
        supportedBlockHalo := value_or (from_contract ca_supportedBlockHalo c) False,
        spatialDims := value_or (from_contract ca_spatialDims c) [],
        stencilIndependentDims := value_or (from_contract ca_stencilIndependentDims c) [],
        postDbRefined := value_or (from_contract ca_postDbRefined c) False,
        criticalPathDistance := from_contract ca_criticalPathDistance c,
        kind := (case from_contract ca_contractKind c of Some n \<Rightarrow> kind_of_int n | None \<Rightarrow> KindUnknown)\<rparr>"

fun distinct_owner_dims :: "int list \<Rightarrow> int set \<Rightarrow> bool" where
  "distinct_owner_dims [] seen = True"
| "distinct_owner_dims (d # ds) seen =
     (if d < 0 then False else if d \<in> seen then False else distinct_owner_dims ds (insert d seen))"

definition verifyRankedOperands :: "nat \<Rightarrow> val list \<Rightarrow> bool" where
  "verifyRankedOperands expectedRank values =
     (\<not> (expectedRank \<noteq> 0 \<and> values \<noteq> [] \<and> length values \<noteq> expectedRank))"

definition verify_contract :: "lowering_contract \<Rightarrow> bool" where
  "verify_contract c =
     (let dims = from_contract ca_ownerDims c;
          expectedRank = (case dims of Some ds \<Rightarrow> length ds | None \<Rightarrow> 0);
          hasPayload = (getMinOffsets c \<noteq> [] \<or> getMaxOffsets c \<noteq> [] \<or> getWriteFootprint c \<noteq> [])
      in if expectedRank = 0 \<and> hasPayload then False
         else if \<not> (case dims of Some ds \<Rightarrow> distinct_owner_dims ds {} | None \<Rightarrow> True) then False
         else if \<not> (verifyRankedOperands expectedRank (getBlockShape c) \<and>
                    verifyRankedOperands expectedRank (getMinOffsets c) \<and>
                    verifyRankedOperands expectedRank (getMaxOffsets c) \<and>
                    verifyRankedOperands expectedRank (getWriteFootprint c)) then False
         else if length (getMinOffsets c) \<noteq> length (getMaxOffsets c) then False
         else if value_or (from_contract ca_supportedBlockHalo c) False
         then (case from_pattern pa_depPattern c of Some p \<Rightarrow> isStencilFamilyDepPattern p | None \<Rightarrow> False)
         else True)"

section \<open>Writing and reading contracts\<close>

text \<open>
  The contracts of a value are its users of that kind, newest first. \<open>dominates v\<close> says
  whether \<open>v\<close> dominates the insertion point after the target; \<open>n\<close> numbers the operations
  the builder creates.
\<close>

type_synonym contract_store = "val \<Rightarrow> lowering_contract list"

definition getLoweringContractOp :: "contract_store \<Rightarrow> val \<Rightarrow> lowering_contract option" where
  "getLoweringContractOp S target = (case S target of [] \<Rightarrow> None | c # cs \<Rightarrow> Some c)"

fun materializeIndexValues :: "int list \<Rightarrow> nat \<Rightarrow> val list \<times> nat" where
  "materializeIndexValues [] n = ([], n)"
| "materializeIndexValues (c # cs) n =
     (case materializeIndexValues cs (Suc n) of (vs, m) \<Rightarrow> (Const n IndexTy (IntAttr c) # vs, m))"

fun dominating_values :: "(val \<Rightarrow> bool) \<Rightarrow> val list \<Rightarrow> nat \<Rightarrow> val list option \<times> nat" where
  "dominating_values dominates [] n = (Some [], n)"
| "dominating_values dominates (v # vs) n =
     (if dominates v
      then (case dominating_values dominates vs n of (r, m) \<Rightarrow> (map_option ((#) v) r, m))
      else case getConstantIndex v of
             None \<Rightarrow> (None, n)
           | Some c \<Rightarrow>
               (case dominating_values dominates vs (Suc n) of
                  (r, m) \<Rightarrow> (map_option ((#) (Const n IndexTy (IntAttr c))) r, m)))"

definition materializeDominatingIndexValues ::
  "(val \<Rightarrow> bool) \<Rightarrow> val list \<Rightarrow> int list \<Rightarrow> nat \<Rightarrow> val list \<times> nat"
where
  "materializeDominatingIndexValues dominates values staticValues n =
     (case dominating_values dominates values n of
        (None, m) \<Rightarrow> ([], m)
      | (Some result, m) \<Rightarrow>
          if result \<noteq> [] then (result, m)
          else if staticValues \<noteq> [] then materializeIndexValues staticValues m
          else ([], m))"

definition materialized_info :: "(val \<Rightarrow> bool) \<Rightarrow> contract_info \<Rightarrow> nat \<Rightarrow> contract_info \<times> nat" where
  "materialized_info dominates info n =
     (let norm = normalizeLoweringContractInfo info;
          (bs, n1) = materializeDominatingIndexValues dominates (blockShape norm) (staticBlockShape norm) n;
          (mn, n2) = materializeDominatingIndexValues dominates (minOffsets norm) (staticMinOffsets norm) n1;
          (mx, n3) = materializeDominatingIndexValues dominates (maxOffsets norm) (staticMaxOffsets norm) n2;
          (wf, n4) = materializeDominatingIndexValues dominates (writeFootprint norm) [] n3
      in (norm\<lparr>blockShape := bs, minOffsets := mn, maxOffsets := mx, writeFootprint := wf\<rparr>, n4))"

definition upsertLoweringContract ::
  "(val \<Rightarrow> bool) \<Rightarrow> val \<Rightarrow> contract_info \<Rightarrow> contract_store \<times> nat \<Rightarrow> contract_store \<times> nat"
where
  "upsertLoweringContract dominates target info st =
     (case st of
        (S, n) \<Rightarrow>
          if is_empty info then (S, n)
          else case materialized_info dominates info n of
                 (m, n') \<Rightarrow> (S(target := [create_contract target m]), Suc n'))"

definition eraseLoweringContracts :: "val \<Rightarrow> contract_store \<times> nat \<Rightarrow> contract_store \<times> nat" where
  "eraseLoweringContracts target st = (case st of (S, n) \<Rightarrow> (S(target := []), n))"

text \<open>The attributes of an operation a contract can be derived from.\<close>

record semantic_attrs =
  sm_depPattern :: "dep_pattern option"
  sm_distributionKind :: "dist_kind option"
  sm_distributionPattern :: "dist_pattern option"
  sm_distributionVersion :: "int option"
  sm_revision :: "int option"
  sm_ownerDims :: "int list option"
  sm_blockShape :: "int list option"
  sm_minOffsets :: "int list option"
  sm_maxOffsets :: "int list option"
  sm_spatialDims :: "int list option"
  sm_centerOffset :: "int option"
  sm_blockHalo :: bool
  sm_narrowableDep :: bool
  sm_contractKind :: "int option"
  sm_planOwnerDims :: "int list option"
  sm_planPhysicalBlockShape :: "int list option"

definition mergePlanSpatialAttrs :: "semantic_attrs \<Rightarrow> contract_info \<Rightarrow> contract_info" where
  "mergePlanSpatialAttrs op info =
     (if \<not> hasDistributionContract info then info
      else
        let info1 = (if ownerDims info = []
                     then (case sm_planOwnerDims op of Some ds \<Rightarrow> info\<lparr>ownerDims := ds\<rparr> | None \<Rightarrow> info)
                     else info)
        in if staticBlockShape info1 = [] \<and> blockShape info1 = []
           then (case sm_planPhysicalBlockShape op of
                   Some bs \<Rightarrow> info1\<lparr>staticBlockShape := bs\<rparr> | None \<Rightarrow> info1)
           else info1)"

definition getSemanticContract :: "semantic_attrs \<Rightarrow> contract_info option" where
  "getSemanticContract op =
     (let info = empty_contract
            \<lparr>depPattern := sm_depPattern op, distributionKind := sm_distributionKind op,
             distributionPattern := sm_distributionPattern op,
             distributionVersion := sm_distributionVersion op, revision := sm_revision op,
             ownerDims := value_or (sm_ownerDims op) [],
             staticBlockShape := value_or (sm_blockShape op) [],
             staticMinOffsets := value_or (sm_minOffsets op) [],
             staticMaxOffsets := value_or (sm_maxOffsets op) [],
             spatialDims := value_or (sm_spatialDims op) [],
             centerOffset := sm_centerOffset op,
             supportedBlockHalo :=
               (sm_blockHalo op \<and>
                (case sm_depPattern op of Some p \<Rightarrow> isStencilFamilyDepPattern p | None \<Rightarrow> False)),
             narrowableDep := sm_narrowableDep op,
             kind := (case sm_contractKind op of Some k \<Rightarrow> kind_of_int k | None \<Rightarrow> KindUnknown)\<rparr>;
          planned = mergePlanSpatialAttrs op info
      in if is_empty planned then None else Some planned)"

text \<open>\<open>sem v\<close>: the semantic contract of the operation that defines \<open>v\<close>, if it has one.\<close>

definition alloc_ptr :: "db_attrs \<Rightarrow> val \<Rightarrow> val option" where
  "alloc_ptr A v =
     (case getUnderlyingDbAlloc v of
        Some (DbAlloc i n t xs ys) \<Rightarrow> Some (DbAlloc i 1 (ptr_type (alloc_attr A i)) xs ys)
      | _ \<Rightarrow> None)"

definition resolveContractTarget :: "db_attrs \<Rightarrow> contract_store \<Rightarrow> val \<Rightarrow> val" where
  "resolveContractTarget A S value =
     (if getLoweringContractOp S value \<noteq> None then value
      else case (case value of
                   DbAcquire i n t g p xs ys \<Rightarrow> if getLoweringContractOp S p \<noteq> None then Some p else None
                 | _ \<Rightarrow> None) of
             Some p \<Rightarrow> p
           | None \<Rightarrow>
               (case alloc_ptr A value of
                  Some q \<Rightarrow> if getLoweringContractOp S q \<noteq> None then q else value
                | None \<Rightarrow> value))"

definition merge_semantic :: "(val \<Rightarrow> contract_info option) \<Rightarrow> val \<Rightarrow> contract_info \<Rightarrow> contract_info" where
  "merge_semantic sem v info =
     (case sem v of None \<Rightarrow> info | Some s \<Rightarrow> fst (mergeLoweringContractInfo info s))"

function (sequential) getLoweringContract ::
  "db_attrs \<Rightarrow> contract_store \<Rightarrow> (val \<Rightarrow> contract_info option) \<Rightarrow> val \<Rightarrow> contract_info option"
where
  "getLoweringContract A S sem (DbAcquire i n t g p xs ys) =
     (case getLoweringContractOp S (resolveContractTarget A S (DbAcquire i n t g p xs ys)) of
        None \<Rightarrow> sem (DbAcquire i n t g p xs ys)
      | Some c \<Rightarrow>
          Some (merge_semantic sem (DbAcquire i n t g p xs ys)
            (if getTarget c = DbAcquire i n t g p xs ys
             then (case getLoweringContract A S sem p of
                     Some src \<Rightarrow> fst (mergeLoweringContractInfo (read_contract c) src)
                   | None \<Rightarrow> read_contract c)
             else read_contract c)))"
| "getLoweringContract A S sem target =
     (case getLoweringContractOp S (resolveContractTarget A S target) of
        None \<Rightarrow> sem target
      | Some c \<Rightarrow> Some (merge_semantic sem target (read_contract c)))"
  by pat_completeness auto
termination by (relation "measure (\<lambda>(A, S, sem, v). size v)") auto

definition resolveAcquireContract ::
  "db_attrs \<Rightarrow> contract_store \<Rightarrow> (val \<Rightarrow> contract_info option) \<Rightarrow> val \<Rightarrow> val \<Rightarrow> contract_info option"
where
  "resolveAcquireContract A S sem ptr sourcePtr =
     (let info = getLoweringContract A S sem ptr in
      case alloc_ptr A sourcePtr of
        None \<Rightarrow> info
      | Some q \<Rightarrow>
          (case getLoweringContract A S sem q of
             None \<Rightarrow> info
           | Some allocInfo \<Rightarrow>
               (case info of
                  None \<Rightarrow> Some allocInfo
                | Some d \<Rightarrow> Some (fst (mergeLoweringContractInfo d allocInfo)))))"

definition moveValueContract ::
  "db_attrs \<Rightarrow> (val \<Rightarrow> contract_info option) \<Rightarrow> (val \<Rightarrow> bool) \<Rightarrow> val \<Rightarrow> val \<Rightarrow>
     contract_store \<times> nat \<Rightarrow> contract_store \<times> nat"
where
  "moveValueContract A sem dominates source target st =
     (if source = target then st
      else
        let copied = (case getLoweringContract A (fst st) sem source of
                        None \<Rightarrow> st | Some info \<Rightarrow> upsertLoweringContract dominates target info st)
        in eraseLoweringContracts source copied)"

section \<open>Well-formed contracts\<close>

text \<open>
  What a pattern pass must hand over for the operation to verify: distinct non-negative
  owner dimensions, offsets only with owner dimensions and paired, and halo support only
  for a stencil pattern.
\<close>

definition contract_wf :: "contract_info \<Rightarrow> bool" where
  "contract_wf c \<longleftrightarrow>
     (\<forall>d\<in>set (ownerDims c). 0 \<le> d) \<and> distinct (ownerDims c) \<and>
     (ownerDims c = [] \<longrightarrow>
        minOffsets c = [] \<and> maxOffsets c = [] \<and> writeFootprint c = [] \<and>
        staticMinOffsets c = [] \<and> staticMaxOffsets c = []) \<and>
     length (minOffsets c) = length (maxOffsets c) \<and>
     length (staticMinOffsets c) = length (staticMaxOffsets c) \<and>
     (supportedBlockHalo c \<longrightarrow>
        (case depPattern c of Some p \<Rightarrow> isStencilFamilyDepPattern p | None \<Rightarrow> False))"

text \<open>Spatial lists of the rank of the owner dimensions, and a contract without its other lists.\<close>

definition rank_or_empty :: "nat \<Rightarrow> 'a list \<Rightarrow> bool" where
  "rank_or_empty n xs \<longleftrightarrow> xs = [] \<or> length xs = n"

definition ranked :: "contract_info \<Rightarrow> bool" where
  "ranked c \<longleftrightarrow>
     (let n = length (ownerDims c)
      in n \<noteq> 0 \<longrightarrow>
           rank_or_empty n (blockShape c) \<and> rank_or_empty n (minOffsets c) \<and> rank_or_empty n (maxOffsets c) \<and>
           rank_or_empty n (writeFootprint c) \<and> rank_or_empty n (staticBlockShape c) \<and>
           rank_or_empty n (staticMinOffsets c) \<and> rank_or_empty n (staticMaxOffsets c))"

definition if_ranked :: "contract_info \<Rightarrow> 'a list \<Rightarrow> 'a list" where
  "if_ranked c xs = (if ownerDims c = [] \<or> length xs = length (ownerDims c) then xs else [])"

definition without_unranked :: "contract_info \<Rightarrow> contract_info" where
  "without_unranked c =
     c\<lparr>blockShape := if_ranked c (blockShape c), minOffsets := if_ranked c (minOffsets c),
       maxOffsets := if_ranked c (maxOffsets c), writeFootprint := if_ranked c (writeFootprint c),
       staticBlockShape := if_ranked c (staticBlockShape c), staticMinOffsets := if_ranked c (staticMinOffsets c),
       staticMaxOffsets := if_ranked c (staticMaxOffsets c)\<rparr>"

lemma clear_mismatched_simps:
  "clear_mismatched n [] = []"
  "length (clear_mismatched n xs) = (if length xs = n then n else 0)"
  "clear_mismatched n (clear_mismatched n xs) = clear_mismatched n xs"
  by (auto simp: clear_mismatched_def)

lemma normalize_idem:
  "normalizeLoweringContractInfo (normalizeLoweringContractInfo c) = normalizeLoweringContractInfo c"
  by (simp add: normalizeLoweringContractInfo_def Let_def clear_mismatched_simps)

lemma normalized_ranked: "ranked (normalizeLoweringContractInfo c)"
  by (simp add: ranked_def Let_def rank_or_empty_def normalizeLoweringContractInfo_def clear_mismatched_def)

lemma normalized_without: "normalizeLoweringContractInfo c = without_unranked c"
  by (cases c) (simp add: without_unranked_def if_ranked_def normalizeLoweringContractInfo_def Let_def
      clear_mismatched_def)

lemma normalize_keeps:
  "ownerDims (normalizeLoweringContractInfo c) = ownerDims c"
  "depPattern (normalizeLoweringContractInfo c) = depPattern c"
  "supportedBlockHalo (normalizeLoweringContractInfo c) = supportedBlockHalo c"
  by (simp_all add: normalizeLoweringContractInfo_def Let_def)

lemma normalize_wf: "contract_wf c \<Longrightarrow> contract_wf (normalizeLoweringContractInfo c)"
  by (auto simp: contract_wf_def normalizeLoweringContractInfo_def Let_def clear_mismatched_simps)

lemma normalize_ranks:
  assumes "ownerDims c \<noteq> []"
  shows "\<forall>xs\<in>{blockShape (normalizeLoweringContractInfo c), minOffsets (normalizeLoweringContractInfo c),
      maxOffsets (normalizeLoweringContractInfo c), writeFootprint (normalizeLoweringContractInfo c)}.
      xs = [] \<or> length xs = length (ownerDims c)"
    and "\<forall>xs\<in>{staticBlockShape (normalizeLoweringContractInfo c), staticMinOffsets (normalizeLoweringContractInfo c),
      staticMaxOffsets (normalizeLoweringContractInfo c)}. xs = [] \<or> length xs = length (ownerDims c)"
  using assms by (simp_all add: normalizeLoweringContractInfo_def Let_def clear_mismatched_def)

lemma take_ranked_cases: "fst (take_ranked d s) \<in> {d, s}"
  by (simp add: take_ranked_def)

lemma take_ranked_empty [simp]: "fst (take_ranked d s) = [] \<longleftrightarrow> d = [] \<and> s = []"
  by (auto simp: take_ranked_def shouldTakeHigherRank_def)

lemma take_ranked_length: "length (fst (take_ranked d s)) = max (length d) (length s)"
  by (auto simp: take_ranked_def shouldTakeHigherRank_def)

lemma merge_fields_wf:
  assumes "contract_wf d" "contract_wf s"
  shows "contract_wf (fst (merge_fields d s))"
proof -
  let ?m = "fst (merge_fields d s)"
  have own: "ownerDims ?m = fst (take_ranked (ownerDims d) (ownerDims s))"
    by (simp add: merge_fields_def Let_def)
  have "ownerDims ?m \<in> {ownerDims d, ownerDims s}" unfolding own by (rule take_ranked_cases)
  then have dims: "(\<forall>x\<in>set (ownerDims ?m). 0 \<le> x) \<and> distinct (ownerDims ?m)"
    using assms by (auto simp: contract_wf_def)
  have none: "ownerDims ?m = [] \<longrightarrow> minOffsets ?m = [] \<and> maxOffsets ?m = [] \<and> writeFootprint ?m = [] \<and>
        staticMinOffsets ?m = [] \<and> staticMaxOffsets ?m = []"
    unfolding own using assms by (auto simp: contract_wf_def merge_fields_def Let_def)
  have len: "length (minOffsets ?m) = length (maxOffsets ?m)"
    "length (staticMinOffsets ?m) = length (staticMaxOffsets ?m)"
    using assms by (simp_all add: contract_wf_def merge_fields_def Let_def take_ranked_length)
  have halo: "supportedBlockHalo ?m \<longrightarrow>
      (case depPattern ?m of Some p \<Rightarrow> isStencilFamilyDepPattern p | None \<Rightarrow> False)"
    using assms
    by (cases "depPattern d"; cases "depPattern s")
      (simp_all add: contract_wf_def merge_fields_def Let_def take_halo_def take_option_def)
  show ?thesis using dims none len halo unfolding contract_wf_def by blast
qed

lemma take_unchanged:
  "\<not> snd (take_option a b) \<Longrightarrow> fst (take_option a b) = a"
  "\<not> snd (take_flag p q) \<Longrightarrow> fst (take_flag p q) = p"
  "\<not> snd (take_ranked xs ys) \<Longrightarrow> fst (take_ranked xs ys) = xs"
  "\<not> snd (take_nonempty xs ys) \<Longrightarrow> fst (take_nonempty xs ys) = xs"
  "\<not> snd (take_kind k l) \<Longrightarrow> fst (take_kind k l) = k"
  "\<not> snd (take_halo d s e) \<Longrightarrow> fst (take_halo d s e) = supportedBlockHalo d"
  by (auto simp: take_option_def take_flag_def take_ranked_def take_nonempty_def take_kind_def
      take_halo_def Let_def split: if_splits)

lemma unchanged_fields:
  assumes "\<not> snd (merge_fields d s)"
  shows "fst (merge_fields d s) = d"
proof -
  note no = assms [unfolded merge_fields_def Let_def snd_conv de_Morgan_disj]
  have "\<not> snd (take_option (depPattern d) (depPattern s))"
    and "\<not> snd (take_halo d s (fst (take_option (depPattern d) (depPattern s))))"
    using no by blast+
  then have halo: "\<not> snd (take_halo d s (depPattern d))" by (metis take_unchanged(1))
  have "fst (merge_fields d s) =
    \<lparr>kind = kind d, depPattern = depPattern d, distributionKind = distributionKind d,
      distributionPattern = distributionPattern d, distributionVersion = distributionVersion d,
      revision = revision d, ownerDims = ownerDims d, blockShape = blockShape d, minOffsets =
      minOffsets d, maxOffsets = maxOffsets d, writeFootprint = writeFootprint d, staticBlockShape
      = staticBlockShape d, staticMinOffsets = staticMinOffsets d, staticMaxOffsets =
      staticMaxOffsets d, spatialDims = spatialDims d, stencilIndependentDims =
      stencilIndependentDims d, centerOffset = centerOffset d, supportedBlockHalo =
      supportedBlockHalo d, narrowableDep = narrowableDep d, postDbRefined = postDbRefined d,
      criticalPathDistance = criticalPathDistance d\<rparr>"
    using no halo by (simp only: merge_fields_def Let_def fst_conv take_unchanged simp_thms)
  also have "\<dots> = d" by simp
  finally show ?thesis .
qed

section \<open>Ownership proofs\<close>

record ownership_proof =
  ownerDimReachability :: bool
  partitionAccessMapping :: bool
  haloLegality :: bool
  depSliceSoundness :: bool
  relaunchStateSoundness :: bool

definition no_proof :: ownership_proof where
  "no_proof = \<lparr>ownerDimReachability = False, partitionAccessMapping = False, haloLegality = False,
     depSliceSoundness = False, relaunchStateSoundness = False\<rparr>"

definition isFullyProven :: "ownership_proof \<Rightarrow> bool" where
  "isFullyProven p =
     (ownerDimReachability p \<and> partitionAccessMapping p \<and> haloLegality p \<and> depSliceSoundness p \<and>
      relaunchStateSoundness p)"

definition provenCount :: "ownership_proof \<Rightarrow> nat" where
  "provenCount p =
     of_bool (ownerDimReachability p) + of_bool (partitionAccessMapping p) + of_bool (haloLegality p) +
     of_bool (depSliceSoundness p) + of_bool (relaunchStateSoundness p)"

definition memref_rank :: "val \<Rightarrow> nat option" where
  "memref_rank v = (case type_of v of MemRefTy dims elt \<Rightarrow> Some (length dims) | _ \<Rightarrow> None)"

definition computeOwnershipProof :: "lowering_contract \<Rightarrow> ownership_proof" where
  "computeOwnershipProof c =
     (case memref_rank (getTarget c) of
        None \<Rightarrow> no_proof
      | Some rank \<Rightarrow>
          (let dims = from_contract ca_ownerDims c;
               pattern = from_pattern pa_depPattern c;
               halo = value_or (from_contract ca_supportedBlockHalo c) False;
               narrowable = value_or (from_contract ca_narrowableDep c) False;
               reach = (case dims of
                          Some ds \<Rightarrow> ds \<noteq> [] \<and> list_all (\<lambda>d. \<not> (d < 0 \<or> d \<ge> int rank)) ds
                        | None \<Rightarrow> False);
               blockCompatible = (case partitionModeAttr c of
                                    None \<Rightarrow> True | Some m \<Rightarrow> m = PartBlock \<or> m = PartStencil);
               withinRank = (case dims of Some ds \<Rightarrow> list_all (\<lambda>d. \<not> d \<ge> int rank) ds | None \<Rightarrow> True)
           in \<lparr>ownerDimReachability = reach,
               partitionAccessMapping = (reach \<and> pattern \<noteq> None \<and> blockCompatible \<and> withinRank),
               haloLegality =
                 (case pattern of
                    None \<Rightarrow> False
                  | Some p \<Rightarrow>
                      if isStencilFamilyDepPattern p
                      then (getMinOffsets c \<noteq> [] \<and> getMaxOffsets c \<noteq> []) \<or> halo
                      else isUniformFamilyDepPattern p),
               depSliceSoundness =
                 (case pattern of None \<Rightarrow> False | Some p \<Rightarrow> narrowable \<or> isUniformFamilyDepPattern p),
               relaunchStateSoundness = True\<rparr>))"

definition stampOwnershipProof :: "lowering_contract \<Rightarrow> ownership_proof \<Rightarrow> lowering_contract" where
  "stampOwnershipProof c p =
     c\<lparr>proofAttrs := \<lparr>at_ownerDimReachability = Some (ownerDimReachability p),
         at_partitionAccessMapping = Some (partitionAccessMapping p),
         at_haloLegality = Some (haloLegality p), at_depSliceSoundness = Some (depSliceSoundness p),
         at_relaunchStateSoundness = Some (relaunchStateSoundness p)\<rparr>\<rparr>"

definition readOwnershipProof :: "lowering_contract \<Rightarrow> ownership_proof" where
  "readOwnershipProof c =
     \<lparr>ownerDimReachability = value_or (at_ownerDimReachability (proofAttrs c)) False,
      partitionAccessMapping = value_or (at_partitionAccessMapping (proofAttrs c)) False,
      haloLegality = value_or (at_haloLegality (proofAttrs c)) False,
      depSliceSoundness = value_or (at_depSliceSoundness (proofAttrs c)) False,
      relaunchStateSoundness = value_or (at_relaunchStateSoundness (proofAttrs c)) False\<rparr>"

text \<open>
  Contract validation (\<open>Transforms/Verify/ContractValidation.cpp\<close>): stamping the proof of
  every contract, and the two consistency warnings on what is stamped.
\<close>

definition stamp_contract :: "lowering_contract \<Rightarrow> lowering_contract" where
  "stamp_contract c =
     (if memref_rank (getTarget c) = None then c
      else
        let p = computeOwnershipProof c
        in if provenCount p > 0 then stampOwnershipProof c p else c)"

definition proof_inconsistencies :: "lowering_contract \<Rightarrow> nat" where
  "proof_inconsistencies c =
     (let p = readOwnershipProof c
      in if provenCount p = 0 then 0
         else of_bool (\<not> ownerDimReachability p \<and>
                       (partitionModeAttr c = Some PartBlock \<or> partitionModeAttr c = Some PartStencil)) +
              of_bool (\<not> haloLegality p \<and> value_or (from_contract ca_supportedBlockHalo c) False))"

definition is_invalid :: "lowering_contract \<Rightarrow> bool" where
  "is_invalid c = (memref_rank (getTarget c) = None)"

text \<open>An acquire with stencil attributes and no contract on its source pointer is an orphan.\<close>

definition is_orphan :: "contract_store \<Rightarrow> bool \<Rightarrow> val \<Rightarrow> bool" where
  "is_orphan S hasStencilAttrs sourcePtr =
     (hasStencilAttrs \<and> getLoweringContractOp S sourcePtr = None)"

definition validation_fails :: "bool \<Rightarrow> lowering_contract list \<Rightarrow> contract_store \<Rightarrow> (bool \<times> val) list \<Rightarrow> bool" where
  "validation_fails failOnError contracts S acquires =
     (let invalidContracts = length (filter is_invalid contracts);
          orphanAcquires = length (filter (\<lambda>(h, p). is_orphan S h p) acquires)
      in failOnError \<and> (invalidContracts > 0 \<or> orphanAcquires > 0))"

section \<open>Reading back\<close>

lemma from_pattern_build:
  "from_pattern pa_depPattern (create_contract t c) = depPattern c"
  "from_pattern pa_distributionKind (create_contract t c) = distributionKind c"
  "from_pattern pa_distributionPattern (create_contract t c) = distributionPattern c"
  "from_pattern pa_distributionVersion (create_contract t c) = distributionVersion c"
  "from_pattern pa_revision (create_contract t c) = revision c"
  by (auto simp: from_pattern_def create_contract_def buildPatternAttr_def)

lemma from_contract_build:
  "from_contract ca_ownerDims (create_contract t c) = list_attr (ownerDims c)"
  "from_contract ca_centerOffset (create_contract t c) = centerOffset c"
  "from_contract ca_spatialDims (create_contract t c) = list_attr (spatialDims c)"
  "from_contract ca_stencilIndependentDims (create_contract t c) = list_attr (stencilIndependentDims c)"
  "from_contract ca_supportedBlockHalo (create_contract t c) = flag_attr (supportedBlockHalo c)"
  "from_contract ca_narrowableDep (create_contract t c) = flag_attr (narrowableDep c)"
  "from_contract ca_postDbRefined (create_contract t c) = flag_attr (postDbRefined c)"
  "from_contract ca_criticalPathDistance (create_contract t c) = criticalPathDistance c"
  "from_contract ca_contractKind (create_contract t c) =
     (if kind c \<noteq> KindUnknown then Some (int_of_kind (kind c)) else None)"
  by (auto simp: from_contract_def create_contract_def buildContractAttr_def Let_def list_attr_def
      flag_attr_def split: if_splits)

lemma read_back_simps:
  "value_or (list_attr xs) [] = xs" "value_or (flag_attr b) False = b"
  "k \<noteq> KindUnknown \<Longrightarrow> kind_of_int (int_of_kind k) = k"
  by (simp_all add: value_or_def list_attr_def flag_attr_def) (cases k; simp add: kind_of_int_def)

definition without_statics :: "contract_info \<Rightarrow> contract_info" where
  "without_statics c = c\<lparr>staticBlockShape := [], staticMinOffsets := [], staticMaxOffsets := []\<rparr>"

lemma read_create: "read_contract (create_contract t c) = without_statics c"
  by (cases c) (simp add: read_contract_def from_pattern_build from_contract_build read_back_simps
      empty_contract_def without_statics_def, simp add: create_contract_def read_back_simps)

section \<open>Verification of what is written\<close>

lemma distinct_owner_dims_iff:
  "distinct_owner_dims ds seen \<longleftrightarrow> (\<forall>d\<in>set ds. 0 \<le> d) \<and> distinct ds \<and> set ds \<inter> seen = {}"
  by (induction ds arbitrary: seen) auto

definition placeable :: "(val \<Rightarrow> bool) \<Rightarrow> contract_info \<Rightarrow> bool" where
  "placeable dominates c \<longleftrightarrow>
     list_all (\<lambda>v. dominates v \<or> getConstantIndex v \<noteq> None)
       (blockShape c @ minOffsets c @ maxOffsets c @ writeFootprint c)"

definition chosen_length :: "'a list \<Rightarrow> 'b list \<Rightarrow> nat" where
  "chosen_length vs ss = (if vs = [] then length ss else length vs)"

text \<open>
  The values written for a list of dynamic values or, when it is empty, of static ones: a dominating
  value itself, for any other value a constant equal to it.
\<close>

definition kept_value :: "(val \<Rightarrow> bool) \<Rightarrow> val \<Rightarrow> val \<Rightarrow> bool" where
  "kept_value dominates v w \<longleftrightarrow>
     (if dominates v then w = v else getConstantIndex v \<noteq> None \<and> getConstantIndex w = getConstantIndex v)"

definition written_as :: "(val \<Rightarrow> bool) \<Rightarrow> val list \<Rightarrow> int list \<Rightarrow> val list \<Rightarrow> bool" where
  "written_as dominates dyn st out \<longleftrightarrow>
     (if dyn = [] then map getConstantIndex out = map Some st
      else list_all2 (kept_value dominates) dyn out)"

lemma kept_values:
  "dominates v \<Longrightarrow> kept_value dominates v v"
  "\<not> dominates v \<Longrightarrow> getConstantIndex v = Some c \<Longrightarrow> kept_value dominates v (Const n IndexTy (IntAttr c))"
  by (simp_all add: kept_value_def)

lemma index_values_constant: "map getConstantIndex (fst (materializeIndexValues cs n)) = map Some cs"
  by (induction cs arbitrary: n) (auto split: prod.splits simp: prod_eq_iff)

lemma dominating_written:
  "list_all (\<lambda>v. dominates v \<or> getConstantIndex v \<noteq> None) vs \<Longrightarrow>
     \<exists>r m. dominating_values dominates vs n = (Some r, m) \<and>
       list_all2 (kept_value dominates) vs r"
proof (induction vs arbitrary: n)
  case (Cons v vs)
  then have all: "list_all (\<lambda>v. dominates v \<or> getConstantIndex v \<noteq> None) vs"
    and v: "dominates v \<or> getConstantIndex v \<noteq> None" by simp_all
  note IH = Cons.IH [OF all]
  show ?case
  proof (cases "dominates v")
    case True
    then show ?thesis using IH [of n] by (auto simp: kept_values split: prod.splits)
  next
    case False
    then obtain c where "getConstantIndex v = Some c" using v by blast
    then show ?thesis using False IH [of "Suc n"] by (auto simp: kept_values split: prod.splits)
  qed
qed simp

lemma values_written:
  assumes "list_all (\<lambda>v. dominates v \<or> getConstantIndex v \<noteq> None) vs"
  shows "written_as dominates vs ss (fst (materializeDominatingIndexValues dominates vs ss n))"
proof -
  obtain r m where r: "dominating_values dominates vs n = (Some r, m)"
    "list_all2 (kept_value dominates) vs r"
    using dominating_written [OF assms, of n] by blast
  show ?thesis
  proof (cases vs)
    case Nil
    then show ?thesis using r index_values_constant [of ss m]
      by (simp add: materializeDominatingIndexValues_def written_as_def)
  next
    case (Cons v us)
    then have "r \<noteq> []" using r(2) by auto
    then show ?thesis using r Cons by (simp add: materializeDominatingIndexValues_def written_as_def)
  qed
qed

lemma written_length: "written_as dominates vs ss out \<Longrightarrow> length out = chosen_length vs ss"
proof (cases "vs = []")
  case True
  assume "written_as dominates vs ss out"
  then have "length (map getConstantIndex out) = length (map Some ss)" using True by (simp add: written_as_def)
  then show ?thesis using True by (simp add: chosen_length_def)
qed (auto simp: written_as_def chosen_length_def dest: list_all2_lengthD)

lemma placeable_normalize: "placeable dominates c \<Longrightarrow> placeable dominates (normalizeLoweringContractInfo c)"
  by (auto simp: placeable_def normalizeLoweringContractInfo_def Let_def clear_mismatched_def)

lemma materialized_values:
  assumes "placeable dominates c"
  shows "\<exists>bs mn mx wf. fst (materialized_info dominates c n) =
      (normalizeLoweringContractInfo c)\<lparr>blockShape := bs, minOffsets := mn, maxOffsets := mx, writeFootprint := wf\<rparr> \<and>
      written_as dominates (blockShape (normalizeLoweringContractInfo c)) (staticBlockShape (normalizeLoweringContractInfo c)) bs \<and>
      written_as dominates (minOffsets (normalizeLoweringContractInfo c)) (staticMinOffsets (normalizeLoweringContractInfo c)) mn \<and>
      written_as dominates (maxOffsets (normalizeLoweringContractInfo c)) (staticMaxOffsets (normalizeLoweringContractInfo c)) mx \<and>
      written_as dominates (writeFootprint (normalizeLoweringContractInfo c)) [] wf"
proof -
  let ?c = "normalizeLoweringContractInfo c"
  have all: "list_all (\<lambda>v. dominates v \<or> getConstantIndex v \<noteq> None) xs"
    if "xs \<in> {blockShape ?c, minOffsets ?c, maxOffsets ?c, writeFootprint ?c}" for xs
    using placeable_normalize [OF assms] that unfolding placeable_def list_all_append by blast
  obtain bs n1 where bs: "materializeDominatingIndexValues dominates (blockShape ?c) (staticBlockShape ?c) n = (bs, n1)"
    by (metis prod.exhaust)
  obtain mn n2 where mn: "materializeDominatingIndexValues dominates (minOffsets ?c) (staticMinOffsets ?c) n1 = (mn, n2)"
    by (metis prod.exhaust)
  obtain mx n3 where mx: "materializeDominatingIndexValues dominates (maxOffsets ?c) (staticMaxOffsets ?c) n2 = (mx, n3)"
    by (metis prod.exhaust)
  obtain wf n4 where wf: "materializeDominatingIndexValues dominates (writeFootprint ?c) [] n3 = (wf, n4)"
    by (metis prod.exhaust)
  have "written_as dominates (blockShape ?c) (staticBlockShape ?c) bs"
    using values_written [OF all, of "blockShape ?c" "staticBlockShape ?c" n] bs by simp
  moreover have "written_as dominates (minOffsets ?c) (staticMinOffsets ?c) mn"
    using values_written [OF all, of "minOffsets ?c" "staticMinOffsets ?c" n1] mn by simp
  moreover have "written_as dominates (maxOffsets ?c) (staticMaxOffsets ?c) mx"
    using values_written [OF all, of "maxOffsets ?c" "staticMaxOffsets ?c" n2] mx by simp
  moreover have "written_as dominates (writeFootprint ?c) [] wf"
    using values_written [OF all, of "writeFootprint ?c" "[]" n3] wf by simp
  ultimately show ?thesis using bs mn mx wf by (auto simp: materialized_info_def Let_def)
qed

lemma materialized_fields:
  assumes "placeable dominates c"
  shows "\<exists>bs mn mx wf. fst (materialized_info dominates c n) =
      (normalizeLoweringContractInfo c)\<lparr>blockShape := bs, minOffsets := mn, maxOffsets := mx, writeFootprint := wf\<rparr> \<and>
      length bs = chosen_length (blockShape (normalizeLoweringContractInfo c)) (staticBlockShape (normalizeLoweringContractInfo c)) \<and>
      length mn = chosen_length (minOffsets (normalizeLoweringContractInfo c)) (staticMinOffsets (normalizeLoweringContractInfo c)) \<and>
      length mx = chosen_length (maxOffsets (normalizeLoweringContractInfo c)) (staticMaxOffsets (normalizeLoweringContractInfo c)) \<and>
      length wf = length (writeFootprint (normalizeLoweringContractInfo c))"
proof -
  let ?c = "normalizeLoweringContractInfo c"
  obtain bs mn mx wf where "fst (materialized_info dominates c n) =
      ?c\<lparr>blockShape := bs, minOffsets := mn, maxOffsets := mx, writeFootprint := wf\<rparr>"
    and w: "written_as dominates (blockShape ?c) (staticBlockShape ?c) bs"
      "written_as dominates (minOffsets ?c) (staticMinOffsets ?c) mn"
      "written_as dominates (maxOffsets ?c) (staticMaxOffsets ?c) mx"
      "written_as dominates (writeFootprint ?c) [] wf"
    using materialized_values [OF assms, of n] by blast
  moreover have "length wf = length (writeFootprint ?c)"
    using written_length [OF w(4)] by (simp add: chosen_length_def)
  ultimately show ?thesis using written_length [OF w(1)] written_length [OF w(2)] written_length [OF w(3)] by blast
qed

lemma materialized_verifies:
  assumes wf: "contract_wf c" and pl: "placeable dominates c"
  shows "verify_contract (create_contract t (fst (materialized_info dominates c n)))"
proof -
  let ?c = "normalizeLoweringContractInfo c" and ?m = "fst (materialized_info dominates c n)"
  have wf': "contract_wf ?c" by (rule normalize_wf [OF wf])
  from materialized_fields [OF pl, of n] obtain bs mn mx fp where
    m: "?m = ?c\<lparr>blockShape := bs, minOffsets := mn, maxOffsets := mx, writeFootprint := fp\<rparr>"
    and len: "length bs = chosen_length (blockShape ?c) (staticBlockShape ?c)"
      "length mn = chosen_length (minOffsets ?c) (staticMinOffsets ?c)"
      "length mx = chosen_length (maxOffsets ?c) (staticMaxOffsets ?c)"
      "length fp = length (writeFootprint ?c)" by metis
  have own: "ownerDims ?m = ownerDims c" "depPattern ?m = depPattern c"
    "supportedBlockHalo ?m = supportedBlockHalo c" unfolding m by (simp_all add: normalize_keeps)
  have dims: "distinct_owner_dims (ownerDims c) {}"
    using wf by (simp add: contract_wf_def distinct_owner_dims_iff)
  have pair: "length mn = length mx"
    using len(2,3) wf' by (cases "minOffsets ?c"; cases "maxOffsets ?c") (auto simp: contract_wf_def chosen_length_def)
  have none: "mn = [] \<and> mx = [] \<and> fp = []" if "ownerDims c = []"
    using that len(2-4) wf' by (auto simp: contract_wf_def chosen_length_def normalize_keeps)
  have rank: "xs = [] \<or> length xs = length (ownerDims c)" if "xs \<in> {bs, mn, mx, fp}" "ownerDims c \<noteq> []" for xs
    using that(1) len normalize_ranks [OF that(2)]
    by (auto simp: chosen_length_def split: if_splits)
  have halo: "case depPattern c of Some p \<Rightarrow> isStencilFamilyDepPattern p | None \<Rightarrow> False"
    if "supportedBlockHalo c" using wf that by (simp add: contract_wf_def)
  have fields: "getBlockShape (create_contract t ?m) = bs" "getMinOffsets (create_contract t ?m) = mn"
    "getMaxOffsets (create_contract t ?m) = mx" "getWriteFootprint (create_contract t ?m) = fp"
    unfolding m by (simp_all add: create_contract_def)
  have rest: "(if supportedBlockHalo c
      then case depPattern c of Some p \<Rightarrow> isStencilFamilyDepPattern p | None \<Rightarrow> False else True)"
    using halo by simp
  show ?thesis
  proof (cases "ownerDims c = []")
    case True
    then show ?thesis using none rest
      unfolding verify_contract_def Let_def from_contract_build from_pattern_build own fields read_back_simps
      by (simp add: list_attr_def verifyRankedOperands_def)
  next
    case False
    then have "\<forall>xs\<in>{bs, mn, mx, fp}. xs = [] \<or> length xs = length (ownerDims c)" using rank by blast
    then show ?thesis using False dims pair rest
      unfolding verify_contract_def Let_def from_contract_build from_pattern_build own fields read_back_simps
      by (auto simp add: list_attr_def verifyRankedOperands_def)
  qed
qed

section \<open>Properties\<close>

text \<open>
  C9: Merging contracts keeps them well-formed. Whatever two well-formed contracts are merged, the
  result is well-formed (distinct non-negative owner dimensions, paired offsets only with owner
  dimensions, halo support only for stencil patterns); when it has owner dimensions, each of its
  seven spatial lists is empty or has one entry per owner dimension; a pattern the destination
  already has is kept; and when the function answers \<open>Unchanged\<close> the result is the destination
  itself, but for spatial lists of another rank than its owner dimensions, which are empty.
\<close>

theorem merge_keeps_contracts:
  assumes "contract_wf dest" "contract_wf src"
  shows "contract_wf (fst (mergeLoweringContractInfo dest src)) \<and>
    ranked (fst (mergeLoweringContractInfo dest src)) \<and>
    (depPattern dest \<noteq> None \<longrightarrow> depPattern (fst (mergeLoweringContractInfo dest src)) = depPattern dest) \<and>
    (\<not> snd (mergeLoweringContractInfo dest src) \<longrightarrow>
       fst (mergeLoweringContractInfo dest src) = without_unranked dest)"
proof -
  have m: "fst (mergeLoweringContractInfo dest src) = normalizeLoweringContractInfo (fst (merge_fields dest src))"
    "snd (mergeLoweringContractInfo dest src) = snd (merge_fields dest src)"
    by (simp_all add: mergeLoweringContractInfo_def split: prod.split)
  have dp: "depPattern (fst (merge_fields dest src)) = fst (take_option (depPattern dest) (depPattern src))"
    by (simp add: merge_fields_def Let_def)
  show ?thesis
    using normalize_wf [OF merge_fields_wf [OF assms]] normalized_ranked unchanged_fields [of dest src]
    unfolding m normalized_without [of dest, symmetric] normalize_keeps dp by (auto simp: take_option_def)
qed

definition stencil_contract :: contract_info where
  "stencil_contract = empty_contract\<lparr>depPattern := Some DepStencil, ownerDims := [0],
     staticBlockShape := [16], staticMinOffsets := [-1], staticMaxOffsets := [1], supportedBlockHalo := True\<rparr>"

definition plane_contract :: contract_info where
  "plane_contract = empty_contract\<lparr>ownerDims := [0, 1], distributionVersion := Some 2, staticBlockShape := [8, 8]\<rparr>"

lemma sample_contracts_wf: "contract_wf stencil_contract" "contract_wf plane_contract"
  by (simp_all add: contract_wf_def stencil_contract_def plane_contract_def empty_contract_def)

lemma merge_keeps_contracts_witness:
  "let m = fst (mergeLoweringContractInfo stencil_contract plane_contract)
   in contract_wf m \<and> ranked m \<and> depPattern m = Some DepStencil \<and> ownerDims m = [0, 1] \<and>
      staticBlockShape m = [8, 8] \<and> staticMinOffsets m = []"
proof -
  let ?m = "fst (mergeLoweringContractInfo stencil_contract plane_contract)"
  have "depPattern stencil_contract = Some DepStencil" "ownerDims ?m = [0, 1]"
    "staticBlockShape ?m = [8, 8]" "staticMinOffsets ?m = []" by code_simp+
  then show ?thesis using merge_keeps_contracts [OF sample_contracts_wf] by simp
qed

lemma upsert_reads_back:
  assumes "placeable dominates info" "\<not> is_empty info"
    and "sem target = None" "\<forall>i n t g p xs ys. target \<noteq> DbAcquire i n t g p xs ys"
  shows "fst (upsertLoweringContract dominates target info (S, n)) target =
      [create_contract target (fst (materialized_info dominates info n))] \<and>
    getLoweringContract A (fst (upsertLoweringContract dominates target info (S, n))) sem target =
      Some (without_statics (fst (materialized_info dominates info n)))"
proof -
  let ?m = "fst (materialized_info dominates info n)"
  let ?S = "fst (upsertLoweringContract dominates target info (S, n))"
  have S: "?S = S(target := [create_contract target ?m])"
    using assms(2) by (simp add: upsertLoweringContract_def split: prod.split)
  then have op: "getLoweringContractOp ?S target = Some (create_contract target ?m)"
    by (simp add: getLoweringContractOp_def)
  have "getLoweringContract A ?S sem target = Some (read_contract (create_contract target ?m))"
    using assms(3,4) op by (cases target) (auto simp: resolveContractTarget_def merge_semantic_def)
  then show ?thesis using S read_create by simp
qed

text \<open>
  C8: What \<open>upsertLoweringContract\<close> writes verifies and is read back. For a well-formed
  contract whose dynamic values dominate the insertion point or are constants, the operation it
  creates passes its verifier, it is the only contract of the target, and reading the target (an
  allocation or argument, with no attributes of its own) gives the normalised contract with no
  static lists and with these values for the block shape, the two offsets and the write footprint:
  each dynamic value itself where it dominates and a constant equal to it where it does not, and
  where there are no dynamic values the constants of the static list.
\<close>

theorem upsert_roundtrip:
  assumes "contract_wf info" "placeable dominates info" "\<not> is_empty info"
    and "sem target = None" "\<forall>i n t g p xs ys. target \<noteq> DbAcquire i n t g p xs ys"
  shows "\<exists>c bs mn mx fp. fst (upsertLoweringContract dominates target info (S, n)) target = [c] \<and> verify_contract c \<and>
    getLoweringContract A (fst (upsertLoweringContract dominates target info (S, n))) sem target =
      Some ((normalizeLoweringContractInfo info)\<lparr>blockShape := bs, minOffsets := mn, maxOffsets := mx,
        writeFootprint := fp, staticBlockShape := [], staticMinOffsets := [], staticMaxOffsets := []\<rparr>) \<and>
    written_as dominates (blockShape (normalizeLoweringContractInfo info))
      (staticBlockShape (normalizeLoweringContractInfo info)) bs \<and>
    written_as dominates (minOffsets (normalizeLoweringContractInfo info))
      (staticMinOffsets (normalizeLoweringContractInfo info)) mn \<and>
    written_as dominates (maxOffsets (normalizeLoweringContractInfo info))
      (staticMaxOffsets (normalizeLoweringContractInfo info)) mx \<and>
    written_as dominates (writeFootprint (normalizeLoweringContractInfo info)) [] fp"
proof -
  obtain bs mn mx fp where m: "fst (materialized_info dominates info n) =
      (normalizeLoweringContractInfo info)\<lparr>blockShape := bs, minOffsets := mn, maxOffsets := mx, writeFootprint := fp\<rparr>"
    and w: "written_as dominates (blockShape (normalizeLoweringContractInfo info))
        (staticBlockShape (normalizeLoweringContractInfo info)) bs"
      "written_as dominates (minOffsets (normalizeLoweringContractInfo info))
        (staticMinOffsets (normalizeLoweringContractInfo info)) mn"
      "written_as dominates (maxOffsets (normalizeLoweringContractInfo info))
        (staticMaxOffsets (normalizeLoweringContractInfo info)) mx"
      "written_as dominates (writeFootprint (normalizeLoweringContractInfo info)) [] fp"
    using materialized_values [OF assms(2), of n] by blast
  have "without_statics (fst (materialized_info dominates info n)) = (normalizeLoweringContractInfo info)
      \<lparr>blockShape := bs, minOffsets := mn, maxOffsets := mx, writeFootprint := fp, staticBlockShape := [],
       staticMinOffsets := [], staticMaxOffsets := []\<rparr>"
    unfolding m by (simp add: without_statics_def)
  then show ?thesis
    using upsert_reads_back [OF assms(2,3), of sem target S n A] assms(4,5) materialized_verifies [OF assms(1,2), of target n] w
    by (intro exI conjI) (assumption | simp)+
qed

lemma upsert_roundtrip_witness:
  "let target = BlockArg 0 0 (MemRefTy [None] IndexTy) None;
       S = fst (upsertLoweringContract (\<lambda>v. True) target stencil_contract (\<lambda>v. [], 10));
       A = \<lparr>alloc_attr = (\<lambda>i. undefined), acquire_attr = (\<lambda>i. undefined)\<rparr>
   in \<exists>c. S target = [c] \<and> verify_contract c \<and>
        map_option (\<lambda>r. map getConstantIndex (blockShape r)) (getLoweringContract A S (\<lambda>v. None) target) =
          Some [Some 16]"
proof -
  let ?t = "BlockArg 0 0 (MemRefTy [None] IndexTy) None"
  let ?A = "\<lparr>alloc_attr = (\<lambda>i. undefined), acquire_attr = (\<lambda>i. undefined)\<rparr>"
  have pl: "placeable (\<lambda>v. True) stencil_contract" "\<not> is_empty stencil_contract" by code_simp+
  have sh: "blockShape (normalizeLoweringContractInfo stencil_contract) = []"
    "staticBlockShape (normalizeLoweringContractInfo stencil_contract) = [16]" by code_simp+
  show ?thesis
    using upsert_roundtrip [OF sample_contracts_wf(1) pl, of "\<lambda>v. None" ?t "\<lambda>v. []" 10 ?A]
    unfolding sh by (auto simp: written_as_def Let_def)
qed

text \<open>
  C19: The dependency window of an acquire has one source. No acquire is given both a
  stencil halo and its partition slice, nor either of them together with the parent's
  range; an output acquire gets none of the three; and a read acquire keeps the parent's
  range exactly when its contract is neither narrowable nor an explicit stencil contract. An
  explicit stencil contract is one of effective kind stencil with owner dimensions, independent
  dimensions, a block shape or offsets, so a stencil pattern alone keeps the parent's range.
\<close>

theorem dependency_window_policies:
  "\<not> (shouldApplyStencilHalo c m \<and> shouldUsePartitionSliceAsDepWindow c m p) \<and>
   \<not> (shouldApplyStencilHalo c m \<and> shouldPreserveParentDepRange c m) \<and>
   \<not> (shouldUsePartitionSliceAsDepWindow c m p \<and> shouldPreserveParentDepRange c m) \<and>
   \<not> (shouldApplyStencilHalo c ModeOut \<or> shouldUsePartitionSliceAsDepWindow c ModeOut p \<or>
      shouldPreserveParentDepRange c ModeOut) \<and>
   shouldPreserveParentDepRange c ModeIn = (\<not> (hasExplicitStencilContract c \<or> narrowableDep c))"
  by (auto simp: shouldApplyStencilHalo_def shouldUsePartitionSliceAsDepWindow_def
      shouldPreserveParentDepRange_def supportsBlockHalo_def)

lemma stamp_read: "readOwnershipProof (stampOwnershipProof c p) = p"
  by (cases p) (simp add: readOwnershipProof_def stampOwnershipProof_def value_or_def)

lemma stamp_contract_read:
  assumes "memref_rank (getTarget c) = Some rank"
  shows "readOwnershipProof (stamp_contract c) = computeOwnershipProof c"
proof -
  have "provenCount (computeOwnershipProof c) > 0"
    using assms by (simp add: computeOwnershipProof_def Let_def provenCount_def)
  then show ?thesis using assms by (simp add: stamp_contract_def Let_def stamp_read)
qed

text \<open>
  C18: What a stamped ownership proof stands for. Validation of a contract on a memref
  writes exactly the computed proof. When it is fully proven every owner dimension is a
  dimension of the memref, the partition mode is absent, block or stencil, the pattern
  is known and, for a stencil, its window is given by offsets or halo support; and
  the partitioned writes the mode tightening trusts (\<open>partitionAccessMapping\<close> with
  \<open>depSliceSoundness\<close>) always have owner dimensions in range and a narrowable or
  uniform pattern.
\<close>

theorem ownership_proof_meaning:
  assumes "memref_rank (getTarget c) = Some rank"
  shows "readOwnershipProof (stamp_contract c) = computeOwnershipProof c \<and>
    (partitionAccessMapping (computeOwnershipProof c) \<and> depSliceSoundness (computeOwnershipProof c) \<longrightarrow>
       (\<exists>ds p. from_contract ca_ownerDims c = Some ds \<and> ds \<noteq> [] \<and> (\<forall>d\<in>set ds. 0 \<le> d \<and> d < int rank) \<and>
          from_pattern pa_depPattern c = Some p \<and> partitionModeAttr c \<noteq> Some PartCoarse \<and>
          partitionModeAttr c \<noteq> Some PartFineGrained \<and>
          (from_contract ca_narrowableDep c = Some True \<or> isUniformFamilyDepPattern p))) \<and>
    (isFullyProven (computeOwnershipProof c) \<longrightarrow>
       (\<exists>p. from_pattern pa_depPattern c = Some p \<and>
          (if isStencilFamilyDepPattern p
           then getMinOffsets c \<noteq> [] \<and> getMaxOffsets c \<noteq> [] \<or> from_contract ca_supportedBlockHalo c = Some True
           else isUniformFamilyDepPattern p)))"
  using stamp_contract_read [OF assms] assms
  by (auto simp: computeOwnershipProof_def Let_def isFullyProven_def value_or_def list_all_iff not_le not_less
      split: option.splits if_splits)

definition proven_contract :: lowering_contract where
  "proven_contract = create_contract (BlockArg 0 0 (MemRefTy [None, None] IndexTy) None)
     (stencil_contract\<lparr>narrowableDep := True\<rparr>)"

lemma ownership_proof_meaning_witness:
  "isFullyProven (readOwnershipProof (stamp_contract proven_contract)) \<and>
   (\<exists>p. from_pattern pa_depPattern proven_contract = Some p \<and> isStencilFamilyDepPattern p)"
proof -
  have r: "memref_rank (getTarget proven_contract) = Some 2" by code_simp
  have f: "isFullyProven (computeOwnershipProof proven_contract)" by code_simp
  have s: "isUniformFamilyDepPattern p \<Longrightarrow> from_pattern pa_depPattern proven_contract \<noteq> Some p" for p
    by (auto simp: proven_contract_def from_pattern_build stencil_contract_def)
  from ownership_proof_meaning [OF r] show ?thesis using f s by (auto split: if_splits)
qed

section \<open>Where contracts go wrong\<close>

text \<open>
  No dynamic values are read as the constant empty list, so the static block shape and
  the static offsets are never the fallback of a contract without dynamic ones.
\<close>

lemma static_shape_ignored:
  "getStaticBlockShape stencil_contract = Some []" "projectHaloWindow stencil_contract = Some ([], [])"
  "\<not> prefersNDBlock stencil_contract 1"
  by code_simp+

text \<open>
  A block shape of higher rank is taken from the source before the ranks are checked
  against the owner dimensions: the destination's matching block shape is lost.
\<close>

lemma merge_loses_block_shape:
  "let dest = empty_contract\<lparr>ownerDims := [0], staticBlockShape := [16]\<rparr>;
       src = empty_contract\<lparr>staticBlockShape := [8, 8]\<rparr>
   in mergeLoweringContractInfo dest src = (dest\<lparr>staticBlockShape := []\<rparr>, True)"
  by code_simp

text \<open>
  Offsets are materialised one list at a time: when only the lower ones fail to
  dominate, the operation is created with the upper ones alone and does not verify.
\<close>

lemma upsert_may_not_verify:
  "let x = BlockArg 1 0 IndexTy None; y = BlockArg 2 0 IndexTy None;
       info = empty_contract\<lparr>ownerDims := [0], minOffsets := [x], maxOffsets := [y]\<rparr>
   in contract_wf info \<and>
      \<not> verify_contract (create_contract (BlockArg 0 0 IndexTy None)
          (fst (materialized_info (\<lambda>v. v = y) info 0)))"
  by code_simp

text \<open>
  The second consistency warning cannot occur: in a contract that verifies, halo
  support alone makes the halo legal.
\<close>

lemma halo_inconsistency_unreachable:
  assumes "verify_contract c" "memref_rank (getTarget c) = Some rank"
    and "value_or (from_contract ca_supportedBlockHalo c) False"
  shows "haloLegality (readOwnershipProof (stamp_contract c))"
  using assms stamp_contract_read [OF assms(2)]
  by (auto simp: verify_contract_def computeOwnershipProof_def Let_def split: option.splits if_splits)

text \<open>The relaunch dimension of the proof is proven for every contract on a memref.\<close>

lemma relaunch_always_proven:
  "memref_rank (getTarget c) \<noteq> None \<Longrightarrow> relaunchStateSoundness (computeOwnershipProof c)"
  by (auto simp: computeOwnershipProof_def Let_def)

end
