(* ===== verification/ModeTightening.thy ===== *)
theory ModeTightening
  imports BlockAccess Contracts
begin

text \<open>
  Tightening of access modes (\<open>arts/Transforms/db/DbModeTightening.cpp\<close>): every acquire gets
  the mode its own loads and stores need, every allocation the combination of the modes of
  its acquires, and allocations are marked local or written once.

  A task that acquires a datablock as output gets fresh memory: what it does not write is
  lost, and what it reads before writing is undefined. So the lemmas relate the chosen mode
  to the accesses, and say when the test for full writes really covers the datablock.
\<close>

section \<open>Memory accesses of an acquire\<close>

datatype mem_kind = MemLoad | MemStore | DynLoad | DynStore | AffineLoad | AffineStore

record mem_op =
  mem_id :: nat
  op_kind :: mem_kind
  accessed :: val
  mem_indices :: "val list"

definition isWrite :: "mem_kind \<Rightarrow> bool" where
  "isWrite k = (k \<in> {MemStore, DynStore, AffineStore})"

text \<open>A \<open>db_ref\<close> with the memory operations reachable from it, as the access collector returns them.\<close>

record ref_use =
  ref_source :: val
  ref_indices :: "val list"
  ref_result :: val
  ref_ops :: "mem_op list"

record acquire_info =
  acq_mode :: arts_mode
  preserveAccessMode :: bool
  edt_user :: "nat option"
  ref_uses :: "ref_use list"
  edt_loops :: "loop_node list"
  partitionDims :: "nat list"
  partitionSizes :: "val option list"
  partitionMode :: "partition_mode option"
  acq_ptr :: val
  acq_source :: val
  acq_order :: nat
  acq_parents :: "string list"
  hasDistribution :: bool

datatype acquire_tree = Acq acquire_info "acquire_tree list"

definition accesses :: "acquire_info \<Rightarrow> mem_op list" where
  "accesses a = concat (map ref_ops (ref_uses a))"

definition hasLoads :: "acquire_info \<Rightarrow> bool" where
  "hasLoads a = list_ex (\<lambda>m. \<not> isWrite (op_kind m)) (accesses a)"

definition hasStores :: "acquire_info \<Rightarrow> bool" where
  "hasStores a = list_ex (\<lambda>m. isWrite (op_kind m)) (accesses a)"

text \<open>
  \<open>collectFullIndexChain\<close>: the indices of the \<open>db_ref\<close>, the dynamic offsets of the subviews
  between it and the accessed memref, outermost first, and the indices of the access.
  \<open>so i\<close> are the dynamic offsets of subview \<open>i\<close>.
\<close>

fun forwarded_offsets :: "(nat \<Rightarrow> val list) \<Rightarrow> val \<Rightarrow> val \<Rightarrow> val list" where
  "forwarded_offsets so anchor (ViewLike i t k s xs) =
     (if ViewLike i t k s xs = anchor then []
      else if k = SubView then forwarded_offsets so anchor s @ so i
      else if k = MemCast \<or> k = MemView \<or> k = ReinterpretCast then forwarded_offsets so anchor s
      else [])"
| "forwarded_offsets so anchor (Unrealized i n t (x # xs)) =
     (if Unrealized i n t (x # xs) = anchor then [] else forwarded_offsets so anchor x)"
| "forwarded_offsets so anchor v = []"

definition collectFullIndexChain :: "(nat \<Rightarrow> val list) \<Rightarrow> ref_use \<Rightarrow> mem_op \<Rightarrow> val list" where
  "collectFullIndexChain so r m =
     ref_indices r @ forwarded_offsets so (ref_result r) (accessed m) @ mem_indices m"

section \<open>Full coverage\<close>

definition isProvablyZeroLoopLowerBound :: "mlir \<Rightarrow> loop_env \<Rightarrow> val \<Rightarrow> bool" where
  "isProvablyZeroLoopLowerBound P L bound =
     (let lb = stripNumericCasts bound in
      if isZeroConstant lb then True
      else case lb of
             Select i t c a b \<Rightarrow>
               (let trueVal = stripNumericCasts a; falseVal = stripNumericCasts b in
                case stripNumericCasts c of
                  CmpI j p x y \<Rightarrow>
                    (let lhs = stripNumericCasts x; rhs = stripNumericCasts y;
                         matchesZeroClamp = (\<lambda>zeroArm otherArm.
                           if \<not> isZeroConstant zeroArm \<or> \<not> isKnownNonPositive P L 0 otherArm then False
                           else (p = Cslt \<or> p = Cult) \<and> sameValue P lhs otherArm \<and> isZeroConstant rhs \<or>
                                (p = Csgt \<or> p = Cugt) \<and> sameValue P rhs otherArm \<and> isZeroConstant lhs)
                     in matchesZeroClamp trueVal falseVal \<or> matchesZeroClamp falseVal trueVal)
                | _ \<Rightarrow> False)
           | _ \<Rightarrow> False)"

definition isLoopFullRange :: "mlir \<Rightarrow> loop_env \<Rightarrow> loop_node \<Rightarrow> val \<Rightarrow> bool" where
  "isLoopFullRange P L loop dimSize =
     (case (getLowerBound loop, getStep loop, getUpperBound loop) of
        (Some lb, Some step, Some ub) \<Rightarrow>
          if \<not> isProvablyZeroLoopLowerBound P L lb then False
          else if \<not> isOneConstant (stripNumericCasts step) then False
          else areEquivalentOwnedSliceExtents P ub dimSize
      | _ \<Rightarrow> False)"

fun best_loop :: "val \<Rightarrow> loop_node list \<Rightarrow> (loop_node \<times> iv_expr \<times> int) option \<Rightarrow>
    (loop_node \<times> iv_expr \<times> int) option"
where
  "best_loop idx [] best = best"
| "best_loop idx (loop # loops) best =
     (if \<not> dependsOnInductionVarNormalized loop idx then best_loop idx loops best
      else
        let expr = analyzeIndexExpr loop idx in
        if \<not> dependsOnIV expr then best_loop idx loops best
        else
          let depth = getNestingDepth loop in
          if (case best of None \<Rightarrow> True | Some (b, e, bestDepth) \<Rightarrow> depth > bestDepth)
          then best_loop idx loops (Some (loop, expr, depth))
          else best_loop idx loops best)"

definition isIndexFullCoverage :: "mlir \<Rightarrow> loop_env \<Rightarrow> val \<Rightarrow> val \<Rightarrow> loop_node list \<Rightarrow> bool" where
  "isIndexFullCoverage P L index dimSize loops =
     (if arts_tryFoldConstantIndex P 0 (stripNumericCasts dimSize) = Some 1 then True
      else
        let idx = stripNumericCasts index in
        if arts_tryFoldConstantIndex P 0 idx \<noteq> None then False
        else case best_loop idx loops None of
               None \<Rightarrow> False
             | Some (best, expr, depth) \<Rightarrow>
                 if multiplier expr \<noteq> Some 1 then False
                 else if offset expr \<noteq> Some 0 then False
                 else isLoopFullRange P L best dimSize)"

fun slice_sizes :: "nat list \<Rightarrow> val option list \<Rightarrow> val list \<Rightarrow> val list" where
  "slice_sizes (d # ds) (s # ss) dimSizes =
     slice_sizes ds ss
       (case s of None \<Rightarrow> dimSizes | Some v \<Rightarrow> if d < length dimSizes then dimSizes[d := v] else dimSizes)"
| "slice_sizes ds ss dimSizes = dimSizes"

definition getEffectiveSliceDimSizes :: "acquire_info \<Rightarrow> val list \<Rightarrow> val list" where
  "getEffectiveSliceDimSizes a elementSizes =
     (if elementSizes = [] then [] else slice_sizes (partitionDims a) (partitionSizes a) elementSizes)"

fun dims_covered :: "mlir \<Rightarrow> loop_env \<Rightarrow> loop_node list \<Rightarrow> val list \<Rightarrow> val list \<Rightarrow> bool" where
  "dims_covered P L loops (idx # idxs) (dimSize # dimSizes) =
     (if \<not> isIndexFullCoverage P L idx dimSize loops then False else dims_covered P L loops idxs dimSizes)"
| "dims_covered P L loops idxs dimSizes = True"

definition store_covers :: "mlir \<Rightarrow> loop_env \<Rightarrow> (nat \<Rightarrow> val list) \<Rightarrow> loop_node list \<Rightarrow> val list \<Rightarrow> ref_use \<Rightarrow> mem_op \<Rightarrow> bool"
where
  "store_covers P L so loops dimSizes r m =
     (if op_kind m \<noteq> MemStore then True
      else
        let indexChain = collectFullIndexChain so r m; memrefStart = length (ref_indices r) in
        if indexChain = [] then False
        else if length indexChain \<le> memrefStart then False
        else
          let memrefIndices = drop memrefStart indexChain in
          if \<not> dims_covered P L loops memrefIndices dimSizes then False
          else length memrefIndices = length dimSizes)"

definition writesFullAllocation ::
  "mlir \<Rightarrow> loop_env \<Rightarrow> (nat \<Rightarrow> val list) \<Rightarrow> acquire_info \<Rightarrow> val list \<Rightarrow> bool"
where
  "writesFullAllocation P L so a elementSizes =
     (if \<not> hasStores a then True
      else if edt_user a = None then True
      else if ref_uses a = [] then True
      else
        let dimSizes = getEffectiveSliceDimSizes a elementSizes in
        if dimSizes = [] then True
        else list_all (\<lambda>r. list_all (store_covers P L so (edt_loops a) dimSizes r) (ref_ops r)) (ref_uses a))"

section \<open>Loads satisfied by the task's own stores\<close>

text \<open>\<open>dominates s l\<close>: operation \<open>s\<close> dominates operation \<open>l\<close> in the function.\<close>

definition getMemAccessSite :: "(nat \<Rightarrow> val list) \<Rightarrow> ref_use \<Rightarrow> mem_op \<Rightarrow> (val \<times> val list) option" where
  "getMemAccessSite so r m =
     (let chain = collectFullIndexChain so r m
      in if chain = [] then None
         else if op_kind m \<in> {MemLoad, MemStore, AffineLoad, AffineStore} then Some (ref_source r, chain)
         else None)"

definition sameMemAccessSite :: "mlir \<Rightarrow> val \<times> val list \<Rightarrow> val \<times> val list \<Rightarrow> bool" where
  "sameMemAccessSite P lhs rhs =
     (if \<not> sameValue P (fst lhs) (fst rhs) \<or> length (snd lhs) \<noteq> length (snd rhs) then False
      else list_all (\<lambda>(x, y). sameValue P x y) (zip (snd lhs) (snd rhs)))"

definition sites :: "(nat \<Rightarrow> val list) \<Rightarrow> mem_kind set \<Rightarrow> acquire_info \<Rightarrow> (nat \<times> val \<times> val list) list" where
  "sites so kinds a =
     concat (map (\<lambda>r. List.map_filter
       (\<lambda>m. if op_kind m \<in> kinds
            then (case getMemAccessSite so r m of None \<Rightarrow> None | Some s \<Rightarrow> Some (mem_id m, s)) else None)
       (ref_ops r)) (ref_uses a))"

definition loadsAreSatisfiedByDominatingStores ::
  "mlir \<Rightarrow> (nat \<Rightarrow> val list) \<Rightarrow> (nat \<Rightarrow> nat \<Rightarrow> bool) \<Rightarrow> acquire_info \<Rightarrow> bool"
where
  "loadsAreSatisfiedByDominatingStores P so dominates a =
     (if ref_uses a = [] then False
      else
        let stores = sites so {MemStore, AffineStore} a; loads = sites so {MemLoad, AffineLoad} a in
        if stores = [] \<or> loads = [] then False
        else list_all (\<lambda>(l, loadSite).
               list_ex (\<lambda>(s, storeSite). dominates s l \<and> sameMemAccessSite P storeSite loadSite) stores) loads)"

section \<open>The mode of an acquire\<close>

definition canPreserveProofTrustedPartitionedWrite ::
  "db_attrs \<Rightarrow> contract_store \<Rightarrow> (val \<Rightarrow> contract_info option) \<Rightarrow> acquire_info \<Rightarrow> bool"
where
  "canPreserveProofTrustedPartitionedWrite A S sem a =
     (if value_or (partitionMode a) PartCoarse = PartCoarse then False
      else if (case resolveAcquireContract A S sem (acq_ptr a) (acq_source a) of
                 Some info \<Rightarrow> hasExplicitStencilContract info \<and> supportsBlockHalo info
               | None \<Rightarrow> False) then False
      else case (case getLoweringContractOp S (acq_ptr a) of
                   Some c \<Rightarrow> Some c | None \<Rightarrow> getLoweringContractOp S (acq_source a)) of
             None \<Rightarrow> False
           | Some contract \<Rightarrow>
               (let read = readOwnershipProof contract;
                    pr = (if \<not> (partitionAccessMapping read \<and> depSliceSoundness read)
                              then computeOwnershipProof contract else read)
                in partitionAccessMapping pr \<and> depSliceSoundness pr))"

text \<open>What the pass asks of the module around the acquires.\<close>

record mode_context =
  services :: mlir
  body_loops :: loop_env
  subview_offsets :: "nat \<Rightarrow> val list"
  op_dominates :: "nat \<Rightarrow> nat \<Rightarrow> bool"
  op_attrs :: db_attrs
  contract_ops :: contract_store
  semantic :: "val \<Rightarrow> contract_info option"
  forceInout :: bool

definition full_write :: "mode_context \<Rightarrow> acquire_info \<Rightarrow> val list option \<Rightarrow> bool" where
  "full_write X a al =
     (case al of
        None \<Rightarrow> True
      | Some elementSizes \<Rightarrow>
          writesFullAllocation (services X) (body_loops X) (subview_offsets X) a elementSizes)"

definition trusted_write :: "mode_context \<Rightarrow> acquire_info \<Rightarrow> bool" where
  "trusted_write X a =
     canPreserveProofTrustedPartitionedWrite (op_attrs X) (contract_ops X) (semantic X) a"

definition covered_loads :: "mode_context \<Rightarrow> acquire_info \<Rightarrow> bool" where
  "covered_loads X a =
     (hasLoads a \<and> hasStores a \<and>
      loadsAreSatisfiedByDominatingStores (services X) (subview_offsets X) (op_dominates X) a)"

definition access_based_mode :: "arts_mode \<Rightarrow> bool \<Rightarrow> bool \<Rightarrow> bool \<Rightarrow> arts_mode" where
  "access_based_mode originalMode loads stores covered =
     (if originalMode = ModeOut \<and> stores then ModeOut
      else if stores \<and> (\<not> loads \<or> covered) then ModeOut
      else if loads \<and> stores then ModeInout
      else ModeIn)"

text \<open>\<open>al\<close>: the element sizes of the root allocation, when there is one.\<close>

definition adjusted_mode :: "mode_context \<Rightarrow> val list option \<Rightarrow> acquire_info \<Rightarrow> arts_mode" where
  "adjusted_mode X al a =
     (if preserveAccessMode a then acq_mode a
      else if \<not> hasLoads a \<and> \<not> hasStores a then acq_mode a
      else
        let based = access_based_mode (acq_mode a) (hasLoads a) (hasStores a) (covered_loads X a);
            forced = (if hasStores a \<and> forceInout X then ModeInout else based)
        in if forced = ModeOut \<and> al \<noteq> None \<and> \<not> full_write X a al \<and> \<not> trusted_write X a
           then ModeInout else forced)"

section \<open>The pass\<close>

fun adjust_tree :: "mode_context \<Rightarrow> val list option \<Rightarrow> acquire_tree \<Rightarrow> acquire_tree" where
  "adjust_tree X al (Acq a cs) = Acq (a\<lparr>acq_mode := adjusted_mode X al a\<rparr>) (map (adjust_tree X al) cs)"

fun tree_infos :: "acquire_tree \<Rightarrow> acquire_info list" where
  "tree_infos (Acq a cs) = a # concat (map tree_infos cs)"

fun collectModesRecursive :: "acquire_tree \<Rightarrow> arts_mode \<Rightarrow> arts_mode" where
  "collectModesRecursive (Acq a cs) combined =
     fold collectModesRecursive cs (combineAccessModes combined (acq_mode a))"

record alloc_node =
  elementSizes :: "val list"
  alloc_mode :: arts_mode
  alloc_dbMode :: db_mode
  distributedAlloc :: bool
  alloc_localOnly :: bool
  readOnlyAfterInit :: bool
  acquires_of :: "acquire_tree list"

definition adjust_alloc_mode :: "alloc_node \<Rightarrow> alloc_node" where
  "adjust_alloc_mode n =
     (if acquires_of n = [] then n
      else
        let maxMode = fold collectModesRecursive (acquires_of n) ModeIn
        in n\<lparr>alloc_mode := maxMode, alloc_dbMode := convertArtsModeToDbMode maxMode\<rparr>)"

definition adjustDbModes :: "mode_context \<Rightarrow> alloc_node list \<Rightarrow> alloc_node list" where
  "adjustDbModes X nodes =
     map (\<lambda>n. adjust_alloc_mode
            (n\<lparr>acquires_of := map (adjust_tree X (Some (elementSizes n))) (acquires_of n)\<rparr>)) nodes"

fun checkDistributedRecursive :: "acquire_tree \<Rightarrow> bool \<Rightarrow> bool" where
  "checkDistributedRecursive (Acq a cs) isLocalOnly =
     (if \<not> isLocalOnly then False
      else if hasDistribution a then False
      else fold checkDistributedRecursive cs isLocalOnly)"

definition repeatable_ops :: "string set" where
  "repeatable_ops = {''scf.for'', ''scf.while'', ''scf.parallel'', ''scf.forall'', ''affine.for'', ''affine.parallel''}"

definition isInsideRepeatableControl :: "acquire_info \<Rightarrow> bool" where
  "isInsideRepeatableControl a = list_ex (\<lambda>p. p \<in> repeatable_ops) (acq_parents a)"

text \<open>The scan state: first writer found, all reads after it, writers, first writer repeatable.\<close>

fun scan_writers :: "acquire_info list \<Rightarrow> bool \<times> bool \<times> nat \<times> bool \<Rightarrow> bool \<times> bool \<times> nat \<times> bool" where
  "scan_writers [] st = st"
| "scan_writers (a # as) (foundWriter, allReadAfterWrite, writerCount, repeatable) =
     (let isWriter = isWriterMode (acq_mode a)
      in if \<not> foundWriter
         then scan_writers as
                (if isWriter then (True, allReadAfterWrite, writerCount + 1, isInsideRepeatableControl a)
                 else (False, allReadAfterWrite, writerCount, repeatable))
         else scan_writers as
                (if isWriter then (True, False, writerCount + 1, repeatable)
                 else (True, allReadAfterWrite, writerCount, repeatable)))"

definition infer_storage :: "alloc_node \<Rightarrow> alloc_node" where
  "infer_storage n =
     (let isLocalOnly = (\<not> distributedAlloc n \<and> fold checkDistributedRecursive (acquires_of n) True);
          n1 = (if isLocalOnly then n\<lparr>alloc_localOnly := True\<rparr> else n);
          ordered = sort_key acq_order (concat (map tree_infos (acquires_of n)))
      in if ordered = [] then n1
         else case scan_writers ordered (False, True, 0, False) of
                (foundWriter, allReadAfterWrite, writerCount, repeatable) \<Rightarrow>
                  if foundWriter \<and> allReadAfterWrite \<and> writerCount = 1 \<and> \<not> repeatable
                  then n1\<lparr>readOnlyAfterInit := True\<rparr> else n1)"

definition inferDbStorageTypes :: "alloc_node list \<Rightarrow> alloc_node list" where
  "inferDbStorageTypes nodes = map infer_storage nodes"

definition DbModeTighteningPass :: "mode_context \<Rightarrow> alloc_node list \<Rightarrow> alloc_node list" where
  "DbModeTighteningPass X nodes = inferDbStorageTypes (adjustDbModes X nodes)"

section \<open>The chosen mode\<close>

lemma adjusted_mode_cases:
  assumes "\<not> preserveAccessMode a" "hasLoads a \<or> hasStores a"
  obtains (force) "hasStores a" "forceInout X" "adjusted_mode X al a = ModeInout"
  | (partial) "hasStores a" "al \<noteq> None" "\<not> full_write X a al" "\<not> trusted_write X a"
      "adjusted_mode X al a = ModeInout"
  | (based) "adjusted_mode X al a =
      access_based_mode (acq_mode a) (hasLoads a) (hasStores a) (covered_loads X a)"
      "\<not> (hasStores a \<and> forceInout X)"
      "adjusted_mode X al a = ModeOut \<Longrightarrow> al = None \<or> full_write X a al \<or> trusted_write X a"
  using assms unfolding adjusted_mode_def Let_def
  by (cases "hasStores a \<and> forceInout X"; cases "hasStores a"; cases "al = None";
      cases "full_write X a al"; cases "trusted_write X a")
    (auto simp: access_based_mode_def split: if_splits)

lemma adjusted_parts:
  "full_write X (a\<lparr>acq_mode := m\<rparr>) al = full_write X a al"
  "trusted_write X (a\<lparr>acq_mode := m\<rparr>) = trusted_write X a"
  "covered_loads X (a\<lparr>acq_mode := m\<rparr>) = covered_loads X a"
  "hasLoads (a\<lparr>acq_mode := m\<rparr>) = hasLoads a" "hasStores (a\<lparr>acq_mode := m\<rparr>) = hasStores a"
proof -
  show eq: "hasLoads (a\<lparr>acq_mode := m\<rparr>) = hasLoads a" "hasStores (a\<lparr>acq_mode := m\<rparr>) = hasStores a"
    by (simp_all add: hasLoads_def hasStores_def accesses_def)
  show "full_write X (a\<lparr>acq_mode := m\<rparr>) al = full_write X a al"
    using eq by (auto simp add: full_write_def writesFullAllocation_def getEffectiveSliceDimSizes_def Let_def split: option.split)
  show "trusted_write X (a\<lparr>acq_mode := m\<rparr>) = trusted_write X a"
    by (simp add: trusted_write_def canPreserveProofTrustedPartitionedWrite_def cong: option.case_cong)
  show "covered_loads X (a\<lparr>acq_mode := m\<rparr>) = covered_loads X a"
    using eq by (simp add: covered_loads_def loadsAreSatisfiedByDominatingStores_def sites_def)
qed

lemma adjusted_twice:
  "adjusted_mode X al (a\<lparr>acq_mode := adjusted_mode X al a\<rparr>) = adjusted_mode X al a"
proof (cases "preserveAccessMode a \<or> \<not> hasLoads a \<and> \<not> hasStores a")
  case True
  then show ?thesis by (auto simp: adjusted_mode_def adjusted_parts)
next
  case False
  let ?b = "a\<lparr>acq_mode := adjusted_mode X al a\<rparr>"
  have a: "\<not> preserveAccessMode a" "hasLoads a \<or> hasStores a"
    and b: "\<not> preserveAccessMode ?b" "hasLoads ?b \<or> hasStores ?b" using False by (auto simp: adjusted_parts)
  from a show ?thesis
  proof (cases rule: adjusted_mode_cases [where X = X and al = al])
    case force
    then show ?thesis by (cases rule: adjusted_mode_cases [OF b, of X al]) (simp_all add: adjusted_parts)
  next
    case partial
    then show ?thesis
      by (cases rule: adjusted_mode_cases [OF b, of X al])
        (auto simp: adjusted_parts access_based_mode_def split: if_splits)
  next
    case based
    then show ?thesis
      by (cases rule: adjusted_mode_cases [OF b, of X al])
        (auto simp: adjusted_parts access_based_mode_def split: if_splits)
  qed
qed

section \<open>Modes and storage of an allocation\<close>

lemma collect_modes:
  "collectModesRecursive t m = fold sup (map acq_mode (tree_infos t)) m"
proof (induction t arbitrary: m)
  case (Acq a cs)
  have step: "fold collectModesRecursive cs k = fold sup (map acq_mode (concat (map tree_infos cs))) k" for k
    using Acq by (induction cs arbitrary: k) simp_all
  show ?case by (simp add: step sup_arts_mode_def [symmetric] sup.commute)
qed

lemma fold_sup_upper:
  "m \<le> fold sup xs (m :: arts_mode)" "x \<in> set xs \<Longrightarrow> x \<le> fold sup xs (m :: arts_mode)"
proof -
  show up: "m \<le> fold sup xs m" for m :: arts_mode and xs
    by (induction xs arbitrary: m) (auto intro: order_trans [OF sup.cobounded2])
  show "x \<in> set xs \<Longrightarrow> x \<le> fold sup xs m"
  proof (induction xs arbitrary: m)
    case (Cons y ys)
    then show ?case using order_trans [OF _ up [of "sup y m" ys]] by auto
  qed simp
qed

lemma fold_sup_least:
  "m \<le> (b :: arts_mode) \<Longrightarrow> (\<And>x. x \<in> set xs \<Longrightarrow> x \<le> b) \<Longrightarrow> fold sup xs m \<le> b"
  by (induction xs arbitrary: m) auto

definition all_acquires :: "alloc_node \<Rightarrow> acquire_info list" where
  "all_acquires n = concat (map tree_infos (acquires_of n))"

lemma adjusted_alloc:
  assumes "acquires_of n \<noteq> []"
  shows "alloc_mode (adjust_alloc_mode n) = fold sup (map acq_mode (all_acquires n)) ModeIn"
    and "alloc_dbMode (adjust_alloc_mode n) = convertArtsModeToDbMode (alloc_mode (adjust_alloc_mode n))"
    and "acquires_of (adjust_alloc_mode n) = acquires_of n"
proof -
  have "fold collectModesRecursive ts m = fold sup (map acq_mode (concat (map tree_infos ts))) m" for ts m
    by (induction ts arbitrary: m) (simp_all add: collect_modes)
  then show "alloc_mode (adjust_alloc_mode n) = fold sup (map acq_mode (all_acquires n)) ModeIn"
    "alloc_dbMode (adjust_alloc_mode n) = convertArtsModeToDbMode (alloc_mode (adjust_alloc_mode n))"
    "acquires_of (adjust_alloc_mode n) = acquires_of n"
    using assms by (simp_all add: adjust_alloc_mode_def Let_def all_acquires_def)
qed

lemma tree_infos_adjust:
  "tree_infos (adjust_tree X al t) = map (\<lambda>a. a\<lparr>acq_mode := adjusted_mode X al a\<rparr>) (tree_infos t)"
proof (induction t)
  case (Acq a cs)
  have "map (tree_infos \<circ> adjust_tree X al) cs =
      map (map (\<lambda>a. a\<lparr>acq_mode := adjusted_mode X al a\<rparr>) \<circ> tree_infos) cs"
    using Acq by (intro map_cong) simp_all
  then have "concat (map (tree_infos \<circ> adjust_tree X al) cs) =
      concat (map (map (\<lambda>a. a\<lparr>acq_mode := adjusted_mode X al a\<rparr>) \<circ> tree_infos) cs)"
    by (rule arg_cong)
  then show ?case by (simp add: map_concat)
qed

lemma scan_found:
  "scan_writers as (True, r, k, p) =
     (True, r \<and> \<not> list_ex (\<lambda>a. isWriterMode (acq_mode a)) as,
      k + length (filter (\<lambda>a. isWriterMode (acq_mode a)) as), p)"
  by (induction as arbitrary: r k) (auto simp: Let_def)

lemma scan_all:
  "scan_writers as (False, True, 0, False) =
     (case filter (\<lambda>a. isWriterMode (acq_mode a)) as of
        [] \<Rightarrow> (False, True, 0, False)
      | w # ws \<Rightarrow> (True, ws = [], Suc (length ws), isInsideRepeatableControl w))"
proof (induction as)
  case (Cons a as)
  then show ?case
    by (cases "isWriterMode (acq_mode a)") (auto simp: Let_def scan_found list_ex_iff filter_empty_conv)
qed simp

definition writers :: "alloc_node \<Rightarrow> acquire_info list" where
  "writers n = filter (\<lambda>a. isWriterMode (acq_mode a)) (all_acquires n)"

lemma sort_single: "sort_key f xs = [w] \<longleftrightarrow> xs = [w]"
proof
  assume s: "sort_key f xs = [w]"
  have "length xs = length (sort_key f xs)" "set xs = set (sort_key f xs)" by simp_all
  then have "length xs = 1" "set xs = {w}" unfolding s by simp_all
  then show "xs = [w]" by (cases xs) auto
qed simp

text \<open>Only the number of writers matters, so the order of the acquires does not.\<close>

lemma read_only_after_init:
  assumes "\<not> readOnlyAfterInit n"
  shows "readOnlyAfterInit (infer_storage n) \<longleftrightarrow> (\<exists>w. writers n = [w] \<and> \<not> isInsideRepeatableControl w)"
proof -
  let ?o = "sort_key acq_order (all_acquires n)"
  have one: "filter (\<lambda>a. isWriterMode (acq_mode a)) ?o = [w] \<longleftrightarrow> writers n = [w]" for w
    by (simp add: filter_sort writers_def sort_single)
  have "readOnlyAfterInit (infer_storage n) \<longleftrightarrow>
      (\<exists>w. filter (\<lambda>a. isWriterMode (acq_mode a)) ?o = [w] \<and> \<not> isInsideRepeatableControl w)"
    using assms
    by (cases "?o = []")
      (auto simp: infer_storage_def Let_def all_acquires_def [symmetric] scan_all split: list.splits)
  then show ?thesis using one by simp
qed

lemma local_only_scan:
  "checkDistributedRecursive t b = (b \<and> \<not> list_ex hasDistribution (tree_infos t))"
proof (induction t arbitrary: b)
  case (Acq a cs)
  have "fold checkDistributedRecursive cs k = (k \<and> \<not> list_ex hasDistribution (concat (map tree_infos cs)))" for k
    using Acq by (induction cs arbitrary: k) auto
  then show ?case by auto
qed

lemma local_only:
  assumes "\<not> alloc_localOnly n"
  shows "alloc_localOnly (infer_storage n) \<longleftrightarrow>
    \<not> distributedAlloc n \<and> \<not> list_ex hasDistribution (all_acquires n)"
proof -
  have "fold checkDistributedRecursive ts k = (k \<and> \<not> list_ex hasDistribution (concat (map tree_infos ts)))" for ts k
    by (induction ts arbitrary: k) (auto simp: local_only_scan)
  then show ?thesis using assms
    by (auto simp: infer_storage_def Let_def all_acquires_def split: prod.splits)
qed

lemma storage_keeps:
  "alloc_mode (infer_storage n) = alloc_mode n" "alloc_dbMode (infer_storage n) = alloc_dbMode n"
  "acquires_of (infer_storage n) = acquires_of n"
  by (simp_all add: infer_storage_def Let_def split: prod.splits)

section \<open>When a write is full\<close>

text \<open>
  \<open>E\<close> are the environments in which a store runs. In a regular nest the loops run over
  every combination of their induction variables: changing one of them to another
  iteration of its loop gives another environment of \<open>E\<close>. Bounds carry no clamps.
\<close>

fun set_iv :: "env \<Rightarrow> val \<Rightarrow> int \<Rightarrow> env" where
  "set_iv e (BlockArg b n t d) k =
     e\<lparr>arg_val := (\<lambda>b' n'. if b' = b \<and> n' = n then k else arg_val e b' n')\<rparr>"
| "set_iv e v k = e"

fun arg_key :: "val \<Rightarrow> (nat \<times> nat) option" where
  "arg_key (BlockArg b n t d) = (if width t = 64 then Some (b, n) else None)"
| "arg_key v = None"

definition regular_nest :: "mlir \<Rightarrow> env set \<Rightarrow> loop_node list \<Rightarrow> bool" where
  "regular_nest P E loops \<longleftrightarrow>
     (\<forall>e\<in>E. services_sound P e \<and> configured P e) \<and>
     (\<forall>l\<in>set loops. \<forall>iv. getInductionVar l = Some iv \<longrightarrow> arg_key iv \<noteq> None) \<and>
     (\<forall>l\<in>set loops. \<forall>e\<in>E. \<forall>lb ub st. getLowerBound l = Some lb \<and> getUpperBound l = Some ub \<and> getStep l = Some st \<longrightarrow>
        extent_ok e lb \<and> extent_ok e ub \<and> extent_ok e st \<and>
        eval e lb \<noteq> None \<and> eval e ub \<noteq> None \<and> eval e st \<noteq> None) \<and>
     (\<forall>l\<in>set loops. \<forall>e\<in>E. \<forall>iv lb ub st x y k.
        getInductionVar l = Some iv \<and> getLowerBound l = Some lb \<and> getUpperBound l = Some ub \<and>
        getStep l = Some st \<and> eval e lb = Some x \<and> eval e ub = Some y \<and> eval e st = Some 1 \<and>
        x \<le> k \<and> k < y \<longrightarrow> set_iv e iv k \<in> E)"

definition unit_dim :: "mlir \<Rightarrow> val \<Rightarrow> bool" where
  "unit_dim P dimSize = (arts_tryFoldConstantIndex P 0 (stripNumericCasts dimSize) = Some 1)"

definition covering_iv :: "mlir \<Rightarrow> loop_node list \<Rightarrow> val \<Rightarrow> val \<Rightarrow> val option" where
  "covering_iv P loops index dimSize =
     (if unit_dim P dimSize then None
      else case best_loop (stripNumericCasts index) loops None of
             Some (l, e, d) \<Rightarrow> getInductionVar l
           | None \<Rightarrow> None)"

lemma best_loop_some:
  "best_loop idx loops best = Some (l, x, d) \<Longrightarrow>
     best = Some (l, x, d) \<or> l \<in> set loops \<and> x = analyzeIndexExpr l idx \<and> dependsOnIV x"
  by (induction loops arbitrary: best) (auto simp: Let_def split: if_splits)

lemma expr_eta: "(x :: iv_expr) = \<lparr>dependsOnIV = dependsOnIV x, offset = offset x, multiplier = multiplier x\<rparr>"
  by simp

lemma dims_covered_nth:
  "dims_covered P L loops idxs dims \<Longrightarrow> n < length idxs \<Longrightarrow> n < length dims \<Longrightarrow>
     isIndexFullCoverage P L (idxs ! n) (dims ! n) loops"
proof (induction idxs arbitrary: dims n)
  case (Cons i js)
  then show ?case by (cases dims; cases n) (auto split: if_splits)
qed simp

lemma zero_bound:
  assumes "isProvablyZeroLoopLowerBound P L lb" "extent_ok e lb" "eval e lb = Some x"
  shows "x = 0"
proof -
  have s: "extent_ok e (stripNumericCasts lb)" "eval e (stripNumericCasts lb) = Some x"
    using extent_strip [OF assms(2)] assms(3) by simp_all
  then have "isZeroConstant (stripNumericCasts lb)"
    using assms(1) by (cases "stripNumericCasts lb") (auto simp: isProvablyZeroLoopLowerBound_def extent_ok_def Let_def split: if_splits)
  then show ?thesis using zero_constant_value s by (auto simp: extent_ok_def)
qed

lemma covered_dim:
  assumes cov: "isIndexFullCoverage P L index dimSize loops" and nest: "regular_nest P E loops"
    and unit: "\<not> unit_dim P dimSize"
  obtains l iv where "covering_iv P loops index dimSize = Some iv" "arg_key iv \<noteq> None"
    "\<And>e v. fold_safe e index \<Longrightarrow> type_of index \<noteq> IntTy 1 \<Longrightarrow> eval e index = Some v \<Longrightarrow> eval e iv = Some v"
    "\<And>e x k. e \<in> E \<Longrightarrow> extent_ok e dimSize \<Longrightarrow> eval e dimSize = Some x \<Longrightarrow> 0 \<le> k \<Longrightarrow> k < x \<Longrightarrow> set_iv e iv k \<in> E"
proof -
  let ?i = "stripNumericCasts index"
  obtain l x d where best: "best_loop ?i loops None = Some (l, x, d)" and m: "multiplier x = Some 1" "offset x = Some 0"
    and full: "isLoopFullRange P L l dimSize"
    using cov unit by (auto simp: isIndexFullCoverage_def unit_dim_def Let_def split: if_splits option.splits)
  have l: "l \<in> set loops" and x: "x = analyzeIndexExpr l ?i" "dependsOnIV x"
    using best_loop_some [OF best] by auto
  obtain iv where iv: "getInductionVar l = Some iv"
    using x by (auto simp: analyzeIndexExpr_def split: option.splits)
  obtain lb ub st where b: "getLowerBound l = Some lb" "getUpperBound l = Some ub" "getStep l = Some st"
    and z: "isProvablyZeroLoopLowerBound P L lb" "isOneConstant (stripNumericCasts st)"
      "areEquivalentOwnedSliceExtents P ub dimSize"
    using full by (auto simp: isLoopFullRange_def split: option.splits if_splits)
  have key: "arg_key iv \<noteq> None" using nest l iv unfolding regular_nest_def by blast
  have val: "eval e iv = Some v" if "fold_safe e index" "type_of index \<noteq> IntTy 1" "eval e index = Some v" for e v
  proof -
    have an: "analyzeIndexExpr l ?i = \<lparr>dependsOnIV = True, offset = Some 0, multiplier = Some 1\<rparr>"
      using expr_eta [of x] m x by simp
    have s: "fold_safe e ?i" "eval e ?i = Some v" using strip_safe [of e index] that by simp_all
    obtain y where y: "eval e iv = Some y" "v = wrap64 (1 * y + 0)" using index_expr_value [OF an iv s] by blast
    obtain b n t dd where arg: "iv = BlockArg b n t dd" "width t = 64" using key by (cases iv) (auto split: if_splits)
    then have "in64 y" using y(1) by (auto simp: sgn_at_64)
    then show ?thesis using y by (simp add: wrap64_id)
  qed
  have run: "set_iv e iv k \<in> E" if "e \<in> E" "extent_ok e dimSize" "eval e dimSize = Some n" "0 \<le> k" "k < n" for e n k
  proof -
    have ok: "extent_ok e lb" "extent_ok e ub" "extent_ok e st"
      and "eval e lb \<noteq> None" "eval e ub \<noteq> None" "eval e st \<noteq> None"
      using nest l that(1) b unfolding regular_nest_def by blast+
    then obtain p q s where e: "eval e lb = Some p" "eval e ub = Some q" "eval e st = Some s" by blast
    have svc: "services_sound P e" using nest that(1) unfolding regular_nest_def by blast
    have "p = 0" by (rule zero_bound [OF z(1) ok(1) e(1)])
    moreover have "q = n" by (rule equivalent_extent_value [OF svc z(3) ok(2) that(2) e(2) that(3)])
    moreover have "s = 1"
      using one_constant_eval [OF z(2)] extent_strip [OF ok(3)] e(3) by (auto simp: extent_ok_def)
    ultimately show ?thesis using nest l that(1,4,5) iv b e unfolding regular_nest_def by blast
  qed
  show ?thesis by (rule that [OF _ key val run]) (use best iv unit in \<open>simp_all add: covering_iv_def\<close>)
qed

lemma set_iv_same: "arg_key iv \<noteq> None \<Longrightarrow> in64 k \<Longrightarrow> eval (set_iv e iv k) iv = Some k"
  by (cases iv) (auto simp: sgn_at_64 wrap64_id split: if_splits)

lemma set_iv_other:
  "arg_key iv \<noteq> None \<Longrightarrow> arg_key jv \<noteq> None \<Longrightarrow> arg_key jv \<noteq> arg_key iv \<Longrightarrow>
     eval (set_iv e iv k) jv = eval e jv"
  by (cases iv; cases jv) (auto split: if_splits)

text \<open>
  The store stays within the extents \<open>ns\<close> of the slice, which are the same in every
  environment, and every dimension has its own loop.
\<close>

definition in_slice :: "env set \<Rightarrow> val list \<Rightarrow> val list \<Rightarrow> int list \<Rightarrow> bool" where
  "in_slice E idxs dims ns \<longleftrightarrow>
     length idxs = length dims \<and> length ns = length dims \<and>
     (\<forall>k<length dims. \<forall>e\<in>E. extent_ok e (dims ! k) \<and> eval e (dims ! k) = Some (ns ! k) \<and>
        fold_safe e (idxs ! k) \<and> type_of (idxs ! k) \<noteq> IntTy 1 \<and>
        (\<exists>v. eval e (idxs ! k) = Some v \<and> 0 \<le> v \<and> v < ns ! k))"

definition own_loops :: "mlir \<Rightarrow> loop_node list \<Rightarrow> val list \<Rightarrow> val list \<Rightarrow> bool" where
  "own_loops P loops idxs dims \<longleftrightarrow>
     (\<forall>k<length dims. \<forall>j<k. \<forall>iv jv.
        covering_iv P loops (idxs ! k) (dims ! k) = Some iv \<and> covering_iv P loops (idxs ! j) (dims ! j) = Some jv
        \<longrightarrow> arg_key iv \<noteq> arg_key jv)"

lemma unit_extent:
  assumes "regular_nest P E loops" "e \<in> E" "unit_dim P v" "extent_ok e v" "eval e v = Some n"
  shows "n = 1"
proof -
  have "services_sound P e" "configured P e" using assms(1,2) by (auto simp: regular_nest_def)
  then show ?thesis
    using arts_fold_value [of P e "stripNumericCasts v" 0 1 n] extent_strip [OF assms(4)] assms(3,5)
    by (auto simp: unit_dim_def extent_ok_def)
qed

lemma nest_reaches:
  assumes nest: "regular_nest P E loops" and cov: "dims_covered P L loops idxs dims"
    and sl: "in_slice E idxs dims ns" and own: "own_loops P loops idxs dims"
    and xs: "length xs = length dims" "\<And>k. k < length dims \<Longrightarrow> 0 \<le> xs ! k \<and> xs ! k < ns ! k"
    and e: "e \<in> E" and n: "n \<le> length dims"
  shows "\<exists>f\<in>E. \<forall>k<n. \<forall>iv. covering_iv P loops (idxs ! k) (dims ! k) = Some iv \<longrightarrow> eval f iv = Some (xs ! k)"
  using n
proof (induction n)
  case 0
  then show ?case using e by blast
next
  case (Suc n)
  then obtain f where f: "f \<in> E"
    "\<forall>k<n. \<forall>iv. covering_iv P loops (idxs ! k) (dims ! k) = Some iv \<longrightarrow> eval f iv = Some (xs ! k)" by auto
  have len: "n < length dims" "length idxs = length dims" using Suc.prems sl by (auto simp: in_slice_def)
  have cn: "isIndexFullCoverage P L (idxs ! n) (dims ! n) loops"
    using dims_covered_nth [OF cov, of n] len by simp
  show ?case
  proof (cases "unit_dim P (dims ! n)")
    case True
    then have "covering_iv P loops (idxs ! n) (dims ! n) = None" by (simp add: covering_iv_def)
    then show ?thesis using f by (intro bexI [of _ f]) (auto simp: less_Suc_eq)
  next
    case False
    from covered_dim [OF cn nest False] obtain iv where
      iv: "covering_iv P loops (idxs ! n) (dims ! n) = Some iv" "arg_key iv \<noteq> None"
      and run: "\<And>e x k. e \<in> E \<Longrightarrow> extent_ok e (dims ! n) \<Longrightarrow> eval e (dims ! n) = Some x \<Longrightarrow> 0 \<le> k \<Longrightarrow> k < x
         \<Longrightarrow> set_iv e iv k \<in> E" by metis
    have ext: "extent_ok f (dims ! n)" "eval f (dims ! n) = Some (ns ! n)"
      using sl f(1) len unfolding in_slice_def by blast+
    let ?g = "set_iv f iv (xs ! n)"
    have g: "?g \<in> E" using run [OF f(1) ext] xs(2) [OF len(1)] by blast
    have "in64 (ns ! n)" using eval_in64 ext by (auto simp: extent_ok_def)
    then have same: "eval ?g iv = Some (xs ! n)"
      using set_iv_same [OF iv(2), of "xs ! n" f] xs(2) [OF len(1)] by (simp add: in64_def)
    have "eval ?g jv = Some (xs ! k)" if k: "k < n" "covering_iv P loops (idxs ! k) (dims ! k) = Some jv" for k jv
    proof -
      have "arg_key iv \<noteq> arg_key jv" using own len(1) k iv(1) unfolding own_loops_def by blast
      moreover have "arg_key jv \<noteq> None"
      proof -
        have "\<not> unit_dim P (dims ! k)" using k(2) by (auto simp: covering_iv_def)
        from covered_dim [OF dims_covered_nth [OF cov, of k] nest this] show ?thesis
          using k len by (metis option.sel less_trans)
      qed
      ultimately show ?thesis using set_iv_other [OF iv(2)] f(2) k by metis
    qed
    then show ?thesis using g same iv(1) by (intro bexI [of _ ?g]) (auto simp: less_Suc_eq)
  qed
qed

lemma slice_covered:
  assumes nest: "regular_nest P E loops" and cov: "dims_covered P L loops idxs dims"
    and sl: "in_slice E idxs dims ns" and own: "own_loops P loops idxs dims"
    and xs: "length xs = length dims" "\<And>k. k < length dims \<Longrightarrow> 0 \<le> xs ! k \<and> xs ! k < ns ! k"
    and e: "e \<in> E"
  shows "\<exists>f\<in>E. \<forall>k<length dims. eval f (idxs ! k) = Some (xs ! k)"
proof -
  from nest_reaches [OF nest cov sl own xs e order_refl] obtain f where f: "f \<in> E"
    "\<forall>k<length dims. \<forall>iv. covering_iv P loops (idxs ! k) (dims ! k) = Some iv \<longrightarrow> eval f iv = Some (xs ! k)"
    by blast
  have "eval f (idxs ! k) = Some (xs ! k)" if k: "k < length dims" for k
  proof -
    have len: "length idxs = length dims" using sl by (simp add: in_slice_def)
    obtain v where v: "eval f (idxs ! k) = Some v" "0 \<le> v" "v < ns ! k" "fold_safe f (idxs ! k)"
      "type_of (idxs ! k) \<noteq> IntTy 1" "extent_ok f (dims ! k)" "eval f (dims ! k) = Some (ns ! k)"
      using sl f(1) k unfolding in_slice_def by blast
    show ?thesis
    proof (cases "unit_dim P (dims ! k)")
      case True
      then have "ns ! k = 1" using unit_extent [OF nest f(1) True v(6,7)] by simp
      then show ?thesis using v xs(2) [OF k] by auto
    next
      case False
      have cn: "isIndexFullCoverage P L (idxs ! k) (dims ! k) loops" using dims_covered_nth [OF cov, of k] len k by simp
      from covered_dim [OF cn nest False] obtain iv where
        "covering_iv P loops (idxs ! k) (dims ! k) = Some iv"
        "\<And>e v. fold_safe e (idxs ! k) \<Longrightarrow> type_of (idxs ! k) \<noteq> IntTy 1 \<Longrightarrow> eval e (idxs ! k) = Some v \<Longrightarrow> eval e iv = Some v"
        by metis
      then show ?thesis using f(2) k v by force
    qed
  qed
  then show ?thesis using f(1) by blast
qed

section \<open>What a full write and covered loads are\<close>

text \<open>
  A dimension is run through by an index when its extent is one, or when the index is the
  induction variable of one of the task's loops that starts at zero, steps by one and ends
  at the extent.
\<close>

definition runs_through :: "mlir \<Rightarrow> loop_env \<Rightarrow> loop_node list \<Rightarrow> val \<Rightarrow> val \<Rightarrow> bool" where
  "runs_through P L loops index dimSize \<longleftrightarrow>
     arts_tryFoldConstantIndex P 0 (stripNumericCasts dimSize) = Some 1 \<or>
     (\<exists>l\<in>set loops. analyzeIndexExpr l (stripNumericCasts index) = scaled (Some 1) (Some 0) \<and>
        (\<exists>lb ub st. getLowerBound l = Some lb \<and> getUpperBound l = Some ub \<and> getStep l = Some st \<and>
           isProvablyZeroLoopLowerBound P L lb \<and> isOneConstant (stripNumericCasts st) \<and>
           areEquivalentOwnedSliceExtents P ub dimSize))"

text \<open>
  Every plain store of the task has one index for each dimension of its slice, and each
  index runs through its dimension.
\<close>

definition stores_run_through :: "mode_context \<Rightarrow> acquire_info \<Rightarrow> val list \<Rightarrow> bool" where
  "stores_run_through X a dims \<longleftrightarrow>
     (\<forall>r\<in>set (ref_uses a). \<forall>m\<in>set (ref_ops r). op_kind m = MemStore \<longrightarrow>
        (let idxs = drop (length (ref_indices r)) (collectFullIndexChain (subview_offsets X) r m)
         in length idxs = length dims \<and>
            (\<forall>k<length dims. runs_through (services X) (body_loops X) (edt_loops a) (idxs ! k) (dims ! k))))"

text \<open>Two index chains that name the same element wherever their values are known.\<close>

definition same_element :: "mlir \<Rightarrow> val list \<Rightarrow> val list \<Rightarrow> bool" where
  "same_element P xs ys \<longleftrightarrow> length xs = length ys \<and>
     (\<forall>k<length xs. \<forall>e x y. services_sound P e \<and> fold_safe e (xs ! k) \<and> fold_safe e (ys ! k) \<and>
        type_of (xs ! k) \<noteq> IntTy 1 \<and> type_of (ys ! k) \<noteq> IntTy 1 \<and>
        eval e (xs ! k) = Some x \<and> eval e (ys ! k) = Some y \<longrightarrow> x = y)"

text \<open>Every plain or affine load is dominated by a plain or affine store to its element.\<close>

definition loads_follow_stores :: "mode_context \<Rightarrow> acquire_info \<Rightarrow> bool" where
  "loads_follow_stores X a \<longleftrightarrow>
     (\<forall>r\<in>set (ref_uses a). \<forall>m\<in>set (ref_ops r).
        op_kind m \<in> {MemLoad, AffineLoad} \<and> collectFullIndexChain (subview_offsets X) r m \<noteq> [] \<longrightarrow>
        (\<exists>q\<in>set (ref_uses a). \<exists>s\<in>set (ref_ops q). op_kind s \<in> {MemStore, AffineStore} \<and>
           op_dominates X (mem_id s) (mem_id m) \<and> sameValue (services X) (ref_source q) (ref_source r) \<and>
           same_element (services X) (collectFullIndexChain (subview_offsets X) q s)
             (collectFullIndexChain (subview_offsets X) r m)))"

lemma coverage_runs_through:
  assumes "isIndexFullCoverage P L index dimSize loops"
  shows "runs_through P L loops index dimSize"
proof (cases "arts_tryFoldConstantIndex P 0 (stripNumericCasts dimSize) = Some 1")
  case False
  let ?i = "stripNumericCasts index"
  obtain l x d where best: "best_loop ?i loops None = Some (l, x, d)" and m: "multiplier x = Some 1" "offset x = Some 0"
    and full: "isLoopFullRange P L l dimSize"
    using assms False by (auto simp: isIndexFullCoverage_def Let_def split: if_splits option.splits)
  have l: "l \<in> set loops" and x: "x = analyzeIndexExpr l ?i" "dependsOnIV x"
    using best_loop_some [OF best] by auto
  have "analyzeIndexExpr l ?i = scaled (Some 1) (Some 0)"
    using expr_eta [of x] m x by (simp add: scaled_def)
  moreover obtain lb ub st where "getLowerBound l = Some lb" "getUpperBound l = Some ub" "getStep l = Some st"
    "isProvablyZeroLoopLowerBound P L lb" "isOneConstant (stripNumericCasts st)"
    "areEquivalentOwnedSliceExtents P ub dimSize"
    using full by (auto simp: isLoopFullRange_def split: option.splits if_splits)
  ultimately show ?thesis using l unfolding runs_through_def by blast
qed (simp add: runs_through_def)

lemma full_write_stores:
  assumes "full_write X a (Some sizes)" "hasStores a" "edt_user a \<noteq> None"
    and "getEffectiveSliceDimSizes a sizes \<noteq> []"
  shows "stores_run_through X a (getEffectiveSliceDimSizes a sizes)"
  unfolding stores_run_through_def Let_def
proof (intro ballI impI)
  fix r m assume r: "r \<in> set (ref_uses a)" and m: "m \<in> set (ref_ops r)" "op_kind m = MemStore"
  let ?dims = "getEffectiveSliceDimSizes a sizes"
  let ?idxs = "drop (length (ref_indices r)) (collectFullIndexChain (subview_offsets X) r m)"
  have "ref_uses a \<noteq> []" using r by auto
  then have "store_covers (services X) (body_loops X) (subview_offsets X) (edt_loops a) ?dims r m"
    using assms r m by (auto simp: full_write_def writesFullAllocation_def Let_def list_all_iff split: if_splits)
  then have c: "dims_covered (services X) (body_loops X) (edt_loops a) ?idxs ?dims" "length ?idxs = length ?dims"
    using m(2) by (auto simp: store_covers_def Let_def split: if_splits)
  show "length ?idxs = length ?dims \<and>
      (\<forall>k<length ?dims. runs_through (services X) (body_loops X) (edt_loops a) (?idxs ! k) (?dims ! k))"
    using c coverage_runs_through [OF dims_covered_nth [OF c(1)]] by simp
qed

lemma site_of:
  "(i, s, xs) \<in> set (sites so kinds a) \<longleftrightarrow>
     (\<exists>r\<in>set (ref_uses a). \<exists>m\<in>set (ref_ops r). op_kind m \<in> kinds \<and> mem_id m = i \<and>
        getMemAccessSite so r m = Some (s, xs))"
proof -
  have filtered: "y \<in> set (List.map_filter f ms) \<longleftrightarrow> (\<exists>m\<in>set ms. f m = Some y)" for y :: "nat \<times> val \<times> val list" and f ms
    by (induction ms) (auto split: option.splits)
  have one: "(if op_kind m \<in> kinds
       then (case getMemAccessSite so r m of None \<Rightarrow> None | Some s \<Rightarrow> Some (mem_id m, s)) else None) = Some (i, s, xs) \<longleftrightarrow>
     op_kind m \<in> kinds \<and> mem_id m = i \<and> getMemAccessSite so r m = Some (s, xs)" for r m
    by (cases "getMemAccessSite so r m") auto
  show ?thesis unfolding sites_def set_concat set_map UN_iff image_iff bex_simps filtered one by blast
qed

lemma access_site:
  "getMemAccessSite so r m = Some (s, xs) \<longleftrightarrow>
     op_kind m \<in> {MemLoad, MemStore, AffineLoad, AffineStore} \<and> s = ref_source r \<and>
     xs = collectFullIndexChain so r m \<and> xs \<noteq> []"
  by (auto simp: getMemAccessSite_def Let_def)

lemma same_site:
  assumes "sameMemAccessSite P (s, xs) (t, ys)"
  shows "sameValue P s t" and "same_element P xs ys"
proof -
  have l: "sameValue P s t" "length xs = length ys" "list_all (\<lambda>(x, y). sameValue P x y) (zip xs ys)"
    using assms by (auto simp: sameMemAccessSite_def split: if_splits)
  have "sameValue P (xs ! k) (ys ! k)" if "k < length xs" for k
    using l that by (auto simp: list_all_length)
  then show "same_element P xs ys" using l(2) sameValue_value unfolding same_element_def by blast
  show "sameValue P s t" by (rule l)
qed

lemma covered_loads_follow:
  assumes "covered_loads X a"
  shows "loads_follow_stores X a"
  unfolding loads_follow_stores_def
proof (intro ballI impI, elim conjE)
  fix r m
  assume r: "r \<in> set (ref_uses a)" "m \<in> set (ref_ops r)" "op_kind m \<in> {MemLoad, AffineLoad}"
    and c: "collectFullIndexChain (subview_offsets X) r m \<noteq> []"
  let ?so = "subview_offsets X"
  have "getMemAccessSite ?so r m = Some (ref_source r, collectFullIndexChain ?so r m)"
    using r(3) c access_site by fastforce
  then have l: "(mem_id m, ref_source r, collectFullIndexChain ?so r m) \<in> set (sites ?so {MemLoad, AffineLoad} a)"
    using r site_of by blast
  have "\<forall>x\<in>set (sites ?so {MemLoad, AffineLoad} a). case x of (l, loadSite) \<Rightarrow>
      list_ex (\<lambda>(s, storeSite). op_dominates X s l \<and> sameMemAccessSite (services X) storeSite loadSite)
        (sites ?so {MemStore, AffineStore} a)"
    using assms by (auto simp: covered_loads_def loadsAreSatisfiedByDominatingStores_def Let_def list_all_iff
        split: if_splits)
  then have "list_ex (\<lambda>(s, storeSite). op_dominates X s (mem_id m) \<and>
       sameMemAccessSite (services X) storeSite (ref_source r, collectFullIndexChain ?so r m))
      (sites ?so {MemStore, AffineStore} a)" using l by fast
  then obtain i s xs where s: "(i, s, xs) \<in> set (sites ?so {MemStore, AffineStore} a)" "op_dominates X i (mem_id m)"
    "sameMemAccessSite (services X) (s, xs) (ref_source r, collectFullIndexChain ?so r m)"
    unfolding list_ex_iff by auto
  obtain q w where q: "q \<in> set (ref_uses a)" "w \<in> set (ref_ops q)" "op_kind w \<in> {MemStore, AffineStore}"
    "mem_id w = i" "s = ref_source q" "xs = collectFullIndexChain ?so q w"
    using s(1) unfolding site_of access_site by blast
  show "\<exists>q\<in>set (ref_uses a). \<exists>s\<in>set (ref_ops q). op_kind s \<in> {MemStore, AffineStore} \<and>
      op_dominates X (mem_id s) (mem_id m) \<and> sameValue (services X) (ref_source q) (ref_source r) \<and>
      same_element (services X) (collectFullIndexChain ?so q s) (collectFullIndexChain ?so r m)"
    using q s(2) same_site [OF s(3)] by blast
qed

section \<open>Properties\<close>


definition plain_context :: mode_context where
  "plain_context = \<lparr>services = no_services, body_loops = (\<lambda>b. None), subview_offsets = (\<lambda>i. []),
     op_dominates = (\<lambda>s l. s < l),
     op_attrs = \<lparr>alloc_attr = (\<lambda>i. undefined), acquire_attr = (\<lambda>i. undefined)\<rparr>,
     contract_ops = (\<lambda>v. []), semantic = (\<lambda>v. None), forceInout = False\<rparr>"

definition sample_ref :: "mem_op list \<Rightarrow> ref_use" where
  "sample_ref ops = \<lparr>ref_source = BlockArg 9 0 (MemRefTy [None] (MemRefTy [None, None] IndexTy)) None,
     ref_indices = [index_const 90 0], ref_result = BlockArg 9 1 (MemRefTy [None, None] IndexTy) None,
     ref_ops = ops\<rparr>"

definition access :: "nat \<Rightarrow> mem_kind \<Rightarrow> val list \<Rightarrow> mem_op" where
  "access i k idxs = \<lparr>mem_id = i, op_kind = k,
     accessed = BlockArg 9 1 (MemRefTy [None, None] IndexTy) None, mem_indices = idxs\<rparr>"

definition iv_arg :: "nat \<Rightarrow> val" where
  "iv_arg b = BlockArg b 0 IndexTy None"

definition counted_loop :: "nat \<Rightarrow> int \<Rightarrow> loop_node" where
  "counted_loop b n = \<lparr>getInductionVar = Some (iv_arg b), getLowerBound = Some (index_const 91 0),
     getUpperBound = Some (index_const 92 n), getStep = Some (index_const 93 1), getNestingDepth = int b\<rparr>"

definition sample_acquire_info :: "arts_mode \<Rightarrow> mem_op list \<Rightarrow> acquire_info" where
  "sample_acquire_info m ops = \<lparr>acq_mode = m, preserveAccessMode = False, edt_user = Some 1,
     ref_uses = [sample_ref ops], edt_loops = [counted_loop 1 4, counted_loop 2 3], partitionDims = [],
     partitionSizes = [], partitionMode = None, acq_ptr = BlockArg 9 2 (MemRefTy [None] IndexTy) None,
     acq_source = BlockArg 9 3 (MemRefTy [None] IndexTy) None, acq_order = 0, acq_parents = [],
     hasDistribution = False\<rparr>"

definition box_sizes :: "val list" where
  "box_sizes = [index_const 94 4, index_const 95 3]"

definition full_store :: acquire_info where
  "full_store = sample_acquire_info ModeInout [access 5 MemStore [iv_arg 1, iv_arg 2]]"


text \<open>
  C5: Allocation modes and storage after the pass. The mode of an allocation with
  acquires is the least mode that allows reading and every (tightened) acquire of its
  tree; its datablock mode is \<open>read\<close> exactly when no acquire writes. It is marked
  read-only-after-init exactly when it has one writing acquire and that one is outside
  repeatable control, whatever the program order, and local-only exactly when neither
  the allocation nor any acquire is distributed.
\<close>

theorem allocation_modes:
  assumes "k < length nodes" "acquires_of (nodes ! k) \<noteq> []"
    and "\<not> readOnlyAfterInit (nodes ! k)" "\<not> alloc_localOnly (nodes ! k)"
    and "n = DbModeTighteningPass X nodes ! k"
  shows "all_acquires n = map (\<lambda>a. a\<lparr>acq_mode := adjusted_mode X (Some (elementSizes (nodes ! k))) a\<rparr>)
      (all_acquires (nodes ! k)) \<and>
    (\<forall>a\<in>set (all_acquires n). acq_mode a \<le> alloc_mode n) \<and> ModeIn \<le> alloc_mode n \<and>
    (\<forall>b. ModeIn \<le> b \<and> (\<forall>a\<in>set (all_acquires n). acq_mode a \<le> b) \<longrightarrow> alloc_mode n \<le> b) \<and>
    (alloc_dbMode n = DbRead \<longleftrightarrow> writers n = []) \<and>
    (readOnlyAfterInit n \<longleftrightarrow> (\<exists>w. writers n = [w] \<and> \<not> isInsideRepeatableControl w)) \<and>
    (alloc_localOnly n \<longleftrightarrow>
       \<not> distributedAlloc (nodes ! k) \<and> \<not> list_ex hasDistribution (all_acquires (nodes ! k)))"
proof -
  let ?s = "Some (elementSizes (nodes ! k))"
  let ?m = "(nodes ! k)\<lparr>acquires_of := map (adjust_tree X ?s) (acquires_of (nodes ! k))\<rparr>"
  let ?a = "adjust_alloc_mode ?m"
  have n: "n = infer_storage ?a"
    using assms(1,5) by (simp add: DbModeTighteningPass_def inferDbStorageTypes_def adjustDbModes_def)
  have ne: "acquires_of ?m \<noteq> []" using assms(2) by simp
  note mode = adjusted_alloc [OF ne]
  have all: "all_acquires n = all_acquires ?m" "all_acquires ?a = all_acquires ?m"
    by (simp_all add: n all_acquires_def storage_keeps mode(3))
  have "map (tree_infos \<circ> adjust_tree X ?s) ts =
      map (map (\<lambda>a. a\<lparr>acq_mode := adjusted_mode X ?s a\<rparr>)) (map tree_infos ts)" for ts
    by (simp add: tree_infos_adjust)
  note maps = arg_cong [where f = concat, OF this]
  have acq: "all_acquires ?m = map (\<lambda>a. a\<lparr>acq_mode := adjusted_mode X ?s a\<rparr>) (all_acquires (nodes ! k))"
    unfolding all_acquires_def map_concat map_map
    using maps [of "acquires_of (nodes ! k)", unfolded map_map] by simp
  have am: "alloc_mode n = fold sup (map acq_mode (all_acquires n)) ModeIn"
    using mode(1) by (simp add: n storage_keeps all_acquires_def mode(3))
  have up: "\<forall>a\<in>set (all_acquires n). acq_mode a \<le> alloc_mode n" "ModeIn \<le> alloc_mode n"
    unfolding am using fold_sup_upper by auto
  have least: "\<forall>b. ModeIn \<le> b \<and> (\<forall>a\<in>set (all_acquires n). acq_mode a \<le> b) \<longrightarrow> alloc_mode n \<le> b"
    unfolding am by (intro allI impI, rule fold_sup_least) auto
  have "alloc_dbMode n = DbRead \<longleftrightarrow> alloc_mode n = ModeIn"
    using mode(2) by (simp add: n storage_keeps convertArtsModeToDbMode_def)
  also have "\<dots> \<longleftrightarrow> (\<forall>a\<in>set (all_acquires n). acq_mode a \<le> ModeIn)"
    using up least by (metis order.antisym order.refl)
  also have "\<dots> \<longleftrightarrow> writers n = []"
  proof -
    have "m \<le> ModeIn \<longleftrightarrow> \<not> isWriterMode m" for m
      by (cases m) (simp_all add: less_eq_arts_mode_def isWriterMode_def)
    then show ?thesis by (simp add: writers_def filter_empty_conv)
  qed
  finally have db: "alloc_dbMode n = DbRead \<longleftrightarrow> writers n = []" .
  have keep: "\<not> readOnlyAfterInit ?a" "\<not> alloc_localOnly ?a" "distributedAlloc ?a = distributedAlloc (nodes ! k)"
    using assms(3,4) by (simp_all add: adjust_alloc_mode_def Let_def)
  have "writers n = writers ?a" by (simp add: writers_def all)
  then have ro: "readOnlyAfterInit n \<longleftrightarrow> (\<exists>w. writers n = [w] \<and> \<not> isInsideRepeatableControl w)"
    using read_only_after_init [OF keep(1)] n by simp
  have "list_ex hasDistribution (all_acquires ?m) = list_ex hasDistribution (all_acquires (nodes ! k))"
    by (simp add: acq list_ex_iff)
  then have lo: "alloc_localOnly n \<longleftrightarrow>
      \<not> distributedAlloc (nodes ! k) \<and> \<not> list_ex hasDistribution (all_acquires (nodes ! k))"
    using local_only [OF keep(2)] n keep(3) all(2) by simp
  show ?thesis
    by (intro conjI) (rule trans [OF all(1) acq], (rule up least db ro lo)+)
qed

definition sample_node_of :: "acquire_tree list \<Rightarrow> alloc_node" where
  "sample_node_of ts = \<lparr>elementSizes = box_sizes, alloc_mode = ModeInout, alloc_dbMode = DbWrite,
     distributedAlloc = False, alloc_localOnly = False, readOnlyAfterInit = False, acquires_of = ts\<rparr>"

definition full_load :: acquire_info where
  "full_load = sample_acquire_info ModeInout [access 6 MemLoad [iv_arg 1, iv_arg 2]]"

lemma allocation_modes_witness:
  "let n = DbModeTighteningPass plain_context [sample_node_of [Acq full_store [Acq full_load []]]] ! 0
   in readOnlyAfterInit n \<and> alloc_localOnly n \<and> alloc_dbMode n = DbWrite \<and> ModeOut \<le> alloc_mode n"
proof -
  let ?ns = "[sample_node_of [Acq full_store [Acq full_load []]]]"
  let ?n = "DbModeTighteningPass plain_context ?ns ! 0"
  have h: "0 < length ?ns" "acquires_of (?ns ! 0) \<noteq> []" "\<not> readOnlyAfterInit (?ns ! 0)" "\<not> alloc_localOnly (?ns ! 0)"
    by (simp_all add: sample_node_of_def)
  note P = allocation_modes [OF h refl, of plain_context]
  have "all_acquires ?n = map (\<lambda>a. a\<lparr>acq_mode := adjusted_mode plain_context (Some (elementSizes (?ns ! 0))) a\<rparr>)
      (all_acquires (?ns ! 0))" using P by blast
  also have "\<dots> = [full_store\<lparr>acq_mode := ModeOut\<rparr>, full_load\<lparr>acq_mode := ModeIn\<rparr>]"
  proof -
    have "adjusted_mode plain_context (Some box_sizes) full_store = ModeOut"
      "adjusted_mode plain_context (Some box_sizes) full_load = ModeIn" by code_simp+
    then show ?thesis by (simp add: all_acquires_def sample_node_of_def)
  qed
  finally have acq: "all_acquires ?n = [full_store\<lparr>acq_mode := ModeOut\<rparr>, full_load\<lparr>acq_mode := ModeIn\<rparr>]" .
  have "writers ?n = [full_store\<lparr>acq_mode := ModeOut\<rparr>]"
    by (simp add: writers_def acq isWriterMode_def)
  moreover have "\<not> isInsideRepeatableControl (full_store\<lparr>acq_mode := ModeOut\<rparr>)" by code_simp
  moreover have "\<not> distributedAlloc (?ns ! 0)" "\<not> list_ex hasDistribution (all_acquires (?ns ! 0))" by code_simp+
  moreover have "ModeOut \<le> alloc_mode ?n" using P acq by simp
  ultimately show ?thesis using P by (cases "alloc_dbMode ?n") auto
qed

text \<open>
  C4: A full write covers the slice. When \<open>writesFullAllocation\<close> accepts the stores of an
  acquire, then every plain store of it writes every element of the acquired slice: for each
  index within the extents some iteration stores exactly there. This is for an unguarded nest
  that runs every combination of its 64-bit induction variables, with a loop of its own for
  each dimension, and for bounds, steps and extents that are arithmetic on arguments and
  integer constants with casts that lose nothing, without any select and without an unsigned
  maximum, so that no clamp is stripped from them: with a clamped bound the statement is
  false. The store stays within the extents, its indices lose nothing in their casts and
  are not \<open>i1\<close>, the extents do not change during the nest, and the bounds solver answers
  correctly.
\<close>

theorem full_write_covers_slice:
  assumes "writesFullAllocation P L so a sizes" "hasStores a" "edt_user a \<noteq> None"
    and "r \<in> set (ref_uses a)" "m \<in> set (ref_ops r)" "op_kind m = MemStore"
    and "dims = getEffectiveSliceDimSizes a sizes" "dims \<noteq> []"
    and "idxs = drop (length (ref_indices r)) (collectFullIndexChain so r m)"
    and "regular_nest P E (edt_loops a)" "in_slice E idxs dims ns" "own_loops P (edt_loops a) idxs dims" "e \<in> E"
    and "length xs = length dims" "\<forall>k<length dims. 0 \<le> xs ! k \<and> xs ! k < ns ! k"
  shows "\<exists>f\<in>E. \<forall>k<length dims. eval f (idxs ! k) = Some (xs ! k)"
proof -
  have "ref_uses a \<noteq> []" using assms(4) by auto
  then have "store_covers P L so (edt_loops a) dims r m"
    using assms(1-8) by (auto simp: writesFullAllocation_def Let_def list_all_iff split: if_splits)
  then have "dims_covered P L (edt_loops a) idxs dims"
    using assms(6,9) by (auto simp: store_covers_def Let_def split: if_splits)
  from slice_covered [OF assms(10) this assms(11,12,14) _ assms(13)] assms(15) show ?thesis by blast
qed

text \<open>The nest \<open>for i < 4, for j < 3\<close> with the store at \<open>[i][j]\<close>.\<close>

definition box_run :: "int \<Rightarrow> int \<Rightarrow> env" where
  "box_run i j = (with_module no_services no_env)
     \<lparr>arg_val := (\<lambda>b n. if b = 1 \<and> n = 0 then i else if b = 2 \<and> n = 0 then j else 0)\<rparr>"

definition box_runs :: "env set" where
  "box_runs = {box_run i j | i j. 0 \<le> i \<and> i < 4 \<and> 0 \<le> j \<and> j < 3}"

lemma box_run_eval:
  "eval (box_run i j) (iv_arg 1) = Some (wrap64 i)" "eval (box_run i j) (iv_arg 2) = Some (wrap64 j)"
  by (simp_all add: box_run_def iv_arg_def)

lemma box_run_set:
  "set_iv (box_run i j) (iv_arg 1) k = box_run k j" "set_iv (box_run i j) (iv_arg 2) k = box_run i k"
  by (auto simp: box_run_def iv_arg_def fun_eq_iff intro!: arg_cong [where f = "\<lambda>g. arg_val_update (\<lambda>_. g) _"])

lemma const_extent:
  "in64 c \<Longrightarrow> extent_ok e (index_const i c)" "in64 c \<Longrightarrow> eval e (index_const i c) = Some c"
  by (simp_all add: extent_ok_def width_ok_def attr_ok_def wrap64_id)

lemma box_regular: "regular_nest no_services box_runs [counted_loop 1 4, counted_loop 2 3]"
proof -
  have svc: "services_sound no_services e \<and> configured no_services e" if e: "e \<in> box_runs" for e
    using e
    by (auto simp: box_runs_def box_run_def services_sound_def configured_def no_services_def no_env_def
        with_module_def fun_eq_iff split: query_kind.splits)
  have r: "in64 0" "in64 1" "in64 3" "in64 4" by (simp_all add: in64_def)
  have step: "set_iv e (iv_arg 1) k \<in> box_runs" if "e \<in> box_runs" "0 \<le> k" "k < 4" for e k
    using that box_run_set unfolding box_runs_def by blast
  have step': "set_iv e (iv_arg 2) k \<in> box_runs" if "e \<in> box_runs" "0 \<le> k" "k < 3" for e k
    using that box_run_set unfolding box_runs_def by blast
  show ?thesis
    unfolding regular_nest_def using svc step step'
    by (simp add: counted_loop_def const_extent [OF r(1)] const_extent [OF r(2)] const_extent [OF r(3)]
        const_extent [OF r(4)] del: eval.simps One_nat_def) (simp add: iv_arg_def)
qed

lemma box_slice: "in_slice box_runs [iv_arg 1, iv_arg 2] box_sizes [4, 3]"
proof -
  have r: "in64 3" "in64 4" by (simp_all add: in64_def)
  have w: "wrap64 i = i" if "0 \<le> i" "i < 4" for i :: int
    using that by (intro wrap64_id) (simp add: in64_def)
  have "extent_ok e (box_sizes ! k) \<and> eval e (box_sizes ! k) = Some ([4, 3] ! k) \<and>
      fold_safe e ([iv_arg 1, iv_arg 2] ! k) \<and> type_of ([iv_arg 1, iv_arg 2] ! k) \<noteq> IntTy 1 \<and>
      (\<exists>v. eval e ([iv_arg 1, iv_arg 2] ! k) = Some v \<and> 0 \<le> v \<and> v < [4, 3] ! k)"
    if k: "k < 2" and e: "e \<in> box_runs" for e k
  proof -
    obtain i j where e: "e = box_run i j" "0 \<le> i" "i < 4" "0 \<le> j" "j < 3" using e by (auto simp: box_runs_def)
    have "k = 0 \<or> k = 1" using k by auto
    then show ?thesis
    proof
      assume "k = 0"
      then show ?thesis using const_extent [OF r(2)] box_run_eval(1) [of i j] w [of i] e
        by (simp add: box_sizes_def del: eval.simps) (simp add: iv_arg_def width_ok_def)
    next
      assume "k = 1"
      then show ?thesis using const_extent [OF r(1)] box_run_eval(2) [of i j] w [of j] e
        by (simp add: box_sizes_def del: eval.simps) (simp add: iv_arg_def width_ok_def)
    qed
  qed
  then show ?thesis by (simp add: in_slice_def box_sizes_def)
qed

lemma full_write_covers_slice_witness:
  "writesFullAllocation no_services (\<lambda>b. None) (\<lambda>i. []) full_store box_sizes \<and>
   (\<exists>f\<in>box_runs. eval f (iv_arg 1) = Some 3 \<and> eval f (iv_arg 2) = Some 2)"
proof -
  let ?m = "access 5 MemStore [iv_arg 1, iv_arg 2]" and ?r = "sample_ref [access 5 MemStore [iv_arg 1, iv_arg 2]]"
  have w: "writesFullAllocation no_services (\<lambda>b. None) (\<lambda>i. []) full_store box_sizes" by code_simp
  have s: "hasStores full_store" "edt_user full_store \<noteq> None" by code_simp+
  have r: "?r \<in> set (ref_uses full_store)" "?m \<in> set (ref_ops ?r)" "op_kind ?m = MemStore"
    by (simp_all add: full_store_def sample_acquire_info_def sample_ref_def access_def)
  have d: "box_sizes = getEffectiveSliceDimSizes full_store box_sizes" "box_sizes \<noteq> []" by code_simp+
  have i: "[iv_arg 1, iv_arg 2] = drop (length (ref_indices ?r)) (collectFullIndexChain (\<lambda>i. []) ?r ?m)"
    by code_simp
  have n: "regular_nest no_services box_runs (edt_loops full_store)"
    using box_regular by (simp add: full_store_def sample_acquire_info_def)
  have "covering_iv no_services (edt_loops full_store) (iv_arg 1) (index_const 94 4) = Some (iv_arg 1)"
    "covering_iv no_services (edt_loops full_store) (iv_arg 2) (index_const 95 3) = Some (iv_arg 2)"
    by code_simp+
  then have o: "own_loops no_services (edt_loops full_store) [iv_arg 1, iv_arg 2] box_sizes"
    by (simp add: own_loops_def box_sizes_def less_Suc_eq iv_arg_def)
  have e: "box_run 0 0 \<in> box_runs" unfolding box_runs_def by force
  have x: "length [3, 2 :: int] = length box_sizes"
    "\<forall>k<length box_sizes. 0 \<le> [3, 2 :: int] ! k \<and> [3, 2] ! k < [4, 3 :: int] ! k"
    by (simp_all add: box_sizes_def less_Suc_eq)
  obtain f where f: "f \<in> box_runs" "\<forall>k<length box_sizes. eval f ([iv_arg 1, iv_arg 2] ! k) = Some ([3, 2] ! k)"
    using full_write_covers_slice [OF w s r d i n box_slice o e x] by blast
  have "eval f (iv_arg 1) = Some 3" "eval f (iv_arg 2) = Some 2"
    using f(2) [rule_format, of 0] f(2) [rule_format, of 1] by (simp_all add: box_sizes_def)
  then show ?thesis using w f(1) by blast
qed

section \<open>Where tightening goes wrong\<close>

text \<open>Affine stores are skipped by the full-write test, so a single element counts as a full write.\<close>

lemma affine_store_counts_as_full:
  "let a = sample_acquire_info ModeInout [access 5 AffineStore [index_const 7 0, index_const 8 0]]
   in adjusted_mode plain_context (Some box_sizes) a = ModeOut"
  by code_simp

text \<open>
  Every dimension is tested alone: a store to the diagonal, with one loop for both
  dimensions, counts as writing the whole square.
\<close>

lemma diagonal_store_counts_as_full:
  "let a = sample_acquire_info ModeInout [access 5 MemStore [iv_arg 1, iv_arg 1]]
   in adjusted_mode plain_context (Some [index_const 94 4, index_const 95 4]) a = ModeOut"
  by code_simp

text \<open>
  Dynamic loads are loads, but not among those that must be dominated by a store: here
  element 0 is stored and reloaded, element 1 is read by a dynamic load without a store.
\<close>

lemma dynamic_load_not_checked:
  "let z = index_const 7 0; u = index_const 8 1;
       a = sample_acquire_info ModeInout [access 5 MemStore [z, z], access 6 MemLoad [z, z], access 7 DynLoad [u, u]]
   in covered_loads plain_context a \<and>
      adjusted_mode plain_context (Some [index_const 94 1, index_const 95 1]) a = ModeOut"
  by code_simp

text \<open>The allocation's fold starts at \<open>in\<close>: an allocation that is only written becomes \<open>inout\<close>.\<close>

lemma out_only_allocation_is_inout:
  "map alloc_mode (DbModeTighteningPass plain_context [sample_node_of [Acq full_store []]]) = [ModeInout]"
  "adjusted_mode plain_context (Some box_sizes) full_store = ModeOut"
  by code_simp+

text \<open>
  \<open>x < 0 ? x : 0\<close> with \<open>x = 0 - 2\<close> is accepted as a zero lower bound: the first arm is the
  clamp's value although it is negative.
\<close>

lemma zero_lower_bound_may_be_negative:
  "let n = Bin 0 IndexTy DivUI (iv_arg 1) (index_const 1 1); x = Bin 2 IndexTy SubI (index_const 3 0) n;
       lb = Select 4 IndexTy (CmpI 5 Cslt x (index_const 6 0)) x (index_const 7 0)
   in isProvablyZeroLoopLowerBound no_services (\<lambda>b. None) lb \<and> eval (box_run 2 0) lb = Some (- 2)"
  by code_simp

end
