(* ===== verification/AffineAccess.thy ===== *)
theory AffineAccess
  imports ValueQueries
begin

text \<open>
  Affine index expressions of structured loops (\<open>sde/Analysis/StructuredOpAnalysis.cpp\<close>,
  \<open>sde/Analysis/AffineAccessUtils.cpp\<close>): from the value of an index to an affine expression
  over the induction variables, from the access maps of a loop to its classification, its
  neighbourhood and the layout of its outputs.

  Affine expressions belong to MLIR. The code builds them with \<open>+\<close>, \<open>-\<close> and \<open>*\<close>, which simplify;
  the two builders are a parameter, and the locale \<open>affine_builder\<close> states what is documented
  of them: the result has the value of the sum or product.
\<close>

section \<open>Affine expressions\<close>

datatype affine_expr =
    AffDim nat
  | AffConst int
  | AffAdd affine_expr affine_expr
  | AffMul affine_expr affine_expr
  | AffMod affine_expr affine_expr
  | AffFloorDiv affine_expr affine_expr
  | AffCeilDiv affine_expr affine_expr

fun aff_value :: "int list \<Rightarrow> affine_expr \<Rightarrow> int" where
  "aff_value xs (AffDim d) = xs ! d"
| "aff_value xs (AffConst c) = c"
| "aff_value xs (AffAdd a b) = aff_value xs a + aff_value xs b"
| "aff_value xs (AffMul a b) = aff_value xs a * aff_value xs b"
| "aff_value xs (AffMod a b) = aff_value xs a mod aff_value xs b"
| "aff_value xs (AffFloorDiv a b) = aff_value xs a div aff_value xs b"
| "aff_value xs (AffCeilDiv a b) = ceil_div (aff_value xs a) (aff_value xs b)"

text \<open>\<open>AffineExpr::isFunctionOfDim\<close> and the dimensions an expression mentions.\<close>

fun isFunctionOfDim :: "nat \<Rightarrow> affine_expr \<Rightarrow> bool" where
  "isFunctionOfDim d (AffDim k) = (k = d)"
| "isFunctionOfDim d (AffConst c) = False"
| "isFunctionOfDim d (AffAdd a b) = (isFunctionOfDim d a \<or> isFunctionOfDim d b)"
| "isFunctionOfDim d (AffMul a b) = (isFunctionOfDim d a \<or> isFunctionOfDim d b)"
| "isFunctionOfDim d (AffMod a b) = (isFunctionOfDim d a \<or> isFunctionOfDim d b)"
| "isFunctionOfDim d (AffFloorDiv a b) = (isFunctionOfDim d a \<or> isFunctionOfDim d b)"
| "isFunctionOfDim d (AffCeilDiv a b) = (isFunctionOfDim d a \<or> isFunctionOfDim d b)"

fun isAffineConstant :: "affine_expr \<Rightarrow> bool" where
  "isAffineConstant (AffConst c) = True"
| "isAffineConstant _ = False"

type_synonym affine_map = "affine_expr list"

record affine_ops =
  aff_add :: "affine_expr \<Rightarrow> affine_expr \<Rightarrow> affine_expr"
  aff_mul :: "affine_expr \<Rightarrow> affine_expr \<Rightarrow> affine_expr"

text \<open>\<open>AffineExpr::operator-\<close> is defined through the other two.\<close>

definition aff_sub :: "affine_ops \<Rightarrow> affine_expr \<Rightarrow> affine_expr \<Rightarrow> affine_expr" where
  "aff_sub B a b = aff_add B a (aff_mul B b (AffConst (-1)))"

fun position_of :: "val \<Rightarrow> val list \<Rightarrow> nat option" where
  "position_of v [] = None"
| "position_of v (iv # ivs) = (if v = iv then Some 0 else map_option Suc (position_of v ivs))"

fun tryGetAffineExpr :: "affine_ops \<Rightarrow> val list \<Rightarrow> val \<Rightarrow> affine_expr option" where
  "tryGetAffineExpr B ivs v =
     (case position_of v ivs of
        Some idx \<Rightarrow> Some (AffDim idx)
      | None \<Rightarrow>
          (case v of
             Const i t a \<Rightarrow> map_option AffConst (getConstantIndex v)
           | Bin i t f a b \<Rightarrow>
               (case (tryGetAffineExpr B ivs a, tryGetAffineExpr B ivs b) of
                  (Some l, Some r) \<Rightarrow>
                    (if f = AddI then Some (aff_add B l r)
                     else if f = SubI then Some (aff_sub B l r)
                     else if f = MulI \<and> (isAffineConstant l \<or> isAffineConstant r) then Some (aff_mul B l r)
                     else None)
                | _ \<Rightarrow> None)
           | Cast i t c a \<Rightarrow> if c = IndexCast then tryGetAffineExpr B ivs a else None
           | _ \<Rightarrow> None))"

declare tryGetAffineExpr.simps [simp del]

fun all_some :: "'a option list \<Rightarrow> 'a list option" where
  "all_some [] = Some []"
| "all_some (None # xs) = None"
| "all_some (Some x # xs) = map_option ((#) x) (all_some xs)"

definition tryBuildIndexingMap :: "affine_ops \<Rightarrow> val list \<Rightarrow> val list \<Rightarrow> affine_map option" where
  "tryBuildIndexingMap B indices ivs = all_some (map (tryGetAffineExpr B ivs) indices)"

text \<open>One loop dimension plus an offset.\<close>

fun extractDimOffset :: "affine_expr \<Rightarrow> (nat option \<times> int) option" where
  "extractDimOffset (AffDim d) = Some (Some d, 0)"
| "extractDimOffset (AffConst c) = Some (None, c)"
| "extractDimOffset (AffAdd a b) =
     (case (extractDimOffset a, extractDimOffset b) of
        (Some (d, x), Some (d', y)) \<Rightarrow>
          if d \<noteq> None \<and> d' \<noteq> None then None
          else Some (if d \<noteq> None then d else d', wrap64 (x + y))
      | _ \<Rightarrow> None)"
| "extractDimOffset _ = None"

definition hasConstantOffsets :: "affine_map \<Rightarrow> bool" where
  "hasConstantOffsets m =
     list_ex (\<lambda>e. case extractDimOffset e of Some (Some d, k) \<Rightarrow> k \<noteq> 0 | _ \<Rightarrow> False) m"

section \<open>Classification\<close>

datatype su_class = ClElementwise | ClStencil | ClMatmul | ClReduction | ClElementwisePipeline

datatype iter_type = IterParallel | IterReduction

record access_entry =
  acc_memref :: val
  indexingMap :: affine_map

definition computeIteratorTypes :: "nat \<Rightarrow> affine_map list \<Rightarrow> iter_type list" where
  "computeIteratorTypes numDims outputMaps =
     map (\<lambda>d. if list_ex (list_ex (isFunctionOfDim d)) outputMaps then IterParallel else IterReduction)
       [0..<numDims]"

definition dims_of_type :: "iter_type \<Rightarrow> iter_type list \<Rightarrow> nat list" where
  "dims_of_type t ts = filter (\<lambda>d. ts ! d = t) [0..<length ts]"

text \<open>A bit vector is the list of its bits.\<close>

definition getUsedDims :: "affine_map \<Rightarrow> nat \<Rightarrow> bool list" where
  "getUsedDims m numDims = map (\<lambda>d. list_ex (isFunctionOfDim d) m) [0..<numDims]"

definition bits :: "nat \<Rightarrow> nat list \<Rightarrow> bool list" where
  "bits numDims ds = map (\<lambda>d. d \<in> set ds) [0..<numDims]"

definition hasExactDimUse :: "affine_map \<Rightarrow> bool list \<Rightarrow> nat \<Rightarrow> bool" where
  "hasExactDimUse m expected numDims = (getUsedDims m numDims = expected)"

definition hasCanonicalMatmulAccessShape ::
  "access_entry list \<Rightarrow> affine_map list \<Rightarrow> iter_type list \<Rightarrow> nat \<Rightarrow> bool" where
  "hasCanonicalMatmulAccessShape rs outputMaps ts numDims =
     (let parallelDims = dims_of_type IterParallel ts; reductionDims = dims_of_type IterReduction ts
      in if length parallelDims \<noteq> 2 \<or> length reductionDims \<noteq> 1 \<or> numDims \<noteq> 3 then False
         else
           let outputDims = bits numDims parallelDims;
               lhsDims = bits numDims [parallelDims ! 0, reductionDims ! 0];
               rhsDims = bits numDims [reductionDims ! 0, parallelDims ! 1]
           in if \<not> list_ex (\<lambda>m. hasExactDimUse m outputDims numDims) outputMaps then False
              else list_ex (\<lambda>r. hasExactDimUse (indexingMap r) lhsDims numDims) rs \<and>
                   list_ex (\<lambda>r. hasExactDimUse (indexingMap r) rhsDims numDims) rs)"

definition classifyPattern :: "access_entry list \<Rightarrow> affine_map list \<Rightarrow> iter_type list \<Rightarrow> nat \<Rightarrow> su_class" where
  "classifyPattern rs outputMaps ts numDims =
     (let numParallel = length (dims_of_type IterParallel ts);
          numReduction = length (dims_of_type IterReduction ts)
      in if numReduction = 0
         then (if list_ex (\<lambda>r. hasConstantOffsets (indexingMap r)) rs then ClStencil else ClElementwise)
         else if numParallel = 2 \<and> numReduction = 1 \<and> numDims = 3 \<and> length rs \<ge> 2 \<and> outputMaps \<noteq> [] \<and>
                 hasCanonicalMatmulAccessShape rs outputMaps ts numDims
         then ClMatmul
         else ClReduction)"

definition isConstantZeroIndexingMap :: "affine_map \<Rightarrow> bool" where
  "isConstantZeroIndexingMap m = (case m of [AffConst c] \<Rightarrow> c = 0 | _ \<Rightarrow> False)"

definition supportsReductionCarrierSubset ::
  "val list \<Rightarrow> val list \<Rightarrow> access_entry list \<Rightarrow> access_entry list \<Rightarrow> bool" where
  "supportsReductionCarrierSubset accumulators ivs rs ws =
     (case (accumulators, ivs, ws) of
        ([acc], [iv], [w]) \<Rightarrow>
          (case type_of acc of
             MemRefTy [d] elt \<Rightarrow>
               if acc_memref w \<noteq> acc \<or> \<not> isConstantZeroIndexingMap (indexingMap w) then False
               else
                 let matching = filter (\<lambda>r. acc_memref r = acc) rs
                 in if \<not> list_all (\<lambda>r. isConstantZeroIndexingMap (indexingMap r)) matching then False
                    else length matching = 1
           | _ \<Rightarrow> False)
      | _ \<Rightarrow> False)"

section \<open>Neighbourhoods\<close>

record neighborhood =
  nb_ownerDims :: "int list"
  nb_spatialDims :: "int list"
  nb_minOffsets :: "int list"
  nb_maxOffsets :: "int list"
  nb_writeFootprint :: "int list"

definition widen :: "nat \<Rightarrow> affine_expr \<Rightarrow> int list \<times> int list \<times> bool \<Rightarrow> int list \<times> int list \<times> bool" where
  "widen numLoops e st =
     (case st of
        (mn, mx, saw) \<Rightarrow>
          (case extractDimOffset e of
             Some (Some d, k) \<Rightarrow>
               if d \<ge> numLoops then st
               else (mn[d := min (mn ! d) k], mx[d := max (mx ! d) k], saw \<or> k \<noteq> 0)
           | _ \<Rightarrow> st))"

definition extractNeighborhoodSummary :: "access_entry list \<Rightarrow> nat \<Rightarrow> neighborhood option" where
  "extractNeighborhoodSummary rs numLoops =
     (if numLoops = 0 then None
      else
        let (mn, mx, saw) = fold (widen numLoops) (concat (map indexingMap rs))
              (replicate numLoops 0, replicate numLoops 0, False)
        in if \<not> saw then None
           else Some \<lparr>nb_ownerDims = map int [0..<numLoops], nb_spatialDims = map int [0..<numLoops],
                      nb_minOffsets = mn, nb_maxOffsets = mx, nb_writeFootprint = replicate numLoops 1\<rparr>)"

section \<open>Output layouts\<close>

definition normalizeOutputRoot :: "val \<Rightarrow> val" where
  "normalizeOutputRoot v = (if isMemRef (type_of v) then stripMemrefViewOps v else v)"

definition getStaticShape :: "val \<Rightarrow> int list option" where
  "getStaticShape v =
     (case type_of (normalizeOutputRoot v) of
        MemRefTy ds elt \<Rightarrow> all_some ds
      | _ \<Rightarrow> None)"

fun map_dims :: "nat \<Rightarrow> nat \<Rightarrow> affine_map \<Rightarrow> int list \<times> int list \<times> bool \<Rightarrow> (int list \<times> int list \<times> bool) option" where
  "map_dims numLoops physicalDim [] st = Some st"
| "map_dims numLoops physicalDim (e # es) (l2p, p2l, mapped) =
     (case extractDimOffset e of
        None \<Rightarrow> None
      | Some (None, k) \<Rightarrow> map_dims numLoops (Suc physicalDim) es (l2p, p2l, mapped)
      | Some (Some loopDim, k) \<Rightarrow>
          if k \<noteq> 0 then None
          else if loopDim \<ge> numLoops then None
          else if l2p ! loopDim \<ge> 0 \<or> p2l ! physicalDim \<ge> 0 then None
          else map_dims numLoops (Suc physicalDim) es
                 (l2p[loopDim := int physicalDim], p2l[physicalDim := int loopDim], True))"

definition buildLoopPhysicalDimMaps :: "affine_map \<Rightarrow> nat \<Rightarrow> nat \<Rightarrow> (int list \<times> int list) option" where
  "buildLoopPhysicalDimMaps m numLoops rank =
     (if length m \<noteq> rank then None
      else case map_dims numLoops 0 m (replicate numLoops (-1), replicate rank (-1), False) of
             None \<Rightarrow> None
           | Some (l2p, p2l, mapped) \<Rightarrow> if \<not> mapped then None else Some (l2p, p2l))"

record layout_plan =
  lp_root :: val
  lp_shape :: "int list"
  loopDimToPhysicalDim :: "int list"
  physicalDimToLoopDim :: "int list"

text \<open>\<open>inside\<close>: the value is defined inside the loop.\<close>

fun select_layout :: "(val \<Rightarrow> bool) \<Rightarrow> nat \<Rightarrow> access_entry list \<Rightarrow> layout_plan option \<Rightarrow> layout_plan option" where
  "select_layout inside numLoops [] selected = selected"
| "select_layout inside numLoops (w # ws) selected =
     (let root = normalizeOutputRoot (acc_memref w)
      in if inside root then select_layout inside numLoops ws selected
         else case getStaticShape root of
           None \<Rightarrow> None
         | Some shape \<Rightarrow>
             if shape = [] then None
             else case buildLoopPhysicalDimMaps (indexingMap w) numLoops (length shape) of
               None \<Rightarrow> None
             | Some (l2p, p2l) \<Rightarrow>
                 (case selected of
                    None \<Rightarrow> select_layout inside numLoops ws
                              (Some \<lparr>lp_root = root, lp_shape = shape, loopDimToPhysicalDim = l2p,
                                     physicalDimToLoopDim = p2l\<rparr>)
                  | Some s \<Rightarrow>
                      if shape \<noteq> lp_shape s \<or> l2p \<noteq> loopDimToPhysicalDim s \<or> p2l \<noteq> physicalDimToLoopDim s
                      then None
                      else select_layout inside numLoops ws selected))"

definition findCompatibleOutputLayoutPlan ::
  "(val \<Rightarrow> bool) \<Rightarrow> nat \<Rightarrow> access_entry list \<Rightarrow> layout_plan option" where
  "findCompatibleOutputLayoutPlan inside numLoops ws =
     (if ws = [] \<or> numLoops = 0 then None else select_layout inside numLoops ws None)"

section \<open>Linearised accesses\<close>

text \<open>\<open>is_iv\<close>: the value is an induction variable of the loop its block belongs to.\<close>

definition linearized :: "mlir \<Rightarrow> val option \<Rightarrow> val \<Rightarrow> val \<Rightarrow> val \<Rightarrow> (val \<times> val \<times> val) option" where
  "linearized P requiredStride inner outer stride =
     (let outer' = stripNumericCasts outer; stride' = stripNumericCasts stride
      in if \<not> isIndex (type_of outer') \<or> \<not> isIndex (type_of stride') \<or> \<not> isIndex (type_of inner) then None
         else if (case requiredStride of Some s \<Rightarrow> \<not> sameValue P stride' s | None \<Rightarrow> False) then None
         else Some (outer', inner, stride'))"

definition matchLinearizedMul ::
  "mlir \<Rightarrow> (val \<Rightarrow> bool) \<Rightarrow> val \<Rightarrow> val \<Rightarrow> val option \<Rightarrow> (val \<times> val \<times> val) option" where
  "matchLinearizedMul P is_iv mulCandidate innerCandidate requiredStride =
     (let inner = stripNumericCasts innerCandidate in
      case stripNumericCasts mulCandidate of
        Bin i t f a b \<Rightarrow>
          if f \<noteq> MulI then None
          else
            let lhs = stripNumericCasts a; rhs = stripNumericCasts b in
            (case requiredStride of
               Some s \<Rightarrow>
                 if sameValue P lhs s then linearized P requiredStride inner rhs lhs
                 else if sameValue P rhs s then linearized P requiredStride inner lhs rhs
                 else None
             | None \<Rightarrow>
                 if is_iv lhs \<and> \<not> is_iv rhs then linearized P requiredStride inner lhs rhs
                 else if is_iv rhs \<and> \<not> is_iv lhs then linearized P requiredStride inner rhs lhs
                 else
                   let lhsConst = tryFoldConstantIndex P 0 lhs; rhsConst = tryFoldConstantIndex P 0 rhs
                   in if lhsConst \<noteq> None \<and> rhsConst = None then linearized P requiredStride inner rhs lhs
                      else if rhsConst \<noteq> None \<and> lhsConst = None then linearized P requiredStride inner lhs rhs
                      else None)
      | _ \<Rightarrow> None)"

definition decomposeRowMajorLinearizedIndex ::
  "mlir \<Rightarrow> (val \<Rightarrow> bool) \<Rightarrow> val \<Rightarrow> val option \<Rightarrow> (val \<times> val \<times> val) option" where
  "decomposeRowMajorLinearizedIndex P is_iv index requiredStride =
     (case stripNumericCasts index of
        Bin i t AddI a b \<Rightarrow>
          (case matchLinearizedMul P is_iv a b requiredStride of
             Some r \<Rightarrow> Some r
           | None \<Rightarrow> matchLinearizedMul P is_iv b a requiredStride)
      | _ \<Rightarrow> None)"

definition inferRowMajorFlatShape :: "mlir \<Rightarrow> val \<Rightarrow> val \<Rightarrow> (val \<times> val) option" where
  "inferRowMajorFlatShape P totalElements stride =
     (let total = stripNumericCasts totalElements; s = stripNumericCasts stride
      in if \<not> isIndex (type_of total) \<or> \<not> isIndex (type_of s) then None
         else case total of
           Bin i t MulI a b \<Rightarrow>
             (let lhs = stripNumericCasts a; rhs = stripNumericCasts b
              in if sameValue P lhs s then Some (rhs, s)
                 else if sameValue P rhs s then Some (lhs, s)
                 else None)
         | _ \<Rightarrow> None)"

section \<open>Affine expressions have the value of the index\<close>

lemma position_of_nth: "position_of v ivs = Some k \<Longrightarrow> k < length ivs \<and> ivs ! k = v"
  by (induction ivs arbitrary: k) (auto split: if_splits)

text \<open>The ways an expression comes about.\<close>

lemma affine_cases:
  assumes "tryGetAffineExpr B ivs v = Some a"
  obtains k where "k < length ivs" "ivs ! k = v" "a = AffDim k"
  | i t c n where "v = Const i t c" "getConstantIndex v = Some n" "a = AffConst n"
  | i t f p q l r where "v = Bin i t f p q" "tryGetAffineExpr B ivs p = Some l"
      "tryGetAffineExpr B ivs q = Some r" "f = AddI \<and> a = aff_add B l r \<or> f = SubI \<and> a = aff_sub B l r \<or>
        f = MulI \<and> a = aff_mul B l r"
  | i t p where "v = Cast i t IndexCast p" "tryGetAffineExpr B ivs p = Some a"
proof (cases "position_of v ivs")
  case (Some k)
  then have "a = AffDim k" using assms by (simp add: tryGetAffineExpr.simps)
  then show ?thesis using that(1) position_of_nth [OF Some] by blast
next
  case None
  then show ?thesis using assms that(2-4)
    by (subst (asm) tryGetAffineExpr.simps) (auto split: val.splits option.splits if_splits)
qed

locale affine_builder =
  fixes B :: affine_ops
  assumes add_value: "aff_value xs (aff_add B a b) = aff_value xs a + aff_value xs b"
    and mul_value: "aff_value xs (aff_mul B a b) = aff_value xs a * aff_value xs b"
begin

lemma sub_value: "aff_value xs (aff_sub B a b) = aff_value xs a - aff_value xs b"
  by (simp add: aff_sub_def add_value mul_value)

lemma affine_value:
  assumes "tryGetAffineExpr B ivs v = Some a" "fold_safe e v" "eval e v = Some x"
    and ivs: "\<forall>k<length ivs. eval e (ivs ! k) = Some (xs ! k)"
  shows "x = wrap64 (aff_value xs a)"
  using assms(1-3)
proof (induction "size v" arbitrary: v a x rule: less_induct)
  case less
  from less.prems(1) show ?case
  proof (cases rule: affine_cases)
    case (1 k)
    then show ?thesis using ivs less.prems(3) eval_in64 [OF less.prems(2,3)] by (auto simp: wrap64_id)
  next
    case (2 i t c n)
    then show ?thesis
      using constant_value [OF less.prems(2) _ less.prems(3)] eval_in64 [OF less.prems(2,3)]
      by (simp add: wrap64_id)
  next
    case (3 i t f p q l r)
    have s: "width t = 64" "fold_safe e p" "fold_safe e q" using less.prems(2) 3(1) by auto
    obtain y z where yz: "eval e p = Some y" "eval e q = Some z" "bin_sem t f y z = Some x"
      using less.prems(3) 3(1) by (auto split: option.splits)
    have y: "y = wrap64 (aff_value xs l)" by (rule less.hyps [OF _ 3(2) s(2) yz(1)]) (simp add: 3(1))
    have z: "z = wrap64 (aff_value xs r)" by (rule less.hyps [OF _ 3(3) s(3) yz(2)]) (simp add: 3(1))
    from 3(4) show ?thesis using yz(3) s(1)
      by (elim disjE conjE)
        (auto simp: sgn_at_64 y z wrap64_add wrap64_diff wrap64_mult add_value sub_value mul_value)
  next
    case (4 i t p)
    then have "eval e p = Some x" "fold_safe e p" using less.prems(2,3) by auto
    then show ?thesis using less.hyps [of p] 4 by simp
  qed
qed

end

text \<open>
  A builder that folds constants, as MLIR does: two constants are combined, a constant moves to
  the right, adding zero and multiplying by zero or one go away.
\<close>

fun fold_add :: "affine_expr \<Rightarrow> affine_expr \<Rightarrow> affine_expr" where
  "fold_add (AffConst x) (AffConst y) = AffConst (x + y)"
| "fold_add (AffConst x) b = (if x = 0 then b else AffAdd b (AffConst x))"
| "fold_add a (AffConst y) = (if y = 0 then a else AffAdd a (AffConst y))"
| "fold_add a b = AffAdd a b"

fun fold_mul :: "affine_expr \<Rightarrow> affine_expr \<Rightarrow> affine_expr" where
  "fold_mul (AffConst x) (AffConst y) = AffConst (x * y)"
| "fold_mul (AffConst x) b = (if x = 0 then AffConst 0 else if x = 1 then b else AffMul b (AffConst x))"
| "fold_mul a (AffConst y) = (if y = 0 then AffConst 0 else if y = 1 then a else AffMul a (AffConst y))"
| "fold_mul a b = AffMul a b"

definition folding_ops :: affine_ops where
  "folding_ops = \<lparr>aff_add = fold_add, aff_mul = fold_mul\<rparr>"

lemma fold_add_value: "aff_value xs (fold_add a b) = aff_value xs a + aff_value xs b"
  by (cases a; cases b) auto

lemma fold_mul_value: "aff_value xs (fold_mul a b) = aff_value xs a * aff_value xs b"
  by (cases a; cases b) auto

interpretation folding: affine_builder folding_ops
  by unfold_locales (simp_all add: folding_ops_def fold_add_value fold_mul_value)

section \<open>Shapes of access expressions\<close>

text \<open>Where a dimension and an offset are extracted, they give the value.\<close>

lemma dim_offset_value:
  "extractDimOffset e = Some (d, k) \<Longrightarrow>
     wrap64 (aff_value xs e) = wrap64 ((case d of None \<Rightarrow> 0 | Some i \<Rightarrow> xs ! i) + k)"
proof (induction e arbitrary: d k)
  case (AffAdd a b)
  from AffAdd.prems obtain d1 x d2 y where ab: "extractDimOffset a = Some (d1, x)" "extractDimOffset b = Some (d2, y)"
    and c: "d1 = None \<or> d2 = None" "d = (if d1 \<noteq> None then d1 else d2)" "k = wrap64 (x + y)"
    by (auto split: option.splits prod.splits if_splits)
  let ?D = "\<lambda>d. case d of None \<Rightarrow> 0 | Some i \<Rightarrow> xs ! i"
  have "wrap64 (aff_value xs (AffAdd a b)) = wrap64 (wrap64 (aff_value xs a) + wrap64 (aff_value xs b))"
    by (simp only: wrap64_add aff_value.simps)
  also have "\<dots> = wrap64 (wrap64 (?D d1 + x) + wrap64 (?D d2 + y))"
    by (simp only: AffAdd.IH(1) [OF ab(1)] AffAdd.IH(2) [OF ab(2)])
  also have "\<dots> = wrap64 (?D d1 + x + (?D d2 + y))" by (rule wrap64_add)
  also have "?D d1 + x + (?D d2 + y) = ?D d + (x + y)" using c(1,2) by auto
  also have "wrap64 (?D d + (x + y)) = wrap64 (wrap64 (?D d) + wrap64 (wrap64 (x + y)))"
    by (simp only: wrap64_add wrap64_idem)
  also have "\<dots> = wrap64 (?D d + k)" by (simp only: wrap64_add c(3))
  finally show ?case .
qed auto

lemma unused_dim: "\<not> isFunctionOfDim d e \<Longrightarrow> aff_value (xs[d := y]) e = aff_value xs e"
  by (induction e) auto

lemma unused_dims: "\<not> list_ex (isFunctionOfDim d) m \<Longrightarrow> map (aff_value (xs[d := y])) m = map (aff_value xs) m"
  by (auto simp: list_ex_iff unused_dim)

lemma all_some_iff: "all_some xs = Some ys \<longleftrightarrow> xs = map Some ys"
  by (induction xs arbitrary: ys rule: all_some.induct) (auto simp: Cons_eq_map_conv)

section \<open>Neighbourhoods cover the reads\<close>

text \<open>
  What a pass over access expressions keeps of the two lists of offsets: they cover what was
  seen, they never shrink, and every bound comes from the start or from an expression.
\<close>

definition covered_offsets :: "nat \<Rightarrow> affine_expr list \<Rightarrow> int list \<Rightarrow> int list \<Rightarrow> bool" where
  "covered_offsets n es mn mx \<longleftrightarrow> length mn = n \<and> length mx = n \<and>
     (\<forall>d<n. mn ! d \<le> 0 \<and> 0 \<le> mx ! d) \<and>
     (\<forall>e\<in>set es. \<forall>d k. extractDimOffset e = Some (Some d, k) \<and> d < n \<longrightarrow> mn ! d \<le> k \<and> k \<le> mx ! d) \<and>
     (\<forall>d<n. (mn ! d = 0 \<or> (\<exists>e\<in>set es. extractDimOffset e = Some (Some d, mn ! d))) \<and>
            (mx ! d = 0 \<or> (\<exists>e\<in>set es. extractDimOffset e = Some (Some d, mx ! d))))"

lemma widen_covers:
  assumes "covered_offsets n es mn mx" "widen n e (mn, mx, saw) = (mn', mx', saw')"
  shows "covered_offsets n (es @ [e]) mn' mx'"
proof (cases "\<exists>d k. extractDimOffset e = Some (Some d, k) \<and> d < n")
  case True
  then obtain d k where e: "extractDimOffset e = Some (Some d, k)" "d < n" by blast
  then have m: "mn' = mn[d := min (mn ! d) k]" "mx' = mx[d := max (mx ! d) k]"
    using assms(2) by (auto simp: widen_def)
  note c = assms(1) [unfolded covered_offsets_def]
  show ?thesis unfolding covered_offsets_def
  proof (intro conjI)
    show "length mn' = n" "length mx' = n" using c by (simp_all add: m)
    show "\<forall>d<n. mn' ! d \<le> 0 \<and> 0 \<le> mx' ! d"
      using c e(2) by (auto simp: m nth_list_update min_le_iff_disj le_max_iff_disj)
    show "\<forall>f\<in>set (es @ [e]). \<forall>d k. extractDimOffset f = Some (Some d, k) \<and> d < n \<longrightarrow> mn' ! d \<le> k \<and> k \<le> mx' ! d"
      using c e by (auto simp: m nth_list_update min_le_iff_disj le_max_iff_disj)
    show "\<forall>d'<n. (mn' ! d' = 0 \<or> (\<exists>f\<in>set (es @ [e]). extractDimOffset f = Some (Some d', mn' ! d'))) \<and>
        (mx' ! d' = 0 \<or> (\<exists>f\<in>set (es @ [e]). extractDimOffset f = Some (Some d', mx' ! d')))"
      using c e by (auto simp: m nth_list_update min_def max_def)
  qed
next
  case False
  then have "mn' = mn" "mx' = mx" using assms(2)
    by (auto simp: widen_def split: option.splits prod.splits if_splits)
  then show ?thesis using assms(1) False by (auto simp: covered_offsets_def)
qed

lemma widen_all:
  assumes "covered_offsets n ds mn mx" "fold (widen n) es (mn, mx, saw) = (mn', mx', saw')"
  shows "covered_offsets n (ds @ es) mn' mx'"
  using assms
proof (induction es arbitrary: ds mn mx saw)
  case (Cons e es)
  obtain mn1 mx1 saw1 where w: "widen n e (mn, mx, saw) = (mn1, mx1, saw1)" by (metis prod_cases3)
  show ?case using Cons.IH [OF widen_covers [OF Cons.prems(1) w]] Cons.prems(2) w by simp
qed simp

text \<open>
  The neighbourhood of a loop covers its reads: it has a bound for every loop dimension, in
  an iteration \<open>xs\<close> a read coordinate that follows dimension \<open>d\<close> lies between \<open>xs ! d\<close> plus the
  least and plus the greatest offset, and each of these is zero or the offset of some read.
\<close>

theorem neighborhood_covers_reads:
  assumes "extractNeighborhoodSummary rs n = Some nb"
  shows "length (nb_minOffsets nb) = n \<and> length (nb_maxOffsets nb) = n \<and>
    (\<forall>r\<in>set rs. \<forall>e\<in>set (indexingMap r). \<forall>d k xs. extractDimOffset e = Some (Some d, k) \<and> d < n \<and>
       in64 (xs ! d + k) \<and> in64 (aff_value xs e) \<longrightarrow>
       xs ! d + nb_minOffsets nb ! d \<le> aff_value xs e \<and> aff_value xs e \<le> xs ! d + nb_maxOffsets nb ! d) \<and>
    (\<forall>d<n. \<forall>b\<in>{nb_minOffsets nb ! d, nb_maxOffsets nb ! d}.
       b = 0 \<or> (\<exists>r\<in>set rs. \<exists>e\<in>set (indexingMap r). extractDimOffset e = Some (Some d, b)))"
proof -
  let ?es = "concat (map indexingMap rs)"
  obtain mn mx saw where f: "fold (widen n) ?es (replicate n 0, replicate n 0, False) = (mn, mx, saw)"
    by (metis prod_cases3)
  have nb: "nb_minOffsets nb = mn" "nb_maxOffsets nb = mx"
    using assms f by (auto simp: extractNeighborhoodSummary_def split: if_splits)
  have "covered_offsets n [] (replicate n 0) (replicate n 0)" by (simp add: covered_offsets_def)
  from widen_all [OF this f] have c: "covered_offsets n ?es mn mx" by simp
  have v: "aff_value xs e = xs ! d + k"
    if "extractDimOffset e = Some (Some d, k)" "in64 (xs ! d + k)" "in64 (aff_value xs e)" for e d k xs
    using dim_offset_value [OF that(1), of xs] that(2,3) by (simp add: wrap64_id)
  show ?thesis unfolding nb using c unfolding covered_offsets_def
    by (intro conjI) (auto simp: v)
qed

lemma neighborhood_covers_reads_witness:
  "let i = AffDim 0; j = AffDim 1; m = BlockArg 9 0 (MemRefTy [None, None] (FloatTy 64)) None;
       rs = [\<lparr>acc_memref = m, indexingMap = [AffAdd i (AffConst (-1)), j]\<rparr>,
             \<lparr>acc_memref = m, indexingMap = [i, AffAdd j (AffConst 2)]\<rparr>];
       nb = the (extractNeighborhoodSummary rs 2)
   in nb_minOffsets nb = [-1, 0] \<and> nb_maxOffsets nb = [0, 2] \<and>
      [7, 5] ! 1 + nb_minOffsets nb ! 1 \<le> aff_value [7, 5] (AffAdd j (AffConst 2))"
proof -
  let ?m = "BlockArg 9 0 (MemRefTy [None, None] (FloatTy 64)) None"
  let ?e = "AffAdd (AffDim 1) (AffConst 2)"
  let ?rs = "[\<lparr>acc_memref = ?m, indexingMap = [AffAdd (AffDim 0) (AffConst (-1)), AffDim 1]\<rparr>,
              \<lparr>acc_memref = ?m, indexingMap = [AffDim 0, ?e]\<rparr>]"
  let ?nb = "\<lparr>nb_ownerDims = [0, 1], nb_spatialDims = [0, 1], nb_minOffsets = [-1, 0],
              nb_maxOffsets = [0, 2], nb_writeFootprint = [1, 1]\<rparr>"
  have nb: "extractNeighborhoodSummary ?rs 2 = Some ?nb" by code_simp
  have e: "extractDimOffset ?e = Some (Some 1, 2)" "in64 ([7, 5] ! 1 + 2)" "in64 (aff_value [7, 5] ?e)"
    by code_simp+
  have "[7, 5] ! 1 + nb_minOffsets ?nb ! 1 \<le> aff_value [7, 5] ?e"
    using neighborhood_covers_reads [OF nb] e by auto
  then show ?thesis using nb by (simp add: Let_def)
qed

section \<open>Output layouts\<close>

text \<open>
  The two maps of a layout: partial inverses of each other, and a physical dimension follows
  exactly the loop dimension it is mapped to.
\<close>

definition layout_maps :: "nat \<Rightarrow> nat \<Rightarrow> int list \<Rightarrow> int list \<Rightarrow> bool" where
  "layout_maps n r l2p p2l \<longleftrightarrow> length l2p = n \<and> length p2l = r \<and>
     (\<forall>d<n. \<forall>p<r. l2p ! d = int p \<longleftrightarrow> p2l ! p = int d) \<and>
     (\<forall>d<n. l2p ! d = -1 \<or> (\<exists>p<r. l2p ! d = int p)) \<and>
     (\<forall>p<r. p2l ! p = -1 \<or> (\<exists>d<n. p2l ! p = int d))"

lemma map_dims_layout:
  assumes "map_dims n q es (l2p, p2l, mp) = Some (l2p', p2l', mp')" "layout_maps n r l2p p2l"
    "q + length es = r" "\<forall>p<r. q \<le> p \<longrightarrow> p2l ! p = -1"
  shows "layout_maps n r l2p' p2l' \<and> (\<forall>p<q. p2l' ! p = p2l ! p) \<and>
    (\<forall>j<length es. \<exists>d k. extractDimOffset (es ! j) = Some (d, k) \<and>
       (case d of None \<Rightarrow> p2l' ! (q + j) = -1 | Some i \<Rightarrow> k = 0 \<and> i < n \<and> p2l' ! (q + j) = int i))"
  using assms
proof (induction n q es "(l2p, p2l, mp)" arbitrary: l2p p2l mp rule: map_dims.induct)
  case (2 n q e es l2p p2l mp)
  obtain d k where e: "extractDimOffset e = Some (d, k)" using 2(3) by (auto split: option.splits)
  show ?case
  proof (cases d)
    case None
    have rest: "map_dims n (Suc q) es (l2p, p2l, mp) = Some (l2p', p2l', mp')" using 2(3) e None by simp
    have h: "layout_maps n r l2p' p2l'" "\<forall>p<Suc q. p2l' ! p = p2l ! p"
      "\<forall>j<length es. \<exists>d k. extractDimOffset (es ! j) = Some (d, k) \<and>
       (case d of None \<Rightarrow> p2l' ! (Suc q + j) = -1 | Some i \<Rightarrow> k = 0 \<and> i < n \<and> p2l' ! (Suc q + j) = int i)"
      using 2(1) [OF _ _ _ rest 2(4)] e None 2(5,6) by auto
    have "p2l' ! q = -1" "\<forall>p<q. p2l' ! p = p2l ! p" using h(2) 2(5,6) by simp_all
    then show ?thesis using h(1) h(3) [unfolded add_Suc_shift] e None by (simp add: All_less_Suc2)
  next
    case (Some i)
    have g: "k = 0" "i < n" "\<not> (l2p ! i \<ge> 0)" and
      rest: "map_dims n (Suc q) es (l2p[i := int q], p2l[q := int i], True) = Some (l2p', p2l', mp')"
      using 2(3) e Some by (auto split: if_splits)
    have q: "q < r" "p2l ! q = -1" using 2(5,6) by auto
    have lm: "layout_maps n r (l2p[i := int q]) (p2l[q := int i])"
      using 2(4) g q unfolding layout_maps_def
      by (auto simp: nth_list_update)
    have h: "layout_maps n r l2p' p2l'" "\<forall>p<Suc q. p2l' ! p = p2l[q := int i] ! p"
      "\<forall>j<length es. \<exists>d k. extractDimOffset (es ! j) = Some (d, k) \<and>
       (case d of None \<Rightarrow> p2l' ! (Suc q + j) = -1 | Some i \<Rightarrow> k = 0 \<and> i < n \<and> p2l' ! (Suc q + j) = int i)"
      using 2(2) [OF _ _ _ _ _ _ rest lm] e Some 2(3,5,6) by (auto split: if_splits)
    have "p2l' ! q = int i" using h(2) 2(4) q by (simp add: layout_maps_def)
    moreover have "\<forall>p<q. p2l' ! p = p2l ! p" using h(2) by simp
    ultimately show ?thesis using h(1) h(3) [unfolded add_Suc_shift] e Some g by (simp add: All_less_Suc2)
  qed
qed simp

text \<open>The layout fits an access: shape, maps, and the coordinates of an iteration.\<close>

definition layout_fits :: "nat \<Rightarrow> layout_plan \<Rightarrow> access_entry \<Rightarrow> bool" where
  "layout_fits n lp w \<longleftrightarrow>
     getStaticShape (normalizeOutputRoot (acc_memref w)) = Some (lp_shape lp) \<and>
     buildLoopPhysicalDimMaps (indexingMap w) n (length (lp_shape lp)) =
       Some (loopDimToPhysicalDim lp, physicalDimToLoopDim lp)"

lemma select_layout_fits:
  assumes "select_layout inside n ws sel = Some lp"
  shows "(\<forall>s. sel = Some s \<longrightarrow> s = lp) \<and>
    (\<forall>w\<in>set ws. \<not> inside (normalizeOutputRoot (acc_memref w)) \<longrightarrow> layout_fits n lp w)"
  using assms
proof (induction ws arbitrary: sel)
  case (Cons w ws)
  show ?case
  proof (cases "inside (normalizeOutputRoot (acc_memref w))")
    case True
    then show ?thesis using Cons by (simp add: Let_def)
  next
    case False
    then obtain shape l2p p2l where w: "getStaticShape (normalizeOutputRoot (acc_memref w)) = Some shape"
      "buildLoopPhysicalDimMaps (indexingMap w) n (length shape) = Some (l2p, p2l)" "shape \<noteq> []"
      using Cons.prems by (auto simp: Let_def split: option.splits if_splits)
    let ?new = "\<lparr>lp_root = normalizeOutputRoot (acc_memref w), lp_shape = shape, loopDimToPhysicalDim = l2p,
      physicalDimToLoopDim = p2l\<rparr>"
    show ?thesis
    proof (cases sel)
      case None
      then have "select_layout inside n ws (Some ?new) = Some lp"
        using Cons.prems w False by (simp add: Let_def)
      from Cons.IH [OF this] show ?thesis using w None by (auto simp: layout_fits_def)
    next
      case (Some s)
      then have "shape = lp_shape s" "l2p = loopDimToPhysicalDim s" "p2l = physicalDimToLoopDim s"
        "select_layout inside n ws (Some s) = Some lp"
        using Cons.prems w False by (auto simp: Let_def split: if_splits)
      with Cons.IH [OF this(4)] show ?thesis using w Some by (auto simp: layout_fits_def)
    qed
  qed
qed simp

lemma built_maps:
  assumes "buildLoopPhysicalDimMaps m n r = Some (l2p, p2l)"
  shows "length m = r \<and> layout_maps n r l2p p2l \<and>
    (\<forall>p<r. \<exists>d k. extractDimOffset (m ! p) = Some (d, k) \<and>
       (case d of None \<Rightarrow> p2l ! p = -1 | Some i \<Rightarrow> k = 0 \<and> i < n \<and> p2l ! p = int i))"
proof -
  obtain mp where md: "length m = r"
    "map_dims n 0 m (replicate n (-1), replicate r (-1), False) = Some (l2p, p2l, mp)"
    using assms by (auto simp: buildLoopPhysicalDimMaps_def split: option.splits prod.splits if_splits)
  have "layout_maps n r (replicate n (-1)) (replicate r (-1))" by (simp add: layout_maps_def)
  from map_dims_layout [OF md(2) this, unfolded add_0] show ?thesis using md(1) by simp
qed

text \<open>
  C17: An output layout holds for every output of the loop: the shape is that of the memref, the
  loop dimensions and the physical dimensions they are mapped to determine each other, the
  coordinate in such a dimension is the induction variable itself, and the other coordinates
  are constant. So two iterations that write the same element agree in all mapped dimensions
  (with induction variables that are 64-bit integers; coordinates are taken modulo 2 to the 64).
\<close>

theorem output_layout_exact:
  assumes "findCompatibleOutputLayoutPlan inside n ws = Some lp" "w \<in> set ws"
    "\<not> inside (normalizeOutputRoot (acc_memref w))"
  shows "getStaticShape (normalizeOutputRoot (acc_memref w)) = Some (lp_shape lp) \<and>
    length (indexingMap w) = length (lp_shape lp) \<and>
    (\<forall>d<n. \<forall>p<length (lp_shape lp).
       (loopDimToPhysicalDim lp ! d = int p \<longleftrightarrow> physicalDimToLoopDim lp ! p = int d) \<and>
       (physicalDimToLoopDim lp ! p = int d \<longrightarrow>
          (\<forall>xs. wrap64 (aff_value xs (indexingMap w ! p)) = wrap64 (xs ! d)))) \<and>
    (\<forall>p<length (lp_shape lp). physicalDimToLoopDim lp ! p = -1 \<longrightarrow>
       (\<exists>c. \<forall>xs. wrap64 (aff_value xs (indexingMap w ! p)) = c)) \<and>
    (\<forall>d<n. \<forall>xs ys. loopDimToPhysicalDim lp ! d \<noteq> -1 \<and> in64 (xs ! d) \<and> in64 (ys ! d) \<and>
       map (aff_value xs) (indexingMap w) = map (aff_value ys) (indexingMap w) \<longrightarrow> xs ! d = ys ! d)"
proof -
  let ?r = "length (lp_shape lp)" and ?l2p = "loopDimToPhysicalDim lp" and ?p2l = "physicalDimToLoopDim lp"
  have fits: "layout_fits n lp w"
    using assms select_layout_fits [of inside n ws None lp]
    by (auto simp: findCompatibleOutputLayoutPlan_def split: if_splits)
  note b = built_maps [OF fits [unfolded layout_fits_def, THEN conjunct2]]
  note lm = b [THEN conjunct2, THEN conjunct1, unfolded layout_maps_def]
  have follows: "wrap64 (aff_value xs (indexingMap w ! p)) = wrap64 (xs ! d)"
    if "p < ?r" "?p2l ! p = int d" for p d xs
  proof -
    obtain q k where "extractDimOffset (indexingMap w ! p) = Some (q, k)"
      "case q of None \<Rightarrow> ?p2l ! p = -1 | Some i \<Rightarrow> k = 0 \<and> i < n \<and> ?p2l ! p = int i"
      using b \<open>p < ?r\<close> by blast
    then show ?thesis using dim_offset_value [of _ q k xs] \<open>?p2l ! p = int d\<close> by (auto split: option.splits)
  qed
  have const: "\<exists>c. \<forall>xs. wrap64 (aff_value xs (indexingMap w ! p)) = c" if "p < ?r" "?p2l ! p = -1" for p
  proof -
    obtain q k where "extractDimOffset (indexingMap w ! p) = Some (q, k)"
      "case q of None \<Rightarrow> ?p2l ! p = -1 | Some i \<Rightarrow> k = 0 \<and> i < n \<and> ?p2l ! p = int i"
      using b \<open>p < ?r\<close> by blast
    then show ?thesis using dim_offset_value [of _ q k] \<open>?p2l ! p = -1\<close>
      by (intro exI [of _ "wrap64 k"]) (auto split: option.splits)
  qed
  have inj: "xs ! d = ys ! d"
    if d: "d < n" "?l2p ! d \<noteq> -1" and in64: "in64 (xs ! d)" "in64 (ys ! d)"
      and eq: "map (aff_value xs) (indexingMap w) = map (aff_value ys) (indexingMap w)" for d xs ys
  proof -
    obtain p where p: "p < ?r" "?l2p ! d = int p" using lm d by blast
    then have "?p2l ! p = int d" using lm d(1) by blast
    moreover have "aff_value xs (indexingMap w ! p) = aff_value ys (indexingMap w ! p)"
      using arg_cong [OF eq, of "\<lambda>l. l ! p"] b p(1) by simp
    ultimately show ?thesis using follows [OF p(1), of d xs] follows [OF p(1), of d ys] in64
      by (simp add: wrap64_id)
  qed
  show ?thesis using fits b lm follows const inj unfolding layout_fits_def by blast
qed

lemma output_layout_exact_witness:
  "let w = \<lparr>acc_memref = BlockArg 9 0 (MemRefTy [Some 8, Some 6, Some 2] (FloatTy 64)) None,
            indexingMap = [AffDim 1, AffDim 0, AffConst 1]\<rparr>;
       lp = the (findCompatibleOutputLayoutPlan (\<lambda>v. False) 2 [w])
   in loopDimToPhysicalDim lp = [1, 0] \<and> physicalDimToLoopDim lp = [1, 0, -1] \<and>
      wrap64 (aff_value [4, 3] (indexingMap w ! 0)) = wrap64 3"
proof -
  let ?m = "BlockArg 9 0 (MemRefTy [Some 8, Some 6, Some 2] (FloatTy 64)) None"
  let ?w = "\<lparr>acc_memref = ?m, indexingMap = [AffDim 1, AffDim 0, AffConst 1]\<rparr>"
  let ?lp = "\<lparr>lp_root = ?m, lp_shape = [8, 6, 2], loopDimToPhysicalDim = [1, 0],
              physicalDimToLoopDim = [1, 0, -1]\<rparr>"
  have lp: "findCompatibleOutputLayoutPlan (\<lambda>v. False) 2 [?w] = Some ?lp" by code_simp
  have "?w \<in> set [?w]" "\<not> False" by simp_all
  note fits = output_layout_exact [OF lp this, THEN conjunct2, THEN conjunct2, THEN conjunct1]
  have "wrap64 (aff_value [4, 3] (indexingMap ?w ! 0)) = wrap64 ([4, 3] ! 1)"
    using fits [rule_format, of 1 0] by simp
  then show ?thesis using lp by (simp add: Let_def)
qed

section \<open>What a classification says\<close>

definition ignores :: "nat \<Rightarrow> affine_map \<Rightarrow> bool" where
  "ignores d m \<longleftrightarrow> (\<forall>xs y. map (aff_value (xs[d := y])) m = map (aff_value xs) m)"

lemma unused_ignored: "\<not> list_ex (isFunctionOfDim d) m \<Longrightarrow> ignores d m"
  unfolding ignores_def using unused_dims by blast

lemma exact_use_ignores:
  "hasExactDimUse m (bits n ds) n \<Longrightarrow> d < n \<Longrightarrow> d \<notin> set ds \<Longrightarrow> ignores d m"
  by (intro unused_ignored) (auto simp: hasExactDimUse_def getUsedDims_def bits_def)

lemma reduction_dims_ignored:
  "d < n \<Longrightarrow> computeIteratorTypes n outs ! d = IterReduction \<Longrightarrow> m \<in> set outs \<Longrightarrow> ignores d m"
  by (intro unused_ignored) (auto simp: computeIteratorTypes_def list_ex_iff split: if_splits)

lemma no_constant_offset:
  assumes "\<not> hasConstantOffsets m" "e \<in> set m" "extractDimOffset e = Some (Some d, k)"
  shows "wrap64 (aff_value xs e) = wrap64 (xs ! d)"
proof -
  have "k = 0" using assms by (force simp: hasConstantOffsets_def list_ex_iff)
  then show ?thesis using dim_offset_value [OF assms(3), of xs] by simp
qed

lemma three_types:
  assumes "length ts = 3" "length (dims_of_type IterParallel ts) = 2" "length (dims_of_type IterReduction ts) = 1"
  obtains i j k where "dims_of_type IterParallel ts = [i, j]" "dims_of_type IterReduction ts = [k]"
    "{i, j, k} = {0, 1, 2}" "i \<noteq> j" "i \<noteq> k" "j \<noteq> k"
proof -
  obtain a b c where ts: "ts = [a, b, c]"
    using assms(1) by (metis (no_types, opaque_lifting) length_0_conv length_Suc_conv numeral_3_eq_3)
  have u: "[0..<length ts] = [0, 1, 2]" by (simp add: ts upt_rec)
  show ?thesis using assms(2,3) that unfolding dims_of_type_def u unfolding ts
    by (cases a; cases b; cases c) (auto simp: insert_commute)
qed

lemma matmul_shape:
  assumes "hasCanonicalMatmulAccessShape rs outs (computeIteratorTypes n outs) n"
  shows "n = 3 \<and> (\<exists>i j k. {i, j, k} = {0, 1, 2} \<and> computeIteratorTypes n outs ! k = IterReduction \<and>
    (\<exists>m\<in>set outs. ignores k m) \<and> (\<exists>l\<in>set rs. ignores j (indexingMap l)) \<and>
    (\<exists>r\<in>set rs. ignores i (indexingMap r)))"
proof -
  let ?ts = "computeIteratorTypes n outs"
  have n: "n = 3" and len: "length (dims_of_type IterParallel ?ts) = 2" "length (dims_of_type IterReduction ?ts) = 1"
    using assms by (auto simp: hasCanonicalMatmulAccessShape_def Let_def split: if_splits)
  have "length ?ts = 3" by (simp add: computeIteratorTypes_def n)
  from three_types [OF this len] obtain i j k where ijk: "dims_of_type IterParallel ?ts = [i, j]"
    "dims_of_type IterReduction ?ts = [k]" "{i, j, k} = {0, 1, 2}" "i \<noteq> j" "i \<noteq> k" "j \<noteq> k" .
  have "i \<in> {0, 1, 2}" "j \<in> {0, 1, 2}" "k \<in> {0, 1, 2}" unfolding ijk(3) [symmetric] by simp_all
  then have b: "i < n" "j < n" "k < n" by (auto simp: n)
  have "k \<in> set (dims_of_type IterReduction ?ts)" using ijk(2) by simp
  then have red: "?ts ! k = IterReduction" by (simp add: dims_of_type_def)
  have "hasCanonicalMatmulAccessShape rs outs ?ts n =
      (list_ex (\<lambda>m. hasExactDimUse m (bits n [i, j]) n) outs \<and>
       list_ex (\<lambda>r. hasExactDimUse (indexingMap r) (bits n [i, k]) n) rs \<and>
       list_ex (\<lambda>r. hasExactDimUse (indexingMap r) (bits n [k, j]) n) rs)"
    unfolding hasCanonicalMatmulAccessShape_def Let_def ijk(1,2) using n by simp
  then have use: "list_ex (\<lambda>m. hasExactDimUse m (bits n [i, j]) n) outs"
    "list_ex (\<lambda>r. hasExactDimUse (indexingMap r) (bits n [i, k]) n) rs"
    "list_ex (\<lambda>r. hasExactDimUse (indexingMap r) (bits n [k, j]) n) rs"
    using assms by blast+
  have "\<exists>m\<in>set outs. ignores k m" using use(1) exact_use_ignores [OF _ b(3)] ijk(5,6)
    by (fastforce simp: list_ex_iff)
  moreover have "\<exists>l\<in>set rs. ignores j (indexingMap l)" using use(2) exact_use_ignores [OF _ b(2)] ijk(4,6)
    by (fastforce simp: list_ex_iff)
  moreover have "\<exists>r\<in>set rs. ignores i (indexingMap r)" using use(3) exact_use_ignores [OF _ b(1)] ijk(4,5)
    by (fastforce simp: list_ex_iff)
  ultimately show ?thesis using n ijk(3) red by blast
qed

text \<open>
  A reduction dimension does not move any output. In a loop classified as elementwise every
  dimension is parallel, and a read coordinate of the form dimension plus offset is the
  induction variable itself. In a loop classified as a matrix product there are three
  dimensions \<open>i\<close>, \<open>j\<close>, \<open>k\<close>, an output that does not depend on \<open>k\<close>, a read that does not depend
  on \<open>j\<close> and one that does not depend on \<open>i\<close>.
\<close>

theorem classification_meaning:
  assumes "ts = computeIteratorTypes n outs"
  shows "(\<forall>d<n. ts ! d = IterReduction \<longrightarrow> (\<forall>m\<in>set outs. ignores d m)) \<and>
    (classifyPattern rs outs ts n = ClElementwise \<longrightarrow>
       (\<forall>d<n. ts ! d = IterParallel) \<and>
       (\<forall>r\<in>set rs. \<forall>e\<in>set (indexingMap r). \<forall>d k xs. extractDimOffset e = Some (Some d, k) \<longrightarrow>
          wrap64 (aff_value xs e) = wrap64 (xs ! d))) \<and>
    (classifyPattern rs outs ts n = ClMatmul \<longrightarrow>
       n = 3 \<and> (\<exists>i j k. {i, j, k} = {0, 1, 2} \<and> ts ! k = IterReduction \<and>
         (\<exists>m\<in>set outs. ignores k m) \<and> (\<exists>l\<in>set rs. ignores j (indexingMap l)) \<and>
         (\<exists>r\<in>set rs. ignores i (indexingMap r))))"
proof (intro conjI)
  show "\<forall>d<n. ts ! d = IterReduction \<longrightarrow> (\<forall>m\<in>set outs. ignores d m)"
    using reduction_dims_ignored assms by blast
  show "classifyPattern rs outs ts n = ClElementwise \<longrightarrow>
       (\<forall>d<n. ts ! d = IterParallel) \<and>
       (\<forall>r\<in>set rs. \<forall>e\<in>set (indexingMap r). \<forall>d k xs. extractDimOffset e = Some (Some d, k) \<longrightarrow>
          wrap64 (aff_value xs e) = wrap64 (xs ! d))"
  proof
    assume c: "classifyPattern rs outs ts n = ClElementwise"
    then have none: "dims_of_type IterReduction ts = []" and no: "\<forall>r\<in>set rs. \<not> hasConstantOffsets (indexingMap r)"
      by (auto simp: classifyPattern_def Let_def list_ex_iff split: if_splits)
    have "ts ! d = IterParallel" if "d < n" for d
    proof (cases "ts ! d")
      case IterReduction
      then have "d \<in> set (dims_of_type IterReduction ts)"
        using that by (simp add: dims_of_type_def assms computeIteratorTypes_def)
      then show ?thesis by (simp add: none)
    qed
    then show "(\<forall>d<n. ts ! d = IterParallel) \<and>
       (\<forall>r\<in>set rs. \<forall>e\<in>set (indexingMap r). \<forall>d k xs. extractDimOffset e = Some (Some d, k) \<longrightarrow>
          wrap64 (aff_value xs e) = wrap64 (xs ! d))"
      using no_constant_offset no by blast
  qed
  have "hasCanonicalMatmulAccessShape rs outs ts n" if "classifyPattern rs outs ts n = ClMatmul"
    using that by (auto simp: classifyPattern_def Let_def split: if_splits)
  then show "classifyPattern rs outs ts n = ClMatmul \<longrightarrow>
       n = 3 \<and> (\<exists>i j k. {i, j, k} = {0, 1, 2} \<and> ts ! k = IterReduction \<and>
         (\<exists>m\<in>set outs. ignores k m) \<and> (\<exists>l\<in>set rs. ignores j (indexingMap l)) \<and>
         (\<exists>r\<in>set rs. ignores i (indexingMap r)))"
    using matmul_shape [of rs outs n] assms by blast
qed

definition matmul_map :: "nat \<Rightarrow> nat \<Rightarrow> affine_map" where
  "matmul_map d d' = [AffDim d, AffDim d']"

lemma classification_meaning_witness:
  "let m = BlockArg 9 0 (MemRefTy [None, None] (FloatTy 64)) None; outs = [matmul_map 0 1];
       rs = [\<lparr>acc_memref = m, indexingMap = matmul_map 0 2\<rparr>, \<lparr>acc_memref = m, indexingMap = matmul_map 2 1\<rparr>];
       ts = computeIteratorTypes 3 outs
   in ts = [IterParallel, IterParallel, IterReduction] \<and> classifyPattern rs outs ts 3 = ClMatmul \<and>
      ignores 2 (matmul_map 0 1) \<and> (\<exists>j. \<exists>l\<in>set rs. ignores j (indexingMap l))"
proof -
  let ?m = "BlockArg 9 0 (MemRefTy [None, None] (FloatTy 64)) None"
  let ?rs = "[\<lparr>acc_memref = ?m, indexingMap = matmul_map 0 2\<rparr>, \<lparr>acc_memref = ?m, indexingMap = matmul_map 2 1\<rparr>]"
  let ?ts = "[IterParallel, IterParallel, IterReduction]"
  have ts: "computeIteratorTypes 3 [matmul_map 0 1] = ?ts" by code_simp
  have c: "classifyPattern ?rs [matmul_map 0 1] ?ts 3 = ClMatmul" by code_simp
  note m = classification_meaning [OF ts [symmetric], of ?rs]
  have "ignores 2 (matmul_map 0 1)" using m [THEN conjunct1, rule_format, of 2] by simp
  moreover have "\<exists>j. \<exists>l\<in>set ?rs. ignores j (indexingMap l)"
    using m [THEN conjunct2, THEN conjunct2, rule_format, OF c] by blast
  ultimately show ?thesis unfolding Let_def ts by (simp only: c simp_thms)
qed

text \<open>
  Only the form dimension plus offset is looked at: a loop that reads element \<open>2 i + 1\<close>, or
  \<open>i + j + 1\<close>, next to its own is elementwise.
\<close>

lemma strided_neighbour_is_elementwise:
  "let e = AffAdd (AffMul (AffDim 0) (AffConst 2)) (AffConst 1); outs = [[AffDim 0]];
       rs = [\<lparr>acc_memref = BlockArg 9 0 (MemRefTy [None] (FloatTy 64)) None, indexingMap = [e]\<rparr>]
   in classifyPattern rs outs (computeIteratorTypes 1 outs) 1 = ClElementwise \<and> aff_value [3] e = 7"
  by code_simp

section \<open>Access maps of a loop\<close>

text \<open>
  The access map built for the indices of a load or store gives their values: in a run where
  the induction variables have the values \<open>xs\<close>, coordinate \<open>k\<close> of the access is the value of
  expression \<open>k\<close> at \<open>xs\<close>, for any builder of affine expressions that keeps values.
\<close>

theorem access_map_value:
  assumes "affine_builder B" "tryBuildIndexingMap B indices ivs = Some m"
    and "\<forall>k<length ivs. eval e (ivs ! k) = Some (xs ! k)"
    and "\<forall>v\<in>set indices. fold_safe e v \<and> eval e v \<noteq> None"
  shows "length m = length indices \<and>
    (\<forall>k<length indices. eval e (indices ! k) = Some (wrap64 (aff_value xs (m ! k))))"
proof -
  have all: "map (tryGetAffineExpr B ivs) indices = map Some m"
    using assms(2) by (simp add: tryBuildIndexingMap_def all_some_iff)
  then have len: "length m = length indices" by (metis length_map)
  have "eval e (indices ! k) = Some (wrap64 (aff_value xs (m ! k)))" if k: "k < length indices" for k
  proof -
    have "tryGetAffineExpr B ivs (indices ! k) = Some (m ! k)"
      using arg_cong [OF all, of "\<lambda>l. l ! k"] k len by simp
    moreover have "fold_safe e (indices ! k)" "eval e (indices ! k) \<noteq> None" using assms(4) k by auto
    ultimately show ?thesis using affine_builder.affine_value [OF assms(1)] assms(3) by fastforce
  qed
  then show ?thesis using len by blast
qed

lemma access_map_value_witness:
  "let i = BlockArg 1 0 IndexTy None; idx = Bin 2 IndexTy SubI (Bin 3 IndexTy MulI i (index_const 4 2)) (index_const 5 1);
       e = no_env\<lparr>arg_val := (\<lambda>b n. 10)\<rparr>
   in tryBuildIndexingMap folding_ops [idx] [i] = Some [AffAdd (AffMul (AffDim 0) (AffConst 2)) (AffConst (-1))] \<and>
      eval e idx = Some (wrap64 (aff_value [10] (AffAdd (AffMul (AffDim 0) (AffConst 2)) (AffConst (-1)))))"
proof -
  let ?i = "BlockArg 1 0 IndexTy None"
  let ?idx = "Bin 2 IndexTy SubI (Bin 3 IndexTy MulI ?i (index_const 4 2)) (index_const 5 1)"
  let ?e = "no_env\<lparr>arg_val := (\<lambda>b n. 10)\<rparr>"
  have m: "tryBuildIndexingMap folding_ops [?idx] [?i] =
      Some [AffAdd (AffMul (AffDim 0) (AffConst 2)) (AffConst (-1))]" by code_simp
  have "eval ?e ?i = Some 10" "fold_safe ?e ?idx" "eval ?e ?idx = Some 19" by code_simp+
  then have "eval ?e ([?idx] ! 0) =
      Some (wrap64 (aff_value [10] ([AffAdd (AffMul (AffDim 0) (AffConst 2)) (AffConst (-1))] ! 0)))"
    using access_map_value [OF folding.affine_builder_axioms m, of ?e "[10]"] by simp
  then show ?thesis using m by (simp add: Let_def)
qed

section \<open>Row-major accesses\<close>

lemma linearized_shape:
  "linearized P req inner o1 s1 = Some (ou, inn, st) \<Longrightarrow>
     ou = stripNumericCasts o1 \<and> inn = inner \<and> st = stripNumericCasts s1 \<and>
     isIndex (type_of ou) \<and> isIndex (type_of st) \<and> (\<forall>s. req = Some s \<longrightarrow> sameValue P st s)"
  by (auto simp: linearized_def Let_def split: if_splits option.splits)

lemma linear_mul_shape:
  assumes "matchLinearizedMul P is_iv m inner req = Some (ou, inn, st)"
  obtains i t p q where "stripNumericCasts m = Bin i t MulI p q" "inn = stripNumericCasts inner"
    "ou = stripNumericCasts p \<and> st = stripNumericCasts q \<or> ou = stripNumericCasts q \<and> st = stripNumericCasts p"
    "isIndex (type_of st)" "\<forall>s. req = Some s \<longrightarrow> sameValue P st s"
proof -
  obtain i t p q where m: "stripNumericCasts m = Bin i t MulI p q"
    using assms by (auto simp: matchLinearizedMul_def Let_def split: val.splits if_splits)
  then consider "linearized P req (stripNumericCasts inner) (stripNumericCasts p) (stripNumericCasts q) = Some (ou, inn, st)"
    | "linearized P req (stripNumericCasts inner) (stripNumericCasts q) (stripNumericCasts p) = Some (ou, inn, st)"
    using assms by (auto simp: matchLinearizedMul_def Let_def split: option.splits if_splits)
  then show ?thesis using that [OF m] by cases (auto dest!: linearized_shape)
qed

text \<open>
  A linearised index is decomposed exactly: the index is the outer index times the stride
  plus the inner index, and where a stride is asked for, the stride found has its value. A flat
  size split by a stride is rows times stride.
\<close>

theorem row_major_decomposition:
  assumes "services_sound P e" "fold_safe e index" "eval e index = Some x"
    and "decomposeRowMajorLinearizedIndex P is_iv index req = Some (ou, inn, st)"
    and "\<forall>s. req = Some s \<longrightarrow> fold_safe e s \<and> type_of s \<noteq> IntTy 1"
  shows "\<exists>o1 i1 s1. eval e ou = Some o1 \<and> eval e inn = Some i1 \<and> eval e st = Some s1 \<and>
    x = wrap64 (o1 * s1 + i1) \<and> (\<forall>s y. req = Some s \<and> eval e s = Some y \<longrightarrow> s1 = y)"
proof -
  obtain i t a b where ix: "stripNumericCasts index = Bin i t AddI a b"
    and m: "matchLinearizedMul P is_iv a b req = Some (ou, inn, st) \<or>
            matchLinearizedMul P is_iv b a req = Some (ou, inn, st)"
    using assms(4) by (auto simp: decomposeRowMajorLinearizedIndex_def split: val.splits binop.splits option.splits)
  have s: "width t = 64" "fold_safe e a" "fold_safe e b" "eval e (Bin i t AddI a b) = Some x"
    using strip_safe [OF assms(2)] assms(3) unfolding ix by auto
  then obtain y z where yz: "eval e a = Some y" "eval e b = Some z" "x = wrap64 (y + z)"
    by (auto simp: sgn_at_64 split: option.splits)
  have main: "\<exists>o1 i1 s1. eval e ou = Some o1 \<and> eval e inn = Some i1 \<and> eval e st = Some s1 \<and>
      wrap64 (u + v) = wrap64 (o1 * s1 + i1) \<and> (\<forall>s y. req = Some s \<and> eval e s = Some y \<longrightarrow> s1 = y)"
    if mm: "matchLinearizedMul P is_iv p q req = Some (ou, inn, st)"
      and p: "fold_safe e p" "eval e p = Some u" and q: "fold_safe e q" "eval e q = Some v" for p q u v
    using mm
  proof (rule linear_mul_shape)
    fix j t' p1 p2
    assume h: "stripNumericCasts p = Bin j t' MulI p1 p2" "inn = stripNumericCasts q"
      "ou = stripNumericCasts p1 \<and> st = stripNumericCasts p2 \<or> ou = stripNumericCasts p2 \<and> st = stripNumericCasts p1"
      "isIndex (type_of st)" "\<forall>s. req = Some s \<longrightarrow> sameValue P st s"
    have f: "width t' = 64" "fold_safe e p1" "fold_safe e p2" "eval e (Bin j t' MulI p1 p2) = Some u"
      using strip_safe [OF p(1)] p(2) unfolding h(1) by auto
    then obtain c d where cd: "eval e p1 = Some c" "eval e p2 = Some d" "u = wrap64 (c * d)"
      by (auto simp: sgn_at_64 split: option.splits)
    have st: "fold_safe e st" "type_of st \<noteq> IntTy 1"
      using h(3,4) strip_safe [OF f(2)] strip_safe [OF f(3)] by (auto simp del: One_nat_def)
    have same: "s1 = y" if "req = Some s" "eval e s = Some y" "eval e st = Some s1" for s y s1
      using sameValue_value [OF assms(1), of st s s1 y] that h(5) assms(5) st by blast
    have w: "wrap64 (u + v) = wrap64 (c * d + v)"
      using wrap64_add [of "c * d" "wrap64 v"] wrap64_add [of "c * d" v] wrap64_add [of "wrap64 (c * d)" v]
      by (simp add: cd(3))
    then have w2: "wrap64 (u + v) = wrap64 (d * c + v)" by (subst mult.commute)
    have inn: "eval e inn = Some v" using strip_safe [OF q(1)] q(2) h(2) by simp
    from h(3) show ?thesis
    proof (elim disjE conjE)
      assume sh: "ou = stripNumericCasts p1" "st = stripNumericCasts p2"
      have ev: "eval e ou = Some c" "eval e st = Some d"
        using strip_safe [OF f(2)] strip_safe [OF f(3)] cd(1,2) by (simp_all add: sh)
      have "\<forall>s y. req = Some s \<and> eval e s = Some y \<longrightarrow> d = y" using same [OF _ _ ev(2)] by blast
      then show ?thesis using w inn ev
        by (intro exI [of _ c] exI [of _ v] exI [of _ d] conjI) assumption+
    next
      assume sh: "ou = stripNumericCasts p2" "st = stripNumericCasts p1"
      have ev: "eval e ou = Some d" "eval e st = Some c"
        using strip_safe [OF f(2)] strip_safe [OF f(3)] cd(1,2) by (simp_all add: sh)
      have "\<forall>s y. req = Some s \<and> eval e s = Some y \<longrightarrow> c = y" using same [OF _ _ ev(2)] by blast
      then show ?thesis using w2 inn ev
        by (intro exI [of _ d] exI [of _ v] exI [of _ c] conjI) assumption+
    qed
  qed
  from m show ?thesis
  proof
    assume "matchLinearizedMul P is_iv a b req = Some (ou, inn, st)"
    from main [OF this s(2) yz(1) s(3) yz(2)] show ?thesis unfolding yz(3) .
  next
    assume "matchLinearizedMul P is_iv b a req = Some (ou, inn, st)"
    from main [OF this s(3) yz(2) s(2) yz(1)] show ?thesis unfolding yz(3) add.commute [of y z] .
  qed
qed

lemma row_major_decomposition_witness:
  "let i = BlockArg 1 0 IndexTy None; j = BlockArg 1 1 IndexTy None; n = index_const 4 16;
       index = Bin 2 IndexTy AddI (Bin 3 IndexTy MulI i n) j; e = no_env\<lparr>arg_val := (\<lambda>b k. 5 + int k)\<rparr>
   in decomposeRowMajorLinearizedIndex no_services (\<lambda>v. v = i \<or> v = j) index None = Some (i, j, n) \<and>
      the (eval e index) = wrap64 (the (eval e i) * 16 + the (eval e j))"
proof -
  let ?i = "BlockArg 1 0 IndexTy None" and ?j = "BlockArg 1 1 IndexTy None" and ?n = "index_const 4 16"
  let ?index = "Bin 2 IndexTy AddI (Bin 3 IndexTy MulI ?i ?n) ?j"
  let ?e = "no_env\<lparr>arg_val := (\<lambda>b k. 5 + int k)\<rparr>"
  have d: "decomposeRowMajorLinearizedIndex no_services (\<lambda>v. v = ?i \<or> v = ?j) ?index None = Some (?i, ?j, ?n)"
    by code_simp
  have ev: "fold_safe ?e ?index" "eval ?e ?index = Some 86" "eval ?e ?n = Some 16" by code_simp+
  have svc: "services_sound no_services ?e"
    by (simp add: services_sound_def no_services_def no_env_def)
  obtain o1 i1 s1 where "eval ?e ?i = Some o1" "eval ?e ?j = Some i1" "eval ?e ?n = Some s1" "86 = wrap64 (o1 * s1 + i1)"
    using row_major_decomposition [OF svc ev(1,2) d] by blast
  then show ?thesis using d ev(2,3) by (simp add: Let_def del: eval.simps)
qed

end
