(* ===== verification/SdeRegion.thy ===== *)
theory SdeRegion
  imports ValueTracing AffineAccess
begin

text \<open>
  Regions of SDE operations as the planning passes walk them, and the summary of their memory
  effects (\<open>sde/Analysis/SdeAnalysisUtils.h\<close>). The specification is a small semantics of two
  units that run side by side: without a write conflict between their summaries every
  interleaving of their accesses has the outcome of running them one after the other.
\<close>

section \<open>Operations and walks\<close>

datatype effect = EffRead | EffWrite | EffAlloc | EffFree

text \<open>
  The kinds of operations the passes tell apart. A scheduling unit has its lower bounds, upper
  bounds, steps and reduction accumulators and the arguments of its body; a compute region whether
  it is parallel, its iteration arguments and the arguments of its body; a loop its induction
  variable, its bounds and its other operands; a barrier the tokens it waits for, known by the
  operation that makes them; a load the accessed memref and the indices; a store the value, the
  memref and the indices; a call the name of the function and the operands. For any other
  operation: its operands, the effects its interface declares, if it has one, whether its effects
  are those of its regions, and whether it is a terminator.
\<close>

datatype op_kind =
    SuIterateK (su_lower: "val list") (su_upper: "val list") (su_steps: "val list")
      (su_accumulators: "val list") (su_args: "val list")
  | SuDistributeK
  | CuRegionK bool "val list" "val list"
  | ForK val val val "val list"
  | IfK val
  | SuBarrierK "nat list"
  | ControlTokenK
  | LoadK val "val list"
  | StoreK val val "val list"
  | AllocK "val list"
  | DeallocK val
  | CallK string "val list"
  | YieldK "val list"
  | OtherK "val list" "effect list option" bool bool

fun isSuIterate :: "op_kind \<Rightarrow> bool" where
  "isSuIterate (SuIterateK _ _ _ _ _) = True"
| "isSuIterate _ = False"

fun isSuBarrier :: "op_kind \<Rightarrow> bool" where
  "isSuBarrier (SuBarrierK _) = True"
| "isSuBarrier _ = False"

fun isFor :: "op_kind \<Rightarrow> bool" where
  "isFor (ForK _ _ _ _) = True"
| "isFor _ = False"

fun is_terminator :: "op_kind \<Rightarrow> bool" where
  "is_terminator (YieldK _) = True"
| "is_terminator (OtherK _ _ _ t) = t"
| "is_terminator _ = False"

text \<open>
  An operation with its identity, its results and, for each of its regions, the operations of the
  block, the terminator included; a region without a block is the empty list.
\<close>

datatype sop = Op (sid: nat) (skind: op_kind) (sresults: "val list") (sregions: "sop list list")

definition body_of :: "sop \<Rightarrow> sop list" where
  "body_of op = (case sregions op of [] \<Rightarrow> [] | b # bs \<Rightarrow> b)"

definition without_terminator :: "sop list \<Rightarrow> sop list" where
  "without_terminator b = butlast b"

text \<open>The values an operation uses.\<close>

fun op_uses :: "op_kind \<Rightarrow> val list" where
  "op_uses (SuIterateK ls us ss as _) = ls @ us @ ss @ as"
| "op_uses (CuRegionK _ xs _) = xs"
| "op_uses (ForK _ l u xs) = l # u # xs"
| "op_uses (IfK c) = [c]"
| "op_uses (LoadK m xs) = m # xs"
| "op_uses (StoreK v m xs) = v # m # xs"
| "op_uses (AllocK xs) = xs"
| "op_uses (DeallocK m) = [m]"
| "op_uses (CallK f xs) = xs"
| "op_uses (YieldK xs) = xs"
| "op_uses (OtherK xs _ _ _) = xs"
| "op_uses _ = []"

fun effect_iface :: "op_kind \<Rightarrow> effect list option" where
  "effect_iface (SuBarrierK _) = Some [EffWrite]"
| "effect_iface ControlTokenK = Some [EffWrite]"
| "effect_iface (LoadK _ _) = Some [EffRead]"
| "effect_iface (StoreK _ _ _) = Some [EffWrite]"
| "effect_iface (AllocK _) = Some [EffAlloc]"
| "effect_iface (DeallocK _) = Some [EffFree]"
| "effect_iface (YieldK _) = Some []"
| "effect_iface (OtherK _ es _ _) = es"
| "effect_iface _ = None"

fun recursive_effects :: "op_kind \<Rightarrow> bool" where
  "recursive_effects (SuIterateK _ _ _ _ _) = True"
| "recursive_effects SuDistributeK = True"
| "recursive_effects (CuRegionK _ _ _) = True"
| "recursive_effects (ForK _ _ _ _) = True"
| "recursive_effects (IfK _) = True"
| "recursive_effects (OtherK _ _ r _) = r"
| "recursive_effects _ = False"

text \<open>MLIR's \<open>isMemoryEffectFree\<close>, from the interface and the trait of the operation.\<close>

fun isMemoryEffectFree :: "sop \<Rightarrow> bool" where
  "isMemoryEffectFree (Op i k vs rs) =
     (case effect_iface k of
        Some es \<Rightarrow> es = [] \<and> (recursive_effects k \<longrightarrow> list_all (list_all isMemoryEffectFree) rs)
      | None \<Rightarrow> recursive_effects k \<and> list_all (list_all isMemoryEffectFree) rs)"

text \<open>\<open>Operation::walk\<close> visits the operations nested in an operation before the operation itself.\<close>

fun op_walk :: "sop \<Rightarrow> sop list" where
  "op_walk (Op i k vs rs) = concat (map (\<lambda>b. concat (map op_walk b)) rs) @ [Op i k vs rs]"

definition block_walk :: "sop list \<Rightarrow> sop list" where
  "block_walk b = concat (map op_walk b)"

definition region_walk :: "sop \<Rightarrow> sop list" where
  "region_walk op = concat (map block_walk (sregions op))"

definition isDefinedInside :: "sop \<Rightarrow> val \<Rightarrow> bool" where
  "isDefinedInside ancestor v = list_ex (\<lambda>q. v \<in> set (sresults q)) (op_walk ancestor)"

definition isUsedInside :: "sop \<Rightarrow> val \<Rightarrow> bool" where
  "isUsedInside ancestor v = list_ex (\<lambda>q. v \<in> set (op_uses (skind q))) (op_walk ancestor)"

definition iterates :: "sop list \<Rightarrow> sop list" where
  "iterates ops = filter (\<lambda>op. isSuIterate (skind op)) ops"

text \<open>
  The \<open>sde.su_iterate\<close> an operation stands for: itself, the last one of a distribution wrapper, or
  the only one nested in any other operation.
\<close>

fun only_iterate :: "sop list \<Rightarrow> sop option" where
  "only_iterate [] = None"
| "only_iterate (u # us) = (if list_all (\<lambda>v. sid v = sid u) us then Some u else None)"

definition findSuIterate :: "sop \<Rightarrow> sop option" where
  "findSuIterate op =
     (case skind op of
        SuIterateK ls us ss as args \<Rightarrow> Some op
      | SuDistributeK \<Rightarrow> (case iterates (region_walk op) of [] \<Rightarrow> None | us \<Rightarrow> Some (last us))
      | _ \<Rightarrow> only_iterate (iterates (op_walk op)))"

text \<open>The block of the computation: that of the first parallel compute region, if there is one.\<close>

fun isParallelRegion :: "op_kind \<Rightarrow> bool" where
  "isParallelRegion (CuRegionK par xs as) = par"
| "isParallelRegion _ = False"

definition compute_region :: "sop \<Rightarrow> sop option" where
  "compute_region op = List.find (\<lambda>q. isParallelRegion (skind q)) (without_terminator (body_of op))"

definition getSuIterateComputeBlock :: "sop \<Rightarrow> sop list" where
  "getSuIterateComputeBlock op =
     (case compute_region op of Some cu \<Rightarrow> body_of cu | None \<Rightarrow> body_of op)"

section \<open>Memory effects\<close>

record effect_summary =
  eff_reads :: "val list"
  eff_writes :: "val list"
  hasUnknownEffects :: bool

definition no_effects :: effect_summary where
  "no_effects = \<lparr>eff_reads = [], eff_writes = [], hasUnknownEffects = False\<rparr>"

definition no_memory_effects :: "effect_summary \<Rightarrow> bool" where
  "no_memory_effects s = (eff_reads s = [] \<and> eff_writes s = [] \<and> \<not> hasUnknownEffects s)"

definition intersects :: "val list \<Rightarrow> val list \<Rightarrow> bool" where
  "intersects xs ys = list_ex (\<lambda>x. x \<in> set ys) xs"

definition hasWriteConflictWith :: "effect_summary \<Rightarrow> effect_summary \<Rightarrow> bool" where
  "hasWriteConflictWith l r =
     (intersects (eff_writes l) (eff_reads r) \<or> intersects (eff_writes l) (eff_writes r) \<or>
      intersects (eff_reads l) (eff_writes r))"

definition isKnownPureScalarLibmCallee :: "string \<Rightarrow> bool" where
  "isKnownPureScalarLibmCallee f =
     (f \<in> set [''expf'', ''exp'', ''exp2f'', ''exp2'', ''logf'', ''log'', ''log2f'', ''log2'', ''log10f'',
                ''log10'', ''sinf'', ''sin'', ''cosf'', ''cos'', ''tanf'', ''tan'', ''tanhf'', ''tanh'',
                ''erff'', ''erf'', ''powf'', ''pow'', ''sqrtf'', ''sqrt'', ''fabsf'', ''fabs''])"

text \<open>The types of the model have no vectors.\<close>

fun isScalarOrVectorValueType :: "ty \<Rightarrow> bool" where
  "isScalarOrVectorValueType IndexTy = True"
| "isScalarOrVectorValueType (IntTy _) = True"
| "isScalarOrVectorValueType (FloatTy _) = True"
| "isScalarOrVectorValueType _ = False"

definition isKnownPureScalarLibmCall :: "sop \<Rightarrow> bool" where
  "isKnownPureScalarLibmCall op =
     (case skind op of
        CallK f xs \<Rightarrow>
          (if \<not> isKnownPureScalarLibmCallee f then False
           else list_all (\<lambda>x. isScalarOrVectorValueType (type_of x)) xs \<and>
                list_all (\<lambda>x. isScalarOrVectorValueType (type_of x)) (sresults op))
      | _ \<Rightarrow> False)"

definition hasUnmodeledMemoryEffect :: "sop \<Rightarrow> bool" where
  "hasUnmodeledMemoryEffect op =
     (if is_terminator (skind op) then False
      else if (case skind op of LoadK m xs \<Rightarrow> True | StoreK v m xs \<Rightarrow> True | _ \<Rightarrow> False) then False
      else if isKnownPureScalarLibmCall op then False
      else if sregions op \<noteq> [] then False
      else case effect_iface (skind op) of
             Some es \<Rightarrow> list_ex (\<lambda>e. e = EffRead \<or> e = EffWrite) es
           | None \<Rightarrow> \<not> isMemoryEffectFree op)"

definition record_effect :: "sop \<Rightarrow> effect_summary \<Rightarrow> effect_summary" where
  "record_effect op s =
     (case skind op of
        LoadK m xs \<Rightarrow> s\<lparr>eff_reads := List.insert (stripMemrefViewOps m) (eff_reads s)\<rparr>
      | StoreK v m xs \<Rightarrow> s\<lparr>eff_writes := List.insert (stripMemrefViewOps m) (eff_writes s)\<rparr>
      | _ \<Rightarrow> if hasUnmodeledMemoryEffect op then s\<lparr>hasUnknownEffects := True\<rparr> else s)"

definition collectStructuredMemoryEffects :: "sop \<Rightarrow> effect_summary" where
  "collectStructuredMemoryEffects op = fold record_effect (region_walk op) no_effects"

definition hasInPlaceSelfRead :: "effect_summary \<Rightarrow> bool" where
  "hasInPlaceSelfRead s = intersects (eff_writes s) (eff_reads s)"

section \<open>What a summary says\<close>

lemma recorded:
  "set (eff_reads (fold record_effect ops s)) =
     set (eff_reads s) \<union> {stripMemrefViewOps m | m. \<exists>op\<in>set ops. \<exists>xs. skind op = LoadK m xs}"
  "set (eff_writes (fold record_effect ops s)) =
     set (eff_writes s) \<union> {stripMemrefViewOps m | m. \<exists>op\<in>set ops. \<exists>v xs. skind op = StoreK v m xs}"
  "hasUnknownEffects (fold record_effect ops s) \<longleftrightarrow>
     hasUnknownEffects s \<or> list_ex hasUnmodeledMemoryEffect ops"
proof (induction ops arbitrary: s)
  case (Cons op ops)
  case 1 show ?case by (subst fold_simps, subst Cons.IH(1)) (auto simp: record_effect_def split: op_kind.splits)
  case 2 show ?case by (subst fold_simps, subst Cons.IH(2)) (auto simp: record_effect_def split: op_kind.splits)
  case 3 show ?case
    by (subst fold_simps, subst Cons.IH(3))
      (auto simp: record_effect_def hasUnmodeledMemoryEffect_def split: op_kind.splits)
qed auto

lemma collected:
  "set (eff_reads (collectStructuredMemoryEffects op)) =
     {stripMemrefViewOps m | m. \<exists>q\<in>set (region_walk op). \<exists>xs. skind q = LoadK m xs}"
  "set (eff_writes (collectStructuredMemoryEffects op)) =
     {stripMemrefViewOps m | m. \<exists>q\<in>set (region_walk op). \<exists>v xs. skind q = StoreK v m xs}"
  "hasUnknownEffects (collectStructuredMemoryEffects op) \<longleftrightarrow>
     list_ex hasUnmodeledMemoryEffect (region_walk op)"
  unfolding collectStructuredMemoryEffects_def recorded by (simp_all add: no_effects_def)

lemma conflict_iff:
  "hasWriteConflictWith l r \<longleftrightarrow>
     set (eff_writes l) \<inter> (set (eff_reads r) \<union> set (eff_writes r)) \<noteq> {} \<or>
     set (eff_reads l) \<inter> set (eff_writes r) \<noteq> {}"
  by (auto simp: hasWriteConflictWith_def intersects_def list_ex_iff)

section \<open>Units side by side\<close>

text \<open>
  A unit with local state \<open>'l\<close> reads a root into its state or writes a value computed from its
  state to a root; the contents of a root is a number. Two units run in any interleaving of their
  actions.
\<close>

datatype 'l action = ReadAct val "'l \<Rightarrow> nat \<Rightarrow> 'l" | WriteAct val "'l \<Rightarrow> nat"

fun act :: "'l action \<Rightarrow> 'l \<times> (val \<Rightarrow> nat) \<Rightarrow> 'l \<times> (val \<Rightarrow> nat)" where
  "act (ReadAct r f) (l, m) = (f l (m r), m)"
| "act (WriteAct r g) (l, m) = (l, m(r := g l))"

fun joint_step :: "'l action + 'k action \<Rightarrow> 'l \<times> 'k \<times> (val \<Rightarrow> nat) \<Rightarrow> 'l \<times> 'k \<times> (val \<Rightarrow> nat)" where
  "joint_step (Inl a) (l, k, m) = (case act a (l, m) of (l', m') \<Rightarrow> (l', k, m'))"
| "joint_step (Inr a) (l, k, m) = (case act a (k, m) of (k', m') \<Rightarrow> (l, k', m'))"

definition run_joint :: "('l action + 'k action) list \<Rightarrow> 'l \<times> 'k \<times> (val \<Rightarrow> nat) \<Rightarrow> 'l \<times> 'k \<times> (val \<Rightarrow> nat)"
where
  "run_joint zs = fold joint_step zs"

text \<open>The actions an operation can take: those of the loads and stores nested in it.\<close>

fun performs :: "sop \<Rightarrow> 'l action \<Rightarrow> bool" where
  "performs op (ReadAct r f) = (\<exists>q\<in>set (region_walk op). \<exists>m xs. skind q = LoadK m xs \<and> stripMemrefViewOps m = r)"
| "performs op (WriteAct r g) = (\<exists>q\<in>set (region_walk op). \<exists>v m xs. skind q = StoreK v m xs \<and> stripMemrefViewOps m = r)"

fun independent_acts :: "'l action \<Rightarrow> 'k action \<Rightarrow> bool" where
  "independent_acts (ReadAct r f) (ReadAct s g) = True"
| "independent_acts (ReadAct r f) (WriteAct s g) = (r \<noteq> s)"
| "independent_acts (WriteAct r f) (ReadAct s g) = (r \<noteq> s)"
| "independent_acts (WriteAct r f) (WriteAct s g) = (r \<noteq> s)"

lemma independent_commute:
  assumes "independent_acts a b"
  shows "joint_step (Inl a) (joint_step (Inr b) s) = joint_step (Inr b) (joint_step (Inl a) s)"
proof -
  obtain l k m where s: "s = (l, k, m)" by (metis prod_cases3)
  show ?thesis using assms unfolding s
    by (cases a; cases b) (auto simp: fun_upd_twist)
qed

lemma performs_summary:
  "performs op (ReadAct r f) \<longleftrightarrow> r \<in> set (eff_reads (collectStructuredMemoryEffects op))"
  "performs op (WriteAct r g) \<longleftrightarrow> r \<in> set (eff_writes (collectStructuredMemoryEffects op))"
  unfolding collected by auto

lemma independent_units:
  assumes "\<not> hasWriteConflictWith (collectStructuredMemoryEffects p) (collectStructuredMemoryEffects q)"
    "performs p a" "performs q b"
  shows "independent_acts a b"
  using assms unfolding conflict_iff by (cases a; cases b) (auto simp: performs_summary simp del: performs.simps)

lemma move_right_action:
  assumes "\<forall>a\<in>set xs. independent_acts a b"
  shows "fold joint_step (map Inl xs) (joint_step (Inr b) s) = joint_step (Inr b) (fold joint_step (map Inl xs) s)"
  using assms by (induction xs arbitrary: s) (simp_all add: independent_commute)

lemma interleaving_outcome:
  assumes "\<forall>a\<in>set xs. \<forall>b\<in>set ys. independent_acts a b" "zs \<in> shuffles (map Inl xs) (map Inr ys)"
  shows "run_joint zs s = run_joint (map Inl xs @ map Inr ys) s"
  using assms
proof (induction zs arbitrary: xs ys s)
  case (Cons z zs)
  from Cons.prems(2) consider
      a as where "xs = a # as" "z = Inl a" "zs \<in> shuffles (map Inl as) (map Inr ys)"
    | b bs where "ys = b # bs" "z = Inr b" "zs \<in> shuffles (map Inl xs) (map Inr bs)"
    by (cases xs; cases ys) (auto simp: Cons_in_shuffles_iff)
  then show ?case
  proof cases
    case 1
    then show ?thesis using Cons.IH [of as ys] Cons.prems(1) by (simp add: run_joint_def)
  next
    case 2
    have "run_joint (z # zs) s = fold joint_step (map Inl xs @ map Inr bs) (joint_step (Inr b) s)"
      using Cons.IH [of xs bs] Cons.prems(1) 2 by (simp add: run_joint_def)
    then show ?thesis using Cons.prems(1) 2(1) by (simp add: run_joint_def move_right_action)
  qed
qed (simp add: run_joint_def)

end
