(* ===== verification/StructuredLoop.thy ===== *)
theory StructuredLoop
  imports SdeRegion
begin

text \<open>
  Analysis of the loop nest of a scheduling unit (\<open>sde/Analysis/StructuredOpAnalysis.cpp\<close> and the
  owner slices of \<open>sde/Analysis/SdeAnalysisUtils.h\<close>): the nest and its innermost body, the
  accesses with their index maps, the summary with the classification, and the tests that the
  accesses to a buffer stay within the slice of the owner.

  Given are the builders of affine expressions and the test \<open>libc\<close> whether a call allocates or
  frees scratch memory of its block through the C library.
\<close>

section \<open>Local scratch\<close>

text \<open>A memref is scratch of a block when an operation of the block itself defines its root.\<close>

definition isLocalScratchMemref :: "val \<Rightarrow> sop list \<Rightarrow> bool" where
  "isLocalScratchMemref v scope = list_ex (\<lambda>q. stripMemrefViewOps v \<in> set (sresults q)) scope"

definition isLocalScratchSideEffectUsedByLoop :: "sop \<Rightarrow> sop list \<Rightarrow> sop \<Rightarrow> bool" where
  "isLocalScratchSideEffectUsedByLoop op scope loop =
     (let isLoopScratchAccess = (\<lambda>m. isLocalScratchMemref m scope \<and> isUsedInside loop (stripMemrefViewOps m))
      in case skind op of
           AllocK xs \<Rightarrow> list_all (\<lambda>r. isLocalScratchMemref r scope \<and> isUsedInside loop r) (sresults op)
         | LoadK m xs \<Rightarrow> isLoopScratchAccess m
         | StoreK v m xs \<Rightarrow> isLoopScratchAccess m
         | DeallocK m \<Rightarrow> isLoopScratchAccess m
         | _ \<Rightarrow> False)"

definition isLocalScratchSideEffectUsedByRegions :: "(sop \<Rightarrow> bool) \<Rightarrow> sop \<Rightarrow> sop list \<Rightarrow> sop list \<Rightarrow> bool" where
  "isLocalScratchSideEffectUsedByRegions libc op scope loops =
     (if loops = [] then False
      else if libc op then True
      else list_ex (isLocalScratchSideEffectUsedByLoop op scope) loops)"

definition boundarySideEffectsAreLocalScratch :: "(sop \<Rightarrow> bool) \<Rightarrow> sop list \<Rightarrow> sop list \<Rightarrow> sop list \<Rightarrow> bool" where
  "boundarySideEffectsAreLocalScratch libc sideEffects scope loops =
     list_all (\<lambda>op. isLocalScratchSideEffectUsedByRegions libc op scope loops) sideEffects"

text \<open>The element accessed is itself a memref: a dereference of a pointer, not an access to data.\<close>

definition loads_memref :: "sop \<Rightarrow> bool" where
  "loads_memref op = list_ex (\<lambda>r. isMemRef (type_of r)) (sresults op)"

fun has_rank_zero :: "val \<Rightarrow> bool" where
  "has_rank_zero m = (case type_of m of MemRefTy [] t \<Rightarrow> True | _ \<Rightarrow> False)"

definition isRankZeroScalarMemrefAccess :: "sop \<Rightarrow> bool" where
  "isRankZeroScalarMemrefAccess op =
     (case skind op of
        LoadK m xs \<Rightarrow> \<not> loads_memref op \<and> has_rank_zero m
      | StoreK v m xs \<Rightarrow> \<not> isMemRef (type_of v) \<and> has_rank_zero m
      | _ \<Rightarrow> False)"

definition isEffectFreeBoundaryOp :: "sop \<Rightarrow> bool" where
  "isEffectFreeBoundaryOp op = (isMemoryEffectFree op \<or> isRankZeroScalarMemrefAccess op)"

text \<open>An effect on memory allocated inside the operation \<open>ownerScope\<close>.\<close>

definition isLocalScratchEffect :: "sop \<Rightarrow> sop \<Rightarrow> bool" where
  "isLocalScratchEffect op ownerScope =
     (case skind op of
        AllocK xs \<Rightarrow> list_all (isDefinedInside ownerScope) (sresults op) \<and> sresults op \<noteq> []
      | LoadK m xs \<Rightarrow> isDefinedInside ownerScope (stripMemrefViewOps m)
      | StoreK v m xs \<Rightarrow> isDefinedInside ownerScope (stripMemrefViewOps m)
      | DeallocK m \<Rightarrow> isDefinedInside ownerScope (stripMemrefViewOps m)
      | _ \<Rightarrow> False)"

section \<open>The nest\<close>

definition getBodyOps :: "sop list \<Rightarrow> sop list" where
  "getBodyOps body = filter (\<lambda>op. \<not> is_terminator (skind op)) body"

fun for_iv :: "sop \<Rightarrow> val list" where
  "for_iv op = (case skind op of ForK iv l u xs \<Rightarrow> [iv] | _ \<Rightarrow> [])"

lemma size_body: "op \<in> set ops \<Longrightarrow> size_list size (body_of op) < size_list size ops"
proof (induction ops)
  case (Cons q qs)
  have "size_list size (body_of q) < size q"
    by (cases q) (auto simp: body_of_def split: list.split)
  then show ?case using Cons by (auto dest: less_trans)
qed simp

text \<open>
  The induction variables from the outside in and the innermost body. A loop with other loops
  beside it, or with effects beside it that are not local scratch, ends the nest.
\<close>

function collectInner :: "(sop \<Rightarrow> bool) \<Rightarrow> sop list \<Rightarrow> val list \<Rightarrow> (val list \<times> sop list) option" where
  "collectInner libc body ivs =
     (let ops = getBodyOps body;
          loops = filter (\<lambda>op. isFor (skind op)) ops;
          around = filter (\<lambda>op. \<not> isFor (skind op) \<and> \<not> isEffectFreeBoundaryOp op) ops
      in case loops of
           [] \<Rightarrow> Some (ivs, body)
         | [f] \<Rightarrow>
             if length ops > 1 \<and> \<not> boundarySideEffectsAreLocalScratch libc around body loops
             then Some (ivs @ for_iv f, body)
             else collectInner libc (body_of f) (ivs @ for_iv f)
         | f # g # fs \<Rightarrow>
             if \<not> boundarySideEffectsAreLocalScratch libc around body loops then None
             else Some (ivs, body))"
  by auto
termination
proof (relation "measure (\<lambda>(libc, body, ivs). size_list size body)", simp, goal_cases)
  case (1 libc body ivs ops loops around f fs)
  then have "set (f # fs) = set (filter (\<lambda>op. isFor (skind op)) (getBodyOps body))" by metis
  then have "f \<in> set (filter (\<lambda>op. isFor (skind op)) (getBodyOps body))" by (metis list.set_intros(1))
  then have "f \<in> set body" unfolding getBodyOps_def by simp
  then show ?case using size_body by simp
qed

declare collectInner.simps [simp del]

definition collectPerfectNest :: "(sop \<Rightarrow> bool) \<Rightarrow> sop \<Rightarrow> (val list \<times> sop list) option" where
  "collectPerfectNest libc op =
     (case skind op of
        SuIterateK ls us ss as args \<Rightarrow>
          (if body_of op = [] \<or> args = [] then None
           else if length args < length ls then None
           else collectInner libc (getSuIterateComputeBlock op) (take (length ls) args))
      | _ \<Rightarrow> None)"

section \<open>Accesses\<close>

text \<open>
  The accesses of the blocks of a body, through conditionals and loops. An operation that is no
  access must be local scratch, a known pure call or free of effects; the flag of the code that an
  access was seen says that one of the lists grew.
\<close>

type_synonym access_lists = "access_entry list \<times> access_entry list"

fun join_accesses :: "access_lists option \<Rightarrow> access_lists option \<Rightarrow> access_lists option" where
  "join_accesses (Some (r, w)) (Some (r', w')) = Some (r @ r', w @ w')"
| "join_accesses _ _ = None"

definition entry_of :: "affine_ops \<Rightarrow> val list \<Rightarrow> val \<Rightarrow> val list \<Rightarrow> access_entry option" where
  "entry_of B ivs m xs =
     map_option (\<lambda>e. \<lparr>acc_memref = m, indexingMap = e\<rparr>) (tryBuildIndexingMap B xs ivs)"

definition plain_accesses :: "affine_ops \<Rightarrow> val list \<Rightarrow> sop \<Rightarrow> access_lists option" where
  "plain_accesses B ivs op =
     (case skind op of
        LoadK m xs \<Rightarrow>
          (if loads_memref op then Some ([], [])
           else if has_rank_zero m then Some ([], [])
           else map_option (\<lambda>e. ([e], [])) (entry_of B ivs m xs))
      | StoreK v m xs \<Rightarrow>
          (if isMemRef (type_of v) then Some ([], [])
           else if has_rank_zero m then Some ([], [])
           else map_option (\<lambda>e. ([], [e])) (entry_of B ivs m xs))
      | _ \<Rightarrow> if isKnownPureScalarLibmCall op then Some ([], [])
             else if isMemoryEffectFree op then Some ([], [])
             else None)"

definition skipped :: "(sop \<Rightarrow> bool) \<Rightarrow> sop \<Rightarrow> sop \<Rightarrow> bool" where
  "skipped libc scope op =
     (is_terminator (skind op) \<or> isLocalScratchEffect op scope \<or> libc op)"

fun enters :: "op_kind \<Rightarrow> bool" where
  "enters (IfK _) = True"
| "enters (ForK _ _ _ _) = True"
| "enters _ = False"

fun op_accesses :: "affine_ops \<Rightarrow> (sop \<Rightarrow> bool) \<Rightarrow> sop \<Rightarrow> val list \<Rightarrow> sop \<Rightarrow> access_lists option"
  and collectMemrefAccessesImpl ::
    "affine_ops \<Rightarrow> (sop \<Rightarrow> bool) \<Rightarrow> sop \<Rightarrow> val list \<Rightarrow> sop list \<Rightarrow> access_lists option"
  and regions_accesses ::
    "affine_ops \<Rightarrow> (sop \<Rightarrow> bool) \<Rightarrow> sop \<Rightarrow> val list \<Rightarrow> sop list list \<Rightarrow> access_lists option" where
  "op_accesses B libc scope ivs (Op i k vs rs) =
     (if skipped libc scope (Op i k vs rs) then Some ([], [])
      else if enters k then regions_accesses B libc scope ivs rs
      else plain_accesses B ivs (Op i k vs rs))"
| "collectMemrefAccessesImpl B libc scope ivs [] = Some ([], [])"
| "collectMemrefAccessesImpl B libc scope ivs (q # qs) =
     join_accesses (op_accesses B libc scope ivs q) (collectMemrefAccessesImpl B libc scope ivs qs)"
| "regions_accesses B libc scope ivs [] = Some ([], [])"
| "regions_accesses B libc scope ivs (b # bs) =
     join_accesses (collectMemrefAccessesImpl B libc scope ivs b) (regions_accesses B libc scope ivs bs)"

definition collectMemrefAccesses ::
  "affine_ops \<Rightarrow> (sop \<Rightarrow> bool) \<Rightarrow> sop \<Rightarrow> val list \<Rightarrow> sop list \<Rightarrow> access_lists option" where
  "collectMemrefAccesses B libc scope ivs body =
     (case collectMemrefAccessesImpl B libc scope ivs body of
        None \<Rightarrow> None
      | Some (r, w) \<Rightarrow> if r = [] \<and> w = [] then None else Some (r, w))"

definition appendNestedForIvs :: "sop list \<Rightarrow> val list \<Rightarrow> val list" where
  "appendNestedForIvs body ivs =
     fold (\<lambda>iv ivs. if iv \<in> set ivs then ivs else ivs @ [iv]) (concat (map for_iv (block_walk body))) ivs"

section \<open>Owner slices\<close>

text \<open>
  The loops of the module, \<open>loops\<close>, are triples of induction variable, lower and upper bound, such
  that a loop comes before the loops around it; the bounds of a loop only use induction variables
  of the loops around it.
\<close>

type_synonym loop_chain = "(val \<times> val \<times> val) list"

definition owner_iter_args :: "val \<Rightarrow> sop \<Rightarrow> val list" where
  "owner_iter_args loopIv cu =
     (case skind cu of
        CuRegionK par iters args \<Rightarrow>
          map snd (filter (\<lambda>(iter, a). iter = loopIv \<or> dependsOn 0 iter loopIv) (zip iters args))
      | _ \<Rightarrow> [])"

definition collectOwnerIndexValues :: "sop \<Rightarrow> val list" where
  "collectOwnerIndexValues op =
     (if body_of op = [] then []
      else case skind op of
        SuIterateK ls us ss as args \<Rightarrow>
          (if length args < length ls then []
           else case take (length ls) args of
             [] \<Rightarrow> []
           | loopIv # ivs \<Rightarrow>
               loopIv # (case compute_region op of None \<Rightarrow> [] | Some cu \<Rightarrow> owner_iter_args loopIv cu))
      | _ \<Rightarrow> [])"

definition isExactOwnerIndex :: "mlir \<Rightarrow> val \<Rightarrow> val list \<Rightarrow> bool" where
  "isExactOwnerIndex P index owners =
     (let (base, constantOffset) = stripConstantOffset (stripNumericCasts index)
      in if constantOffset \<noteq> 0 then False
         else list_ex (\<lambda>ow. sameValue P (stripNumericCasts base) ow) owners)"

fun isBlockArg :: "val \<Rightarrow> bool" where
  "isBlockArg (BlockArg _ _ _ _) = True"
| "isBlockArg _ = False"

fun isOwnerDependentIndex :: "mlir \<Rightarrow> loop_chain \<Rightarrow> val \<Rightarrow> val list \<Rightarrow> bool" where
  "isOwnerDependentIndex P [] index owners =
     (if isExactOwnerIndex P index owners then True
      else list_ex (\<lambda>ow. dependsOn 0 (stripNumericCasts index) ow) owners)"
| "isOwnerDependentIndex P ((iv, lb, ub) # loops) index owners =
     (if isExactOwnerIndex P index owners then True
      else if isBlockArg (stripNumericCasts index) \<and> stripNumericCasts index = iv
      then isOwnerDependentIndex P loops lb owners \<or> isOwnerDependentIndex P loops ub owners
      else isOwnerDependentIndex P loops index owners)"

definition collectExactOwnerIndexedPhysicalDims :: "mlir \<Rightarrow> loop_chain \<Rightarrow> val list \<Rightarrow> val list \<Rightarrow> int list" where
  "collectExactOwnerIndexedPhysicalDims P loops indices owners =
     map (\<lambda>(n, x). int n) (filter (\<lambda>(n, x). isOwnerDependentIndex P loops x owners) (enumerate 0 indices))"

text \<open>The memref and the indices of a load or store of data.\<close>

definition data_access :: "sop \<Rightarrow> (val \<times> val list) option" where
  "data_access op =
     (case skind op of
        LoadK m xs \<Rightarrow> if loads_memref op then None else Some (m, xs)
      | StoreK v m xs \<Rightarrow> if isMemRef (type_of v) then None else Some (m, xs)
      | _ \<Rightarrow> None)"

definition data_accesses :: "sop \<Rightarrow> (val \<times> val list) list" where
  "data_accesses op = List.map_filter data_access (region_walk op)"

definition owned_dim :: "mlir \<Rightarrow> val list \<Rightarrow> val list \<Rightarrow> int \<Rightarrow> bool" where
  "owned_dim P owners indices rawDim =
     (if rawDim < 0 \<or> nat rawDim \<ge> length indices then False
      else isExactOwnerIndex P (indices ! nat rawDim) owners)"

definition allRootAccessesStayWithinOwnerSlice :: "mlir \<Rightarrow> sop \<Rightarrow> val \<Rightarrow> int list \<Rightarrow> bool" where
  "allRootAccessesStayWithinOwnerSlice P op buf ownerDims =
     (if ownerDims = [] then False
      else
        let owners = collectOwnerIndexValues op;
            hits = filter (\<lambda>(m, xs). stripMemrefViewOps m = buf) (data_accesses op)
        in if owners = [] then False
           else list_all (\<lambda>(m, xs). isMemRef (type_of buf) \<and> \<not> has_rank_zero buf \<and> xs \<noteq> [] \<and>
                                    list_all (owned_dim P owners xs) ownerDims) hits \<and>
                hits \<noteq> [])"

definition hasAnyExactOwnerSliceAccess :: "mlir \<Rightarrow> sop \<Rightarrow> val \<Rightarrow> int list \<Rightarrow> bool" where
  "hasAnyExactOwnerSliceAccess P op buf ownerDims =
     (if ownerDims = [] then False
      else
        let owners = collectOwnerIndexValues op
        in if owners = [] then False
           else list_ex (\<lambda>(m, xs). normalizeOutputRoot m = buf \<and> xs \<noteq> [] \<and>
                                   list_all (owned_dim P owners xs) ownerDims) (data_accesses op))"

section \<open>Output plans\<close>

record output_plan =
  out_root :: val
  out_shape :: "int list"
  ownerPhysicalDims :: "int list"

definition stores_of :: "sop list \<Rightarrow> (val \<times> val list) list" where
  "stores_of b =
     List.map_filter (\<lambda>q. case skind q of StoreK v m xs \<Rightarrow> Some (m, xs) | _ \<Rightarrow> None)
       (block_walk (without_terminator b))"

fun static_shape_of :: "ty \<Rightarrow> int list option" where
  "static_shape_of (MemRefTy ds t) = (if ds = [] then None else all_some ds)"
| "static_shape_of _ = None"

text \<open>The first store to an external buffer of static shape whose first index belongs to the owner.\<close>

definition first_index_plan :: "mlir \<Rightarrow> sop \<Rightarrow> val list \<Rightarrow> val \<times> val list \<Rightarrow> output_plan option" where
  "first_index_plan P op owners st =
     (case st of (m, xs) \<Rightarrow>
        let base = stripMemrefViewOps m in
        if isDefinedInside op base then None
        else case xs of
          [] \<Rightarrow> None
        | x # ys \<Rightarrow>
            if \<not> (isExactOwnerIndex P x owners \<or> list_ex (dependsOn 0 x) owners) then None
            else map_option (\<lambda>sh. \<lparr>out_root = base, out_shape = sh, ownerPhysicalDims = [0]\<rparr>)
                   (static_shape_of (type_of base)))"

definition findLoopIndexedOutputPlan :: "mlir \<Rightarrow> sop \<Rightarrow> output_plan option" where
  "findLoopIndexedOutputPlan P op =
     (if body_of op = [] then None
      else
        let owners = collectOwnerIndexValues op
        in if owners = [] then None
           else case List.map_filter (first_index_plan P op owners) (stores_of (getSuIterateComputeBlock op)) of
                  [] \<Rightarrow> None
                | p # ps \<Rightarrow> Some p)"

text \<open>All stores to external buffers must agree on the shape and on the dimensions of the owner.\<close>

fun consistent_plan ::
  "mlir \<Rightarrow> loop_chain \<Rightarrow> sop \<Rightarrow> val list \<Rightarrow> (val \<times> val list) list \<Rightarrow> output_plan option \<Rightarrow> output_plan option" where
  "consistent_plan P loops op owners [] selected = selected"
| "consistent_plan P loops op owners ((m, xs) # sts) selected =
     (let base = stripMemrefViewOps m in
      if isDefinedInside op base then consistent_plan P loops op owners sts selected
      else if \<not> isMemRef (type_of base) \<or> has_rank_zero base \<or> xs = [] then None
      else
        let dims = collectExactOwnerIndexedPhysicalDims P loops xs owners
        in if dims = [] then None
           else case static_shape_of (type_of base) of
             None \<Rightarrow> None
           | Some sh \<Rightarrow>
               (case selected of
                  None \<Rightarrow> consistent_plan P loops op owners sts
                            (Some \<lparr>out_root = base, out_shape = sh, ownerPhysicalDims = dims\<rparr>)
                | Some p \<Rightarrow>
                    if sh \<noteq> out_shape p \<or> dims \<noteq> ownerPhysicalDims p then None
                    else consistent_plan P loops op owners sts selected))"

definition findConsistentLoopIndexedOutputPlanWithOwnerDims :: "mlir \<Rightarrow> loop_chain \<Rightarrow> sop \<Rightarrow> output_plan option"
where
  "findConsistentLoopIndexedOutputPlanWithOwnerDims P loops op =
     (if body_of op = [] then None
      else
        let owners = collectOwnerIndexValues op
        in if owners = [] then None
           else consistent_plan P loops op owners (stores_of (getSuIterateComputeBlock op)) None)"

definition isOwnerLocalPipelineReduction :: "mlir \<Rightarrow> sop \<Rightarrow> bool" where
  "isOwnerLocalPipelineReduction P op =
     (case skind op of
        SuIterateK ls us ss accs args \<Rightarrow>
          (if accs \<noteq> [] then False
           else if length ls \<noteq> 1 then False
           else case findLoopIndexedOutputPlan P op of
             None \<Rightarrow> False
           | Some plan \<Rightarrow>
               if ownerPhysicalDims plan = [] then False
               else
                 let effects = collectStructuredMemoryEffects op;
                     stays = (\<lambda>v. allRootAccessesStayWithinOwnerSlice P op v (ownerPhysicalDims plan))
                 in if hasUnknownEffects effects \<or> eff_writes effects = [] \<or>
                       out_root plan \<notin> set (eff_writes effects) then False
                    else
                      list_all (\<lambda>v. isDefinedInside op v \<or>
                                    \<not> hasAnyExactOwnerSliceAccess P op v (ownerPhysicalDims plan) \<or> stays v)
                        (eff_reads effects) \<and>
                      list_all (\<lambda>v. isDefinedInside op v \<or> v \<notin> set (eff_reads effects) \<or> stays v)
                        (eff_writes effects))
      | _ \<Rightarrow> False)"

section \<open>The summary\<close>

record loop_summary =
  nest_ivs :: "val list"
  innermostBody :: "sop list"
  ls_reads :: "access_entry list"
  ls_writes :: "access_entry list"
  ls_outputMaps :: "affine_map list"
  ls_iterTypes :: "iter_type list"
  ls_class :: su_class
  supportsReductionCarrier :: bool

fun is_affine_const :: "affine_expr \<Rightarrow> bool" where
  "is_affine_const (AffConst c) = True"
| "is_affine_const _ = False"

definition isConstantMap :: "access_entry \<Rightarrow> bool" where
  "isConstantMap e = list_all is_affine_const (indexingMap e)"

text \<open>A reduction accumulator contributes an output map without results.\<close>

definition summarize :: "mlir \<Rightarrow> sop \<Rightarrow> val list \<Rightarrow> sop list \<Rightarrow> access_lists \<Rightarrow> loop_summary option" where
  "summarize P op ivs body rw =
     (case rw of (rs, ws) \<Rightarrow>
        let accs = su_accumulators (skind op);
            outputMaps = map indexingMap ws @ map (\<lambda>ignored. []) accs;
            numDims = length ivs
        in if outputMaps = [] then None
           else if list_all isConstantMap rs \<and> list_all isConstantMap ws then None
           else
             let ts = computeIteratorTypes numDims outputMaps;
                 c = classifyPattern rs outputMaps ts numDims
             in Some \<lparr>nest_ivs = ivs, innermostBody = body, ls_reads = rs, ls_writes = ws,
                      ls_outputMaps = outputMaps, ls_iterTypes = ts,
                      ls_class = (if c = ClReduction \<and> isOwnerLocalPipelineReduction P op
                                  then ClElementwisePipeline else c),
                      supportsReductionCarrier = supportsReductionCarrierSubset accs ivs rs ws\<rparr>)"

definition analyzeStructuredLoop :: "mlir \<Rightarrow> affine_ops \<Rightarrow> (sop \<Rightarrow> bool) \<Rightarrow> sop \<Rightarrow> loop_summary option" where
  "analyzeStructuredLoop P B libc op =
     (case collectPerfectNest libc op of
        None \<Rightarrow> None
      | Some (nest, body) \<Rightarrow>
          if nest = [] then None
          else
            let ivs = appendNestedForIvs body nest
            in case collectMemrefAccesses B libc op ivs body of
                 None \<Rightarrow> None
               | Some rw \<Rightarrow> summarize P op ivs body rw)"

section \<open>Inputs of a matrix product\<close>

definition external_read_roots :: "sop \<Rightarrow> val list" where
  "external_read_roots op =
     List.map_filter (\<lambda>q. case skind q of
         LoadK m xs \<Rightarrow>
           (let r = normalizeOutputRoot m
            in if loads_memref q \<or> isDefinedInside op r \<or>
                  r \<in> set (eff_writes (collectStructuredMemoryEffects op)) then None
               else Some r)
       | _ \<Rightarrow> None) (region_walk op)"

definition hasDistinctExternalReadOnlyRoots :: "sop \<Rightarrow> bool" where
  "hasDistinctExternalReadOnlyRoots op =
     (if hasUnknownEffects (collectStructuredMemoryEffects op) then False
      else length (remdups (external_read_roots op)) \<ge> 2)"

text \<open>One root for each side of the product, if the reads of that side agree.\<close>

fun side_roots :: "sop \<Rightarrow> val list \<Rightarrow> nat \<Rightarrow> bool list \<Rightarrow> bool list \<Rightarrow> access_entry list \<Rightarrow> val option \<times> val option
    \<Rightarrow> (val option \<times> val option) option" where
  "side_roots op written numDims lhsDims rhsDims [] st = Some st"
| "side_roots op written numDims lhsDims rhsDims (r # rs) (lhs, rhs) =
     (let rt = normalizeOutputRoot (acc_memref r); used = getUsedDims (indexingMap r) numDims
      in if isDefinedInside op rt \<or> rt \<in> set written
         then side_roots op written numDims lhsDims rhsDims rs (lhs, rhs)
         else if used = lhsDims \<and> lhs \<noteq> None \<and> lhs \<noteq> Some rt then None
         else
           let lhs' = (if used = lhsDims then Some rt else lhs)
           in if used = rhsDims \<and> rhs \<noteq> None \<and> rhs \<noteq> Some rt then None
              else side_roots op written numDims lhsDims rhsDims rs
                     (lhs', if used = rhsDims then Some rt else rhs))"

definition hasDistinctExternalMatmulInputRoots :: "mlir \<Rightarrow> affine_ops \<Rightarrow> (sop \<Rightarrow> bool) \<Rightarrow> sop \<Rightarrow> bool" where
  "hasDistinctExternalMatmulInputRoots P B libc op =
     (case analyzeStructuredLoop P B libc op of
        None \<Rightarrow> hasDistinctExternalReadOnlyRoots op
      | Some s \<Rightarrow>
          (case (dims_of_type IterParallel (ls_iterTypes s), dims_of_type IterReduction (ls_iterTypes s)) of
             ([p, q], [r]) \<Rightarrow>
               if length (nest_ivs s) \<noteq> 3 then hasDistinctExternalReadOnlyRoots op
               else
                 let written = filter (\<lambda>v. \<not> isDefinedInside op v)
                                 (map (\<lambda>w. normalizeOutputRoot (acc_memref w)) (ls_writes s))
                 in (case side_roots op written 3 (bits 3 [p, r]) (bits 3 [r, q]) (ls_reads s) (None, None) of
                       None \<Rightarrow> False
                     | Some (Some l, Some r') \<Rightarrow> if l \<noteq> r' then True else hasDistinctExternalReadOnlyRoots op
                     | Some _ \<Rightarrow> hasDistinctExternalReadOnlyRoots op)
           | _ \<Rightarrow> hasDistinctExternalReadOnlyRoots op))"

section \<open>What the summary covers\<close>

text \<open>The operations the collection of accesses looks at.\<close>

fun op_visited :: "(sop \<Rightarrow> bool) \<Rightarrow> sop \<Rightarrow> sop \<Rightarrow> sop list" where
  "op_visited libc scope (Op i k vs rs) =
     Op i k vs rs #
       (if skipped libc scope (Op i k vs rs) \<or> \<not> enters k then []
        else concat (map (\<lambda>b. concat (map (op_visited libc scope) b)) rs))"

definition visited :: "(sop \<Rightarrow> bool) \<Rightarrow> sop \<Rightarrow> sop list \<Rightarrow> sop list" where
  "visited libc scope b = concat (map (op_visited libc scope) b)"

fun pointer_access :: "sop \<Rightarrow> bool" where
  "pointer_access q =
     (case skind q of LoadK m xs \<Rightarrow> loads_memref q | StoreK v m xs \<Rightarrow> isMemRef (type_of v) | _ \<Rightarrow> False)"

fun isStore :: "op_kind \<Rightarrow> bool" where
  "isStore (StoreK v m xs) = True"
| "isStore _ = False"

definition accounted :: "affine_ops \<Rightarrow> val list \<Rightarrow> access_entry list \<Rightarrow> access_entry list \<Rightarrow> sop \<Rightarrow> bool" where
  "accounted B ivs rs ws q =
     (case data_access q of
        Some (m, xs) \<Rightarrow> has_rank_zero m \<or>
          (\<exists>a\<in>set (if isStore (skind q) then ws else rs).
             acc_memref a = m \<and> tryBuildIndexingMap B xs ivs = Some (indexingMap a))
      | None \<Rightarrow> enters (skind q) \<or> pointer_access q \<or> isKnownPureScalarLibmCall q \<or> isMemoryEffectFree q)"

lemma accounted_mono:
  "accounted B ivs rs ws q \<Longrightarrow> set rs \<subseteq> set rs' \<Longrightarrow> set ws \<subseteq> set ws' \<Longrightarrow> accounted B ivs rs' ws' q"
  unfolding accounted_def by (auto split: option.splits if_splits)

lemma join_accesses_Some:
  "join_accesses a b = Some (r, w) \<longleftrightarrow>
     (\<exists>r1 w1 r2 w2. a = Some (r1, w1) \<and> b = Some (r2, w2) \<and> r = r1 @ r2 \<and> w = w1 @ w2)"
  by (cases a; cases b) auto

lemma plain_accounted:
  assumes "plain_accesses B ivs q = Some (r, w)"
  shows "accounted B ivs r w q"
proof (cases "skind q")
  case (LoadK m xs)
  then show ?thesis using assms
    by (auto simp: plain_accesses_def accounted_def data_access_def entry_of_def split: if_splits)
next
  case (StoreK v m xs)
  then show ?thesis using assms
    by (auto simp: plain_accesses_def accounted_def data_access_def entry_of_def split: if_splits)
qed (use assms in \<open>auto simp: plain_accesses_def accounted_def data_access_def split: if_splits\<close>)

lemma visited_accounted:
  "op_accesses B libc scope ivs q = Some (r, w) \<Longrightarrow>
     \<forall>p\<in>set (op_visited libc scope q). skipped libc scope p \<or> accounted B ivs r w p"
  "collectMemrefAccessesImpl B libc scope ivs b = Some (r, w) \<Longrightarrow>
     \<forall>p\<in>set (visited libc scope b). skipped libc scope p \<or> accounted B ivs r w p"
  "regions_accesses B libc scope ivs rs = Some (r, w) \<Longrightarrow>
     \<forall>p\<in>set (concat (map (visited libc scope) rs)). skipped libc scope p \<or> accounted B ivs r w p"
proof (induction B libc scope ivs q and B libc scope ivs b and B libc scope ivs rs arbitrary: r w and r w and r w
    rule: op_accesses_collectMemrefAccessesImpl_regions_accesses.induct)
  case (1 B libc scope ivs i k vs rs)
  consider "skipped libc scope (Op i k vs rs)" | "\<not> skipped libc scope (Op i k vs rs)" "enters k"
    | "\<not> skipped libc scope (Op i k vs rs)" "\<not> enters k" by blast
  then show ?case
  proof cases
    case 2
    then have "\<forall>p\<in>set (concat (map (visited libc scope) rs)). skipped libc scope p \<or> accounted B ivs r w p"
      using "1.IH" "1.prems" by simp
    moreover have "accounted B ivs r w (Op i k vs rs)"
      using 2(2) by (cases k) (simp_all add: accounted_def data_access_def)
    ultimately show ?thesis using 2 by (simp add: visited_def)
  next
    case 3
    then show ?thesis using "1.prems" plain_accounted by simp
  qed simp
next
  case (3 B libc scope ivs q qs)
  then obtain r1 w1 r2 w2 where s: "op_accesses B libc scope ivs q = Some (r1, w1)"
    "collectMemrefAccessesImpl B libc scope ivs qs = Some (r2, w2)" "r = r1 @ r2" "w = w1 @ w2"
    by (auto simp: join_accesses_Some)
  have "skipped libc scope p \<or> accounted B ivs r w p" if "p \<in> set (visited libc scope (q # qs))" for p
    using that "3.IH"(1) [OF s(1)] "3.IH"(2) [OF s(2)] accounted_mono [of B ivs _ _ p r w] s(3,4)
    unfolding visited_def by fastforce
  then show ?case by blast
next
  case (5 B libc scope ivs b bs)
  then obtain r1 w1 r2 w2 where s: "collectMemrefAccessesImpl B libc scope ivs b = Some (r1, w1)"
    "regions_accesses B libc scope ivs bs = Some (r2, w2)" "r = r1 @ r2" "w = w1 @ w2"
    by (auto simp: join_accesses_Some)
  have "skipped libc scope p \<or> accounted B ivs r w p"
    if "p \<in> set (concat (map (visited libc scope) (b # bs)))" for p
    using that "5.IH"(1) [OF s(1)] "5.IH"(2) [OF s(2)] accounted_mono [of B ivs _ _ p r w] s(3,4)
    by fastforce
  then show ?case by blast
qed (simp_all add: visited_def)

lemma analyzed:
  assumes "analyzeStructuredLoop P B libc op = Some s"
  shows "collectMemrefAccessesImpl B libc op (nest_ivs s) (innermostBody s) = Some (ls_reads s, ls_writes s)"
    "ls_outputMaps s = map indexingMap (ls_writes s) @ map (\<lambda>ignored. []) (su_accumulators (skind op))"
    "ls_iterTypes s = computeIteratorTypes (length (nest_ivs s)) (ls_outputMaps s)"
  using assms unfolding analyzeStructuredLoop_def collectMemrefAccesses_def summarize_def Let_def
  by (auto split: option.splits prod.splits if_splits)

text \<open>
  C10: The analysis of a loop nest accounts for everything its innermost body does. An operation it
  looks at that is not local scratch is a load or store of data with an entry for its buffer whose
  map gives the accessed element (whatever the values of the induction variables, each coordinate
  has the value of the expression of the map, for a builder of affine expressions that keeps
  values and indices that lose nothing when folded: 64-bit arithmetic, casts keep the value), an
  access to a scalar buffer, a dereference of a pointer, a conditional or loop whose blocks are
  looked at too, a call to a scalar function of the C library that is known to be pure, or it
  has no effect on memory.
\<close>

theorem analyzed_accesses:
  assumes "analyzeStructuredLoop P B libc op = Some s"
    and "q \<in> set (visited libc op (innermostBody s))" "\<not> skipped libc op q"
  shows "case data_access q of
      None \<Rightarrow> enters (skind q) \<or> pointer_access q \<or> isKnownPureScalarLibmCall q \<or> isMemoryEffectFree q
    | Some (m, xs) \<Rightarrow> has_rank_zero m \<or>
        (\<exists>a\<in>set (if isStore (skind q) then ls_writes s else ls_reads s).
           acc_memref a = m \<and> length (indexingMap a) = length xs \<and>
           (affine_builder B \<longrightarrow>
              (\<forall>e vs. (\<forall>k<length (nest_ivs s). eval e (nest_ivs s ! k) = Some (vs ! k)) \<and>
                      (\<forall>x\<in>set xs. fold_safe e x \<and> eval e x \<noteq> None) \<longrightarrow>
                 (\<forall>k<length xs. eval e (xs ! k) = Some (wrap64 (aff_value vs (indexingMap a ! k)))))))"
proof (cases "data_access q")
  case None
  then show ?thesis
    using visited_accounted(2) [OF analyzed(1) [OF assms(1)]] assms(2,3) by (auto simp: accounted_def)
next
  case (Some mx)
  obtain m xs where mx: "mx = (m, xs)" by (cases mx)
  have "accounted B (nest_ivs s) (ls_reads s) (ls_writes s) q"
    using visited_accounted(2) [OF analyzed(1) [OF assms(1)]] assms(2,3) by blast
  then have acc: "has_rank_zero m \<or> (\<exists>a\<in>set (if isStore (skind q) then ls_writes s else ls_reads s).
      acc_memref a = m \<and> tryBuildIndexingMap B xs (nest_ivs s) = Some (indexingMap a))"
    unfolding accounted_def Some mx option.case prod.case .
  have len: "length t = length xs" if "tryBuildIndexingMap B xs (nest_ivs s) = Some t" for t
    using that by (metis all_some_iff length_map tryBuildIndexingMap_def)
  show ?thesis
    unfolding Some mx option.case prod.case
    using acc len access_map_value by (elim disjE bexE conjE) (blast | intro disjI2 bexI conjI, assumption+, blast, blast)+
qed

text \<open>The loop \<open>for i: a[i] = b[i + 1]\<close> over two vectors of 64 numbers.\<close>

abbreviation unit_iv :: val where "unit_iv \<equiv> BlockArg 1 0 IndexTy None"

abbreviation sample_vector :: "nat \<Rightarrow> val" where
  "sample_vector n \<equiv> BlockArg 0 n (MemRefTy [Some 64] (FloatTy 64)) None"

abbreviation sample_number :: "nat \<Rightarrow> val" where
  "sample_number i \<equiv> OtherOp i 0 (FloatTy 64) ''memref.load'' []"

definition sample_load :: sop where
  "sample_load = Op 2 (LoadK (sample_vector 1) [Bin 3 IndexTy AddI unit_iv (index_const 4 1)]) [sample_number 2] []"

definition sample_unit :: sop where
  "sample_unit =
     Op 5 (SuIterateK [index_const 6 0] [index_const 7 64] [index_const 8 1] [] [unit_iv]) []
       [[sample_load, Op 9 (StoreK (sample_number 2) (sample_vector 0) [unit_iv]) [] [], Op 10 (YieldK []) [] []]]"

definition sample_summary :: loop_summary where
  "sample_summary = the (analyzeStructuredLoop no_services folding_ops (\<lambda>q. False) sample_unit)"

lemma sample_analyzed:
  "analyzeStructuredLoop no_services folding_ops (\<lambda>q. False) sample_unit = Some sample_summary"
  unfolding sample_summary_def by code_simp

lemma analyzed_accesses_witness:
  "ls_class sample_summary = ClStencil \<and>
   (\<exists>a\<in>set (ls_reads sample_summary). acc_memref a = sample_vector 1 \<and> length (indexingMap a) = 1)"
proof -
  have q: "sample_load \<in> set (visited (\<lambda>q. False) sample_unit (innermostBody sample_summary))"
    "\<not> skipped (\<lambda>q. False) sample_unit sample_load"
    by code_simp+
  have "data_access sample_load = Some (sample_vector 1, [Bin 3 IndexTy AddI unit_iv (index_const 4 1)])"
    "\<not> isStore (skind sample_load)" "\<not> has_rank_zero (sample_vector 1)" by code_simp+
  then have "\<exists>a\<in>set (ls_reads sample_summary). acc_memref a = sample_vector 1 \<and> length (indexingMap a) = 1"
    using analyzed_accesses [OF sample_analyzed q] by auto
  moreover have "ls_class sample_summary = ClStencil" by code_simp
  ultimately show ?thesis by blast
qed

section \<open>What the owner slices say\<close>

lemma strip_offset_safe:
  "strip_offset_loop acc v = (w, k) \<Longrightarrow> fold_safe e v \<Longrightarrow> type_of v \<noteq> IntTy 1 \<Longrightarrow>
     fold_safe e w \<and> type_of w \<noteq> IntTy 1"
proof (induction acc v rule: strip_offset_loop.induct)
  case (1 acc i t f a b)
  have s: "fold_safe e a" "fold_safe e b" "type_of a \<noteq> IntTy 1" "type_of b \<noteq> IntTy 1"
    using "1.prems"(2,3) by auto
  have n: "fold_safe e (stripNumericCasts a)" "fold_safe e (stripNumericCasts b)"
    "type_of (stripNumericCasts a) \<noteq> IntTy 1" "type_of (stripNumericCasts b) \<noteq> IntTy 1"
    using strip_safe s by blast+
  consider (l) c where "f = AddI" "getConstantIndex a = Some c"
    | (r) c where "f = AddI" "getConstantIndex a = None" "getConstantIndex b = Some c"
    | (m) c where "f = SubI" "getConstantIndex b = Some c"
    | (e) "strip_offset_loop acc (Bin i t f a b) = (Bin i t f a b, acc)"
    by (cases "f = AddI"; cases "f = SubI"; cases "getConstantIndex a"; cases "getConstantIndex b") auto
  then show ?case
  proof cases
    case l then show ?thesis using "1.IH" "1.prems"(1) n by simp
  next
    case r then show ?thesis using "1.IH" "1.prems"(1) n by simp
  next
    case m then show ?thesis using "1.IH" "1.prems"(1) n by simp
  next
    case e then show ?thesis using "1.prems" by (metis fst_conv)
  qed
qed auto

lemma exact_owner_value:
  assumes "services_sound P e" "isExactOwnerIndex P index owners"
    and "fold_safe e index" "type_of index \<noteq> IntTy 1" "eval e index = Some x"
    and "\<forall>ow\<in>set owners. fold_safe e ow \<and> type_of ow \<noteq> IntTy 1 \<and> eval e ow \<noteq> None"
  shows "\<exists>ow\<in>set owners. eval e ow = Some x"
proof -
  obtain base where b: "stripConstantOffset (stripNumericCasts index) = (base, 0)"
    and o: "\<exists>ow\<in>set owners. sameValue P (stripNumericCasts base) ow"
    using assms(2) unfolding isExactOwnerIndex_def
    by (auto simp: Let_def list_ex_iff split: prod.splits if_splits)
  let ?v = "stripNumericCasts (stripNumericCasts index)"
  have v: "fold_safe e ?v" "eval e ?v = Some x" "type_of ?v \<noteq> IntTy 1" using strip_safe assms(3-5) by auto
  have l: "strip_offset_loop 0 ?v = (base, 0)" using b by (simp add: stripConstantOffset_def)
  obtain y where y: "eval e base = Some y" "wrap64 (0 + x) = wrap64 (0 + y)"
    using strip_offset_sound [OF l v(1,2)] by blast
  have s: "fold_safe e base" "type_of base \<noteq> IntTy 1" using strip_offset_safe [OF l v(1,3)] by auto
  have xy: "x = y" using y eval_in64 [OF v(1,2)] eval_in64 [OF s(1) y(1)] by (simp add: wrap64_id)
  have n: "fold_safe e (stripNumericCasts base)" "type_of (stripNumericCasts base) \<noteq> IntTy 1"
    "eval e (stripNumericCasts base) = Some x"
    using strip_safe [OF s(1)] s(2) y(1) xy by auto
  obtain ow where ow: "ow \<in> set owners" "sameValue P (stripNumericCasts base) ow" using o by blast
  then obtain z where z: "eval e ow = Some z" "fold_safe e ow" "type_of ow \<noteq> IntTy 1" using assms(6) by blast
  have "x = z" by (rule sameValue_value [OF assms(1) ow(2) n(1) z(2) n(2) z(3) n(3) z(1)])
  then show ?thesis using ow(1) z(1) by blast
qed

text \<open>
  A value that stands for the owner: the first induction variable of the unit, or an argument of
  its compute region whose operand is that variable or is computed from it.
\<close>

definition region_argument :: "sop \<Rightarrow> val \<Rightarrow> val \<Rightarrow> bool" where
  "region_argument op a x \<longleftrightarrow>
     (\<exists>cu par iters args k. compute_region op = Some cu \<and> skind cu = CuRegionK par iters args \<and>
        k < length iters \<and> k < length args \<and> iters ! k = x \<and> args ! k = a)"

definition owner_variable :: "sop \<Rightarrow> val \<Rightarrow> bool" where
  "owner_variable op iv \<longleftrightarrow> (\<exists>ls us ss as ivs. skind op = SuIterateK ls us ss as (iv # ivs))"

lemma owner_values:
  assumes "ow \<in> set (collectOwnerIndexValues op)"
  shows "\<exists>iv. owner_variable op iv \<and>
    (ow = iv \<or> (\<exists>x. region_argument op ow x \<and> (x = iv \<or> dependsOn 0 x iv)))"
proof -
  obtain ls us ss as args where k: "skind op = SuIterateK ls us ss as args"
    using assms by (cases "skind op") (auto simp: collectOwnerIndexValues_def split: if_splits)
  obtain iv ivs where t: "take (length ls) args = iv # ivs"
    using assms k by (cases "take (length ls) args") (auto simp: collectOwnerIndexValues_def split: if_splits)
  then obtain rest where a: "args = iv # rest" by (cases args; cases ls) auto
  have v: "owner_variable op iv" using k a by (simp add: owner_variable_def)
  have "ow = iv \<or> (\<exists>cu. compute_region op = Some cu \<and> ow \<in> set (owner_iter_args iv cu))"
    using assms k t by (cases "compute_region op") (auto simp: collectOwnerIndexValues_def split: if_splits)
  then show ?thesis
  proof (elim disjE exE conjE)
    fix cu assume cu: "compute_region op = Some cu" "ow \<in> set (owner_iter_args iv cu)"
    then obtain par iters as' where c: "skind cu = CuRegionK par iters as'"
      by (cases "skind cu") (auto simp: owner_iter_args_def)
    obtain x where x: "(x, ow) \<in> set (zip iters as')" "x = iv \<or> dependsOn 0 x iv"
      using cu(2) c by (auto simp: owner_iter_args_def)
    then have "region_argument op ow x"
      using cu(1) c by (auto simp: region_argument_def in_set_zip)
    then show ?thesis using v x(2) by blast
  qed (use v in blast)
qed

text \<open>
  C11: When all accesses of a scheduling unit to a buffer are found to stay within the slice of the
  owner, every load or store of the buffer has in each owner dimension a coordinate with the value
  of the unit's first induction variable, or of an argument of its compute region whose operand is
  or depends on that variable. Where arguments have the values of their operands and no operand
  but the variable itself depends on it, the coordinate is the induction variable. The bounds
  solver is right, and the coordinates and owner values have values, are not \<open>i1\<close> and lose nothing
  when folded (\<open>fold_safe\<close>: 64-bit arithmetic, casts keep the value).
\<close>

theorem owner_slice_accesses:
  assumes "allRootAccessesStayWithinOwnerSlice P op buf ownerDims" "services_sound P e"
    and "(m, xs) \<in> set (data_accesses op)" "stripMemrefViewOps m = buf" "d \<in> set ownerDims"
    and "\<forall>v\<in>set xs \<union> set (collectOwnerIndexValues op). fold_safe e v \<and> type_of v \<noteq> IntTy 1 \<and> eval e v \<noteq> None"
  shows "0 \<le> d \<and> nat d < length xs \<and>
    (\<exists>iv. owner_variable op iv \<and>
       (eval e (xs ! nat d) = eval e iv \<or>
        (\<exists>a x. region_argument op a x \<and> (x = iv \<or> dependsOn 0 x iv) \<and> eval e (xs ! nat d) = eval e a)) \<and>
       ((\<forall>a x. region_argument op a x \<longrightarrow> eval e a = eval e x \<and> (dependsOn 0 x iv \<longrightarrow> x = iv)) \<longrightarrow>
          eval e (xs ! nat d) = eval e iv))"
proof -
  have dim: "owned_dim P (collectOwnerIndexValues op) xs d"
    using assms(1,3,4,5) unfolding allRootAccessesStayWithinOwnerSlice_def
    by (auto simp: Let_def list_all_iff split: if_splits)
  then have r: "0 \<le> d" "nat d < length xs" "isExactOwnerIndex P (xs ! nat d) (collectOwnerIndexValues op)"
    by (auto simp: owned_dim_def split: if_splits)
  then have "xs ! nat d \<in> set xs" by simp
  then obtain x where x: "fold_safe e (xs ! nat d)" "type_of (xs ! nat d) \<noteq> IntTy 1" "eval e (xs ! nat d) = Some x"
    using assms(6) by blast
  then obtain ow where ow: "ow \<in> set (collectOwnerIndexValues op)" "eval e ow = eval e (xs ! nat d)"
    using exact_owner_value [OF assms(2) r(3)] assms(6) by (metis UnCI)
  obtain iv where iv: "owner_variable op iv"
    "ow = iv \<or> (\<exists>x. region_argument op ow x \<and> (x = iv \<or> dependsOn 0 x iv))"
    using owner_values [OF ow(1)] by blast
  have "eval e (xs ! nat d) = eval e iv \<or>
        (\<exists>a x. region_argument op a x \<and> (x = iv \<or> dependsOn 0 x iv) \<and> eval e (xs ! nat d) = eval e a)"
    using iv(2) ow(2) by metis
  moreover have "eval e (xs ! nat d) = eval e iv"
    if "\<forall>a x. region_argument op a x \<longrightarrow> eval e a = eval e x \<and> (dependsOn 0 x iv \<longrightarrow> x = iv)"
    using iv(2) ow(2) that by metis
  ultimately show ?thesis using r(1,2) iv(1) by blast
qed

lemma owner_slice_accesses_witness:
  "allRootAccessesStayWithinOwnerSlice no_services sample_unit (sample_vector 0) [0] \<and>
   \<not> allRootAccessesStayWithinOwnerSlice no_services sample_unit (sample_vector 1) [0] \<and>
   owner_variable sample_unit unit_iv"
proof -
  have a: "allRootAccessesStayWithinOwnerSlice no_services sample_unit (sample_vector 0) [0]"
    "\<not> allRootAccessesStayWithinOwnerSlice no_services sample_unit (sample_vector 1) [0]"
    "(sample_vector 0, [unit_iv]) \<in> set (data_accesses sample_unit)"
    "stripMemrefViewOps (sample_vector 0) = sample_vector 0"
    "collectOwnerIndexValues sample_unit = [unit_iv]"
    "fold_safe no_env unit_iv" "eval no_env unit_iv = Some 7"
    by code_simp+
  have v: "\<exists>iv. owner_variable sample_unit iv"
    using owner_slice_accesses [OF a(1) services_no_services a(3,4), where d = 0] a by auto
  then show ?thesis using a(1,2) by (auto simp: owner_variable_def sample_unit_def)
qed

text \<open>
  An argument of the compute region that is computed from the induction variable is taken for
  the variable itself: with the operand \<open>iv + 1\<close> the stores go to the next owner's slice.
\<close>

definition shifted_unit :: sop where
  "shifted_unit =
     Op 5 (SuIterateK [index_const 6 0] [index_const 7 64] [index_const 8 1] [] [unit_iv]) []
       [[Op 30 (CuRegionK True [Bin 3 IndexTy AddI unit_iv (index_const 4 1)] [BlockArg 30 0 IndexTy None]) []
           [[Op 9 (StoreK (sample_number 2) (sample_vector 0) [BlockArg 30 0 IndexTy None]) [] [], Op 11 (YieldK []) [] []]],
         Op 10 (YieldK []) [] []]]"

lemma shifted_owner_accepted:
  "allRootAccessesStayWithinOwnerSlice no_services shifted_unit (sample_vector 0) [0]"
  "region_argument shifted_unit (BlockArg 30 0 IndexTy None) (Bin 3 IndexTy AddI unit_iv (index_const 4 1))"
proof -
  show "allRootAccessesStayWithinOwnerSlice no_services shifted_unit (sample_vector 0) [0]" by code_simp
  show "region_argument shifted_unit (BlockArg 30 0 IndexTy None) (Bin 3 IndexTy AddI unit_iv (index_const 4 1))"
    unfolding region_argument_def
    by (intro exI [of _ "body_of shifted_unit ! 0"] exI [of _ True] exI [of _ "[Bin 3 IndexTy AddI unit_iv (index_const 4 1)]"]
        exI [of _ "[BlockArg 30 0 IndexTy None]"] exI [of _ 0])
      (simp add: shifted_unit_def compute_region_def body_of_def without_terminator_def)
qed

text \<open>
  The loop \<open>for i: for j: a[i] += d[j]\<close>. The vector \<open>d\<close> is read outside the slice of the owner, but
  as none of its reads is at the owner's index the test passes over it.
\<close>

definition foreign_reads_loop :: sop where
  "foreign_reads_loop =
     (let j = BlockArg 20 0 IndexTy None
      in Op 5 (SuIterateK [index_const 6 0] [index_const 7 64] [index_const 8 1] [] [unit_iv]) []
           [[Op 20 (ForK j (index_const 6 0) (index_const 7 64) [index_const 8 1]) []
               [[Op 21 (LoadK (sample_vector 0) [unit_iv]) [sample_number 21] [],
                 Op 22 (LoadK (sample_vector 1) [j]) [sample_number 22] [],
                 Op 23 (StoreK (sample_number 21) (sample_vector 0) [unit_iv]) [] [], Op 24 (YieldK []) [] []]],
             Op 10 (YieldK []) [] []]])"

lemma foreign_reads_accepted:
  "isOwnerLocalPipelineReduction no_services foreign_reads_loop"
  "sample_vector 1 \<in> set (eff_reads (collectStructuredMemoryEffects foreign_reads_loop))"
  "\<not> allRootAccessesStayWithinOwnerSlice no_services foreign_reads_loop (sample_vector 1) [0]"
  by code_simp+

text \<open>What a store to an external buffer must have for a plan.\<close>

definition fits_plan :: "mlir \<Rightarrow> loop_chain \<Rightarrow> val list \<Rightarrow> output_plan \<Rightarrow> val \<Rightarrow> val list \<Rightarrow> bool" where
  "fits_plan P loops owners p base xs =
     (static_shape_of (type_of base) = Some (out_shape p) \<and>
      collectExactOwnerIndexedPhysicalDims P loops xs owners = ownerPhysicalDims p \<and> ownerPhysicalDims p \<noteq> [])"

lemma consistent_plan_fits:
  "consistent_plan P loops op owners sts selected = Some p \<Longrightarrow>
     (\<forall>q. selected = Some q \<longrightarrow> p = q) \<and>
     (\<forall>(m, xs)\<in>set sts. isDefinedInside op (stripMemrefViewOps m) \<or>
        fits_plan P loops owners p (stripMemrefViewOps m) xs)"
proof (induction P loops op owners sts selected rule: consistent_plan.induct)
  case (2 P loops op owners m xs sts selected)
  let ?base = "stripMemrefViewOps m"
  let ?dims = "collectExactOwnerIndexedPhysicalDims P loops xs owners"
  show ?case
  proof (cases "isDefinedInside op ?base")
    case True
    then show ?thesis using "2.IH"(1) [OF refl True] "2.prems" by simp
  next
    case False
    note unfolded = "2.prems" [unfolded consistent_plan.simps Let_def]
    have base: "\<not> (\<not> isMemRef (type_of ?base) \<or> has_rank_zero ?base \<or> xs = [])" and dims: "?dims \<noteq> []"
      using unfolded False by (auto split: if_splits)
    obtain sh where sh: "static_shape_of (type_of ?base) = Some sh"
      using unfolded False base dims by (auto split: if_splits option.splits)
    show ?thesis
    proof (cases selected)
      case None
      then have "consistent_plan P loops op owners sts
          (Some \<lparr>out_root = ?base, out_shape = sh, ownerPhysicalDims = ?dims\<rparr>) = Some p"
        using unfolded False base dims sh by simp
      from "2.IH"(2) [OF refl False base refl dims sh None this]
      have "p = \<lparr>out_root = ?base, out_shape = sh, ownerPhysicalDims = ?dims\<rparr>"
        "\<forall>(m, xs)\<in>set sts. isDefinedInside op (stripMemrefViewOps m) \<or>
           fits_plan P loops owners p (stripMemrefViewOps m) xs" by auto
      then show ?thesis using None sh dims by (simp add: fits_plan_def)
    next
      case (Some q)
      have q: "\<not> (sh \<noteq> out_shape q \<or> ?dims \<noteq> ownerPhysicalDims q)"
        using unfolded False base dims sh Some by (auto split: if_splits)
      then have "consistent_plan P loops op owners sts selected = Some p"
        using unfolded False base dims sh Some by simp
      from "2.IH"(3) [OF refl False base refl dims sh Some q this] Some
      have "p = q" "\<forall>(m, xs)\<in>set sts. isDefinedInside op (stripMemrefViewOps m) \<or>
          fits_plan P loops owners p (stripMemrefViewOps m) xs" by auto
      then show ?thesis using Some sh dims q by (simp add: fits_plan_def)
    qed
  qed
qed simp

lemma owner_dims_iff:
  "int d \<in> set (collectExactOwnerIndexedPhysicalDims P loops xs owners) \<longleftrightarrow>
     d < length xs \<and> isOwnerDependentIndex P loops (xs ! d) owners"
  by (force simp: collectExactOwnerIndexedPhysicalDims_def in_set_enumerate_eq image_iff)

text \<open>
  An output plan of a scheduling unit fits every store: each store of the compute block to a
  buffer from outside has the static shape of the plan, and the dimensions of its indices that
  depend on the owner's induction variable are the owner dimensions of the plan, at least one.
\<close>

theorem output_plan_fits:
  assumes "findConsistentLoopIndexedOutputPlanWithOwnerDims P loops op = Some p"
    and "(m, xs) \<in> set (stores_of (getSuIterateComputeBlock op))" "\<not> isDefinedInside op (stripMemrefViewOps m)"
  shows "static_shape_of (type_of (stripMemrefViewOps m)) = Some (out_shape p) \<and> ownerPhysicalDims p \<noteq> [] \<and>
    (\<forall>d. int d \<in> set (ownerPhysicalDims p) \<longleftrightarrow>
         d < length xs \<and> isOwnerDependentIndex P loops (xs ! d) (collectOwnerIndexValues op))"
proof -
  have "consistent_plan P loops op (collectOwnerIndexValues op)
      (stores_of (getSuIterateComputeBlock op)) None = Some p"
    using assms(1) unfolding findConsistentLoopIndexedOutputPlanWithOwnerDims_def
    by (auto simp: Let_def split: if_splits)
  from consistent_plan_fits [OF this] assms(2,3)
  have "fits_plan P loops (collectOwnerIndexValues op) p (stripMemrefViewOps m) xs" by auto
  then show ?thesis unfolding fits_plan_def by (metis owner_dims_iff)
qed

lemma output_plan_fits_witness:
  "let p = the (findConsistentLoopIndexedOutputPlanWithOwnerDims no_services [] sample_unit)
   in out_shape p = [64] \<and> ownerPhysicalDims p = [0] \<and>
      isOwnerDependentIndex no_services [] unit_iv (collectOwnerIndexValues sample_unit)"
proof -
  let ?p = "\<lparr>out_root = sample_vector 0, out_shape = [64], ownerPhysicalDims = [0]\<rparr>"
  have a: "findConsistentLoopIndexedOutputPlanWithOwnerDims no_services [] sample_unit = Some ?p"
    "(sample_vector 0, [unit_iv]) \<in> set (stores_of (getSuIterateComputeBlock sample_unit))"
    "\<not> isDefinedInside sample_unit (stripMemrefViewOps (sample_vector 0))"
    by code_simp+
  have "int 0 \<in> set (ownerPhysicalDims ?p)" by simp
  then have "isOwnerDependentIndex no_services [] ([unit_iv] ! 0) (collectOwnerIndexValues sample_unit)"
    using output_plan_fits [OF a] by blast
  then show ?thesis using a(1) by simp
qed

end
