(* ===== verification/Barriers.thy ===== *)
theory Barriers
  imports StructuredLoop
begin

text \<open>
  Planning of barriers between scheduling units (\<open>BarrierElimination.cpp\<close>): a barrier between
  units without a write conflict is eliminated, pairs of units that exchange buffers in a time
  loop get a timestep plan, and chains of planned units become groups of CPS candidate stages,
  numbered and separated by completion tokens.

  The attributes of units and barriers are kept apart from the tree of operations, by the
  identity of the operation; the passes change the tree only where tokens and barriers are
  inserted.
\<close>

section \<open>Plans\<close>

datatype sde_pattern =
    PatUniform | PatStencilTilingNd | PatCrossDimStencil3d | PatHigherOrderStencil | PatWavefront2d
  | PatJacobi | PatMatmul | PatElementwisePipeline | PatReduction

datatype topology = OwnerStrip | OwnerTile | OwnerTile2d

datatype repetition = RepNone | RepPairStep | RepKStep | RepFullTimestep

datatype async_strategy = AsyncBlocking | AsyncAdvanceStage | AsyncCpsChain

datatype barrier_reason = Redundant | RequiredMemory | TimestepStageBoundary | WavefrontFrontier | UnknownRequired

text \<open>
  An array attribute is the list of its integers, \<open>None\<close> for an element that is no integer. A
  candidate attribute can be absent, present without being an integer, or an integer; the
  marker for tokenised dataflow can be absent, of another kind, or the unit attribute.
\<close>

type_synonym int_array = "int option list"

record su_plan =
  structuredClassification :: "su_class option"
  su_pattern :: "sde_pattern option"
  iterationTopology :: "topology option"
  repetitionStructure :: "repetition option"
  asyncStrategy :: "async_strategy option"
  physicalOwnerDims :: "int_array option"
  physicalBlockShape :: "int_array option"
  logicalWorkerSlice :: "int_array option"
  cpsGroupId :: "int option"
  cpsStageIndex :: "int option"
  cpsStageCount :: "int option"
  candidateGroupId :: "int option option"
  candidateStageIndex :: "int option option"
  candidateStageCount :: "int option option"
  candidateRequiresTokens :: "bool option"

record barrier_attrs =
  barrierEliminated :: bool
  barrierReason :: "barrier_reason option"

text \<open>
  The module: its functions with their bodies, the attributes, and the next unused identity. A
  scheduling unit is its operation with its plan.
\<close>

record sde_module =
  sde_functions :: "(nat \<times> sop list) list"
  plan_of :: "nat \<Rightarrow> su_plan"
  barrier_of :: "nat \<Rightarrow> barrier_attrs"
  fresh_op :: nat

type_synonym su = "sop \<times> su_plan"

definition su_of :: "sde_module \<Rightarrow> sop \<Rightarrow> su" where
  "su_of M op = (op, plan_of M (sid op))"

definition set_plan :: "nat \<Rightarrow> (su_plan \<Rightarrow> su_plan) \<Rightarrow> sde_module \<Rightarrow> sde_module" where
  "set_plan u f M = M\<lparr>plan_of := (plan_of M)(u := f (plan_of M u))\<rparr>"

definition setBarrierReason :: "nat \<Rightarrow> barrier_reason \<Rightarrow> sde_module \<Rightarrow> sde_module" where
  "setBarrierReason b r M = M\<lparr>barrier_of := (barrier_of M)(b := (barrier_of M b)\<lparr>barrierReason := Some r\<rparr>)\<rparr>"

definition setBarrierEliminated :: "nat \<Rightarrow> sde_module \<Rightarrow> sde_module" where
  "setBarrierEliminated b M = M\<lparr>barrier_of := (barrier_of M)(b := (barrier_of M b)\<lparr>barrierEliminated := True\<rparr>)\<rparr>"

section \<open>Stages\<close>

definition isSuContainer :: "sop \<Rightarrow> bool" where
  "isSuContainer op = (findSuIterate op \<noteq> None)"

definition hasCandidateAttrs :: "su_plan \<Rightarrow> bool" where
  "hasCandidateAttrs p =
     (candidateGroupId p \<noteq> None \<or> candidateStageIndex p \<noteq> None \<or> candidateStageCount p \<noteq> None \<or>
      candidateRequiresTokens p \<noteq> None)"

definition hasFinalCpsStageAttrs :: "su_plan \<Rightarrow> bool" where
  "hasFinalCpsStageAttrs p = (cpsGroupId p \<noteq> None \<or> cpsStageIndex p \<noteq> None \<or> cpsStageCount p \<noteq> None)"

definition isSdeCpsCandidateStage :: "su_plan \<Rightarrow> bool" where
  "isSdeCpsCandidateStage p =
     (if hasFinalCpsStageAttrs p then False
      else if repetitionStructure p \<noteq> Some RepFullTimestep then False
      else asyncStrategy p = Some AsyncAdvanceStage)"

definition isTimestepBarrier :: "barrier_attrs \<Rightarrow> bool" where
  "isTimestepBarrier b = (barrierReason b = Some TimestepStageBoundary)"

definition haveSameIterationShape :: "mlir \<Rightarrow> su \<Rightarrow> su \<Rightarrow> bool" where
  "haveSameIterationShape P l r =
     (areValueRangesEquivalent P (su_lower (skind (fst l))) (su_lower (skind (fst r))) \<and>
      areValueRangesEquivalent P (su_upper (skind (fst l))) (su_upper (skind (fst r))) \<and>
      areValueRangesEquivalent P (su_steps (skind (fst l))) (su_steps (skind (fst r))))"

definition haveSameIterationBounds :: "mlir \<Rightarrow> su \<Rightarrow> su \<Rightarrow> bool" where
  "haveSameIterationBounds P l r =
     (length (su_lower (skind (fst l))) = length (su_lower (skind (fst r))) \<and>
      areValueRangesEquivalent P (su_lower (skind (fst l))) (su_lower (skind (fst r))) \<and>
      areValueRangesEquivalent P (su_upper (skind (fst l))) (su_upper (skind (fst r))))"

definition isPositiveMultiplier :: "mlir \<Rightarrow> val \<Rightarrow> bool" where
  "isPositiveMultiplier P v =
     (case tryFoldConstantIndex P 0 v of
        Some n \<Rightarrow> n \<ge> 1
      | None \<Rightarrow> isConstantAtLeastOne P v \<or> isProvablyNonZero P 0 v)"

definition isTiledMultipleOfStep :: "mlir \<Rightarrow> val \<Rightarrow> val \<Rightarrow> bool" where
  "isTiledMultipleOfStep P candidate baseStep =
     (if areValuesEquivalent P 0 candidate baseStep then True
      else case candidate of
             Bin i t MulI a b \<Rightarrow>
               if areValuesEquivalent P 0 a baseStep then isPositiveMultiplier P b
               else if areValuesEquivalent P 0 b baseStep then isPositiveMultiplier P a
               else False
           | _ \<Rightarrow> False)"

definition equivalent_or_tiled :: "mlir \<Rightarrow> val \<Rightarrow> val \<Rightarrow> bool" where
  "equivalent_or_tiled P l r =
     (if areValuesEquivalent P 0 l r then True
      else if tryFoldConstantIndex P 0 l \<noteq> None \<and> tryFoldConstantIndex P 0 r \<noteq> None \<and>
              tryFoldConstantIndex P 0 l = tryFoldConstantIndex P 0 r then True
      else isTiledMultipleOfStep P l r \<or> isTiledMultipleOfStep P r l)"

definition haveEquivalentOrTiledSteps :: "mlir \<Rightarrow> su \<Rightarrow> su \<Rightarrow> bool" where
  "haveEquivalentOrTiledSteps P l r =
     (if length (su_steps (skind (fst l))) \<noteq> length (su_steps (skind (fst r))) then False
      else list_all (\<lambda>(x, y). equivalent_or_tiled P x y) (zip (su_steps (skind (fst l))) (su_steps (skind (fst r)))))"

definition isUniformRepeatableStage :: "su \<Rightarrow> bool" where
  "isUniformRepeatableStage u =
     (if su_accumulators (skind (fst u)) \<noteq> [] then False
      else case su_pattern (snd u) of
             Some f \<Rightarrow> f = PatUniform \<or> f = PatElementwisePipeline
           | None \<Rightarrow> structuredClassification (snd u) = Some ClElementwise \<or>
                     structuredClassification (snd u) = Some ClElementwisePipeline)"

definition isOutOfPlaceStencilStage :: "su_plan \<Rightarrow> effect_summary \<Rightarrow> bool" where
  "isOutOfPlaceStencilStage p e =
     (if hasUnknownEffects e then False
      else if structuredClassification p \<noteq> Some ClStencil then False
      else if hasInPlaceSelfRead e then False
      else case su_pattern p of None \<Rightarrow> True | Some f \<Rightarrow> f = PatStencilTilingNd \<or> f = PatJacobi)"

definition isWavefrontFrontierStage :: "su_plan \<Rightarrow> bool" where
  "isWavefrontFrontierStage p = (su_pattern p = Some PatWavefront2d)"

definition repeated_plan :: "su_plan \<Rightarrow> su_plan" where
  "repeated_plan p =
     (let q = (if repetitionStructure p = None then p\<lparr>repetitionStructure := Some RepFullTimestep\<rparr> else p)
      in if asyncStrategy q = None then q\<lparr>asyncStrategy := Some AsyncAdvanceStage\<rparr> else q)"

definition stampRepeatedTimestepPlan :: "nat \<Rightarrow> sde_module \<Rightarrow> sde_module" where
  "stampRepeatedTimestepPlan u M = set_plan u repeated_plan M"

definition double_first :: "int_array \<Rightarrow> int_array option" where
  "double_first xs =
     (case xs of
        [Some n, y] \<Rightarrow> if n \<le> 0 then None else Some [Some (wrap64 (n * 2)), y]
      | _ \<Rightarrow> None)"

definition coarsened_plan :: "su_plan \<Rightarrow> su_plan" where
  "coarsened_plan p =
     (if iterationTopology p \<noteq> Some OwnerTile then p
      else case logicalWorkerSlice p of
        None \<Rightarrow> p
      | Some slice \<Rightarrow>
          (case double_first slice of
             None \<Rightarrow> p
           | Some coarsened \<Rightarrow>
               if coarsened = slice then p
               else
                 let q = p\<lparr>logicalWorkerSlice := Some coarsened\<rparr>
                 in case physicalBlockShape p of
                      None \<Rightarrow> q
                    | Some physical \<Rightarrow>
                        (case double_first physical of
                           None \<Rightarrow> q
                         | Some doubled \<Rightarrow> q\<lparr>physicalBlockShape := Some doubled\<rparr>)))"

definition coarsenRepeatedStencilSlice :: "nat \<Rightarrow> sde_module \<Rightarrow> sde_module" where
  "coarsenRepeatedStencilSlice u M = set_plan u coarsened_plan M"

section \<open>Compatible plans\<close>

definition writesIntersectReads :: "effect_summary \<Rightarrow> effect_summary \<Rightarrow> bool" where
  "writesIntersectReads l r = intersects (eff_writes l) (eff_reads r)"

definition hasAlternatingBufferExchange :: "effect_summary \<Rightarrow> effect_summary \<Rightarrow> bool" where
  "hasAlternatingBufferExchange l r = (writesIntersectReads l r \<and> writesIntersectReads r l)"

definition sameI64ArrayAttr :: "int_array option \<Rightarrow> int_array option \<Rightarrow> bool" where
  "sameI64ArrayAttr l r =
     (case (l, r) of
        (Some xs, Some ys) \<Rightarrow>
          (if length xs \<noteq> length ys then False
           else list_all (\<lambda>(x, y). x \<noteq> None \<and> y \<noteq> None \<and> x = y) (zip xs ys))
      | _ \<Rightarrow> False)"

definition haveSamePhysicalTimestepPlan :: "su_plan \<Rightarrow> su_plan \<Rightarrow> bool" where
  "haveSamePhysicalTimestepPlan p s =
     (sameI64ArrayAttr (physicalOwnerDims p) (physicalOwnerDims s) \<and>
      sameI64ArrayAttr (physicalBlockShape p) (physicalBlockShape s))"

definition hasPhysicalTimestepPlan :: "su_plan \<Rightarrow> bool" where
  "hasPhysicalTimestepPlan p = (physicalOwnerDims p \<noteq> None \<or> physicalBlockShape p \<noteq> None)"

definition haveCompatiblePhysicalTimestepPlan :: "su_plan \<Rightarrow> su_plan \<Rightarrow> bool" where
  "haveCompatiblePhysicalTimestepPlan p s =
     (let predPlanned = hasPhysicalTimestepPlan p; succPlanned = hasPhysicalTimestepPlan s
      in if \<not> predPlanned \<and> \<not> succPlanned then True
         else if predPlanned \<noteq> succPlanned then False
         else haveSamePhysicalTimestepPlan p s)"

definition sameSdeIterationTopology :: "su_plan \<Rightarrow> su_plan \<Rightarrow> bool" where
  "sameSdeIterationTopology l r =
     (iterationTopology l \<noteq> None \<and> iterationTopology r \<noteq> None \<and> iterationTopology l = iterationTopology r)"

definition haveSdeApprovedTiledTimestepPlan :: "mlir \<Rightarrow> su \<Rightarrow> su \<Rightarrow> bool" where
  "haveSdeApprovedTiledTimestepPlan P l r =
     (haveSameIterationBounds P l r \<and> haveSamePhysicalTimestepPlan (snd l) (snd r) \<and>
      sameI64ArrayAttr (logicalWorkerSlice (snd l)) (logicalWorkerSlice (snd r)) \<and>
      sameSdeIterationTopology (snd l) (snd r) \<and> haveEquivalentOrTiledSteps P l r)"

definition haveCompatibleTimestepIterationPlan :: "mlir \<Rightarrow> su \<Rightarrow> su \<Rightarrow> bool" where
  "haveCompatibleTimestepIterationPlan P l r =
     (haveSameIterationShape P l r \<or> haveSdeApprovedTiledTimestepPlan P l r)"

definition isPipelineableStructuredClassification :: "su \<Rightarrow> bool" where
  "isPipelineableStructuredClassification u =
     (if su_accumulators (skind (fst u)) \<noteq> [] then False
      else case structuredClassification (snd u) of
             None \<Rightarrow> False
           | Some c \<Rightarrow> c = ClElementwise \<or> c = ClElementwisePipeline \<or> c = ClMatmul)"

definition readI64ArrayAttr :: "int_array option \<Rightarrow> int list option" where
  "readI64ArrayAttr a =
     (case a of None \<Rightarrow> None
      | Some xs \<Rightarrow> if list_all (\<lambda>x. x \<noteq> None) xs then Some (map the xs) else None)"

definition getSinglePhysicalOwnerDim :: "su_plan \<Rightarrow> nat option" where
  "getSinglePhysicalOwnerDim p =
     (case readI64ArrayAttr (physicalOwnerDims p) of
        Some [d] \<Rightarrow> if d < 0 then None else Some (nat (d mod 2 ^ 32))
      | _ \<Rightarrow> None)"

section \<open>Dependences through tokens\<close>

fun loopIvSelectsOwnerSlice :: "loop_chain \<Rightarrow> val \<Rightarrow> val \<Rightarrow> bool" where
  "loopIvSelectsOwnerSlice [] iv ownerIv = (iv = ownerIv \<or> dependsOn 0 iv ownerIv)"
| "loopIvSelectsOwnerSlice ((v, lb, ub) # loops) iv ownerIv =
     (if iv = ownerIv \<or> dependsOn 0 iv ownerIv then True
      else if isBlockArg iv \<and> v = iv
      then loopIvSelectsOwnerSlice loops lb ownerIv \<or> loopIvSelectsOwnerSlice loops ub ownerIv
      else loopIvSelectsOwnerSlice loops iv ownerIv)"

definition accessMapUsesOwnerSliceAtPhysicalDim :: "loop_chain \<Rightarrow> affine_map \<Rightarrow> nat \<Rightarrow> val list \<Rightarrow> nat \<Rightarrow> bool"
where
  "accessMapUsesOwnerSliceAtPhysicalDim loops m physicalDim ivs ownerLoopDim =
     (if physicalDim \<ge> length m \<or> ownerLoopDim \<ge> length ivs then False
      else case extractDimOffset (m ! physicalDim) of
             Some (Some d, k) \<Rightarrow>
               if k \<noteq> 0 \<or> d \<ge> length ivs then False
               else loopIvSelectsOwnerSlice loops (ivs ! d) (ivs ! ownerLoopDim)
           | _ \<Rightarrow> False)"

definition accessEntriesUseOwnerDimForRoot ::
  "loop_chain \<Rightarrow> access_entry list \<Rightarrow> val list \<Rightarrow> val \<Rightarrow> nat \<Rightarrow> nat \<Rightarrow> bool" where
  "accessEntriesUseOwnerDimForRoot loops accesses ivs buf physicalDim ownerLoopDim =
     (let hits = filter (\<lambda>a. stripMemrefViewOps (acc_memref a) = buf) accesses
      in list_all (\<lambda>a. accessMapUsesOwnerSliceAtPhysicalDim loops (indexingMap a) physicalDim ivs ownerLoopDim) hits \<and>
         hits \<noteq> [])"

text \<open>\<open>mu_alloc\<close>: the value is defined by an \<open>sde.mu_alloc\<close>.\<close>

fun is_mu_alloc :: "val \<Rightarrow> bool" where
  "is_mu_alloc (OtherOp i n t name xs) = (name = ''sde.mu_alloc'')"
| "is_mu_alloc _ = False"

definition hasSingleWriteReadIntermediate :: "effect_summary \<Rightarrow> effect_summary \<Rightarrow> val option" where
  "hasSingleWriteReadIntermediate pe se =
     (if hasUnknownEffects pe \<or> hasUnknownEffects se then None
      else case eff_writes pe of
        [candidate] \<Rightarrow>
          (if \<not> is_mu_alloc (stripMemrefViewOps candidate) then None
           else if candidate \<notin> set (eff_reads se) then None
           else if candidate \<in> set (eff_writes se) then None
           else if list_ex (\<lambda>w. w \<in> set (eff_reads pe) \<or> w \<in> set (eff_writes pe)) (eff_writes se) then None
           else Some candidate)
      | _ \<Rightarrow> None)"

text \<open>The summary of \<open>analyzeStructuredLoop\<close> is an argument: \<open>A\<close>.\<close>

definition canPipelineThroughTokenLocalMemoryDeps ::
  "mlir \<Rightarrow> loop_chain \<Rightarrow> (sop \<Rightarrow> loop_summary option) \<Rightarrow> su \<Rightarrow> su \<Rightarrow> effect_summary \<Rightarrow> effect_summary \<Rightarrow> bool" where
  "canPipelineThroughTokenLocalMemoryDeps P loops A p s pe se =
     (if \<not> isPipelineableStructuredClassification p \<or> \<not> isPipelineableStructuredClassification s then False
      else if \<not> haveSdeApprovedTiledTimestepPlan P p s then False
      else if iterationTopology (snd p) \<noteq> Some OwnerStrip \<or> \<not> sameSdeIterationTopology (snd p) (snd s) then False
      else case (getSinglePhysicalOwnerDim (snd p), getSinglePhysicalOwnerDim (snd s)) of
        (Some pd, Some sd) \<Rightarrow>
          (if pd \<noteq> sd then False
           else case hasSingleWriteReadIntermediate pe se of
             None \<Rightarrow> False
           | Some intermediate \<Rightarrow>
               (case (A (fst p), A (fst s)) of
                  (Some ps, Some ss) \<Rightarrow>
                    (if nest_ivs ps = [] \<or> nest_ivs ss = [] then False
                     else accessEntriesUseOwnerDimForRoot loops (ls_writes ps) (nest_ivs ps) intermediate pd 0 \<and>
                          accessEntriesUseOwnerDimForRoot loops (ls_reads ss) (nest_ivs ss) intermediate sd 0)
                | _ \<Rightarrow> False))
      | _ \<Rightarrow> False)"

fun written_shape :: "val \<Rightarrow> int list option" where
  "written_shape v = (case type_of (stripMemrefViewOps v) of MemRefTy ds t \<Rightarrow> all_some ds | _ \<Rightarrow> None)"

definition getUniqueStaticWrittenShape :: "effect_summary \<Rightarrow> int list option" where
  "getUniqueStaticWrittenShape effects =
     (case map written_shape (eff_writes effects) of
        [] \<Rightarrow> None
      | None # shs \<Rightarrow> None
      | Some sh # shs \<Rightarrow> if list_all (\<lambda>x. x = Some sh) shs then Some sh else None)"

definition haveSameStaticWrittenShape :: "effect_summary \<Rightarrow> effect_summary \<Rightarrow> bool" where
  "haveSameStaticWrittenShape l r =
     (getUniqueStaticWrittenShape l \<noteq> None \<and> getUniqueStaticWrittenShape l = getUniqueStaticWrittenShape r)"

definition isTimestepInterstitialOp :: "sop \<Rightarrow> bool" where
  "isTimestepInterstitialOp op =
     (if sregions op \<noteq> [] then
        let effects = collectStructuredMemoryEffects op
        in \<not> hasUnknownEffects effects \<and> no_memory_effects effects
      else \<not> hasUnmodeledMemoryEffect op)"

section \<open>Stamping of timestep plans\<close>

definition set_jacobi :: "nat \<Rightarrow> bool \<Rightarrow> sde_module \<Rightarrow> sde_module" where
  "set_jacobi u stencil M = (if stencil then set_plan u (\<lambda>p. p\<lparr>su_pattern := Some PatJacobi\<rparr>) M else M)"

definition stampJacobiTimestepPlan :: "nat \<Rightarrow> nat \<Rightarrow> bool \<Rightarrow> bool \<Rightarrow> sde_module \<Rightarrow> sde_module" where
  "stampJacobiTimestepPlan p s pStencil sStencil M =
     set_jacobi s sStencil (set_jacobi p pStencil (stampRepeatedTimestepPlan s (stampRepeatedTimestepPlan p M)))"

text \<open>\<open>None\<close> when no plan is recognised and nothing changes.\<close>

definition stampTimestepPlanIfRecognized ::
  "mlir \<Rightarrow> sop \<Rightarrow> sop \<Rightarrow> effect_summary \<Rightarrow> effect_summary \<Rightarrow> bool \<Rightarrow> bool \<Rightarrow> sde_module \<Rightarrow> sde_module option" where
  "stampTimestepPlanIfRecognized P pOp sOp pe se allowStencilStencilPlan allowUniformUniformPlan M =
     (if hasUnknownEffects pe \<or> hasUnknownEffects se then None
      else
        let p = su_of M pOp; s = su_of M sOp;
            compatible = haveCompatibleTimestepIterationPlan P p s;
            repeated = stampRepeatedTimestepPlan (sid sOp) (stampRepeatedTimestepPlan (sid pOp) M);
            coarsen = (\<lambda>N. coarsenRepeatedStencilSlice (sid sOp) (coarsenRepeatedStencilSlice (sid pOp) N));
            pStencil = isOutOfPlaceStencilStage (snd p) pe; sStencil = isOutOfPlaceStencilStage (snd s) se;
            pUniform = isUniformRepeatableStage p; sUniform = isUniformRepeatableStage s
        in if pUniform \<and> sUniform \<and> compatible \<and> allowUniformUniformPlan \<and> writesIntersectReads pe se \<and>
              haveCompatiblePhysicalTimestepPlan (snd p) (snd s)
           then Some repeated
           else if \<not> hasAlternatingBufferExchange pe se then None
           else if pStencil \<and> sStencil \<and> compatible \<and> allowStencilStencilPlan then Some (coarsen repeated)
           else if (pStencil \<and> sUniform \<or> pUniform \<and> sStencil) \<and>
                   (compatible \<or> haveSameStaticWrittenShape pe se)
           then Some (coarsen (stampJacobiTimestepPlan (sid pOp) (sid sOp) pStencil sStencil M))
           else None)"

definition classified :: "sde_module \<Rightarrow> sop \<Rightarrow> bool" where
  "classified M u = (structuredClassification (plan_of M (sid u)) \<noteq> None)"

definition stampAdjacentTimestepPair :: "mlir \<Rightarrow> sop \<Rightarrow> sop \<Rightarrow> sde_module \<Rightarrow> sde_module" where
  "stampAdjacentTimestepPair P predOp succOp M =
     (case (findSuIterate predOp, findSuIterate succOp) of
        (Some p, Some s) \<Rightarrow>
          (if \<not> classified M p \<or> \<not> classified M s then M
           else case stampTimestepPlanIfRecognized P p s (collectStructuredMemoryEffects p)
                       (collectStructuredMemoryEffects s) True False M of
                  None \<Rightarrow> M
                | Some N \<Rightarrow> N)
      | _ \<Rightarrow> M)"

fun stamp_pairs :: "mlir \<Rightarrow> sop list \<Rightarrow> sop option \<Rightarrow> sde_module \<Rightarrow> sde_module" where
  "stamp_pairs P [] previousStage M = M"
| "stamp_pairs P (op # ops) previousStage M =
     (if findSuIterate op \<noteq> None
      then stamp_pairs P ops (Some op)
             (case previousStage of None \<Rightarrow> M | Some p \<Rightarrow> stampAdjacentTimestepPair P p op M)
      else if isTimestepInterstitialOp op then stamp_pairs P ops previousStage M
      else stamp_pairs P ops None M)"

definition stampAdjacentTimestepPairsInLoop :: "mlir \<Rightarrow> sop \<Rightarrow> sde_module \<Rightarrow> sde_module" where
  "stampAdjacentTimestepPairsInLoop P loop M = stamp_pairs P (without_terminator (body_of loop)) None M"

section \<open>Planning of barriers\<close>

text \<open>
  The operations of a module in walk order, each with the operations before it in its block,
  nearest first, and those after it.
\<close>

type_synonym site = "sop list \<times> sop \<times> sop list"

fun op_sites :: "sop \<Rightarrow> site list" and block_sites :: "sop list \<Rightarrow> sop list \<Rightarrow> site list"
  and regions_sites :: "sop list list \<Rightarrow> site list" where
  "op_sites (Op i k vs rs) = regions_sites rs"
| "block_sites before [] = []"
| "block_sites before (q # qs) = op_sites q @ (before, q, qs) # block_sites (q # before) qs"
| "regions_sites [] = []"
| "regions_sites (b # bs) = block_sites [] b @ regions_sites bs"

definition module_sites :: "sde_module \<Rightarrow> site list" where
  "module_sites M = concat (map (\<lambda>(f, b). block_sites [] b) (sde_functions M))"

definition module_walk :: "sde_module \<Rightarrow> sop list" where
  "module_walk M = concat (map (\<lambda>(f, b). block_walk b) (sde_functions M))"

fun op_loops :: "sop \<Rightarrow> loop_chain" where
  "op_loops (Op i k vs rs) =
     (case k of ForK iv l u xs \<Rightarrow> [(iv, l, u)] | _ \<Rightarrow> []) @ concat (map (\<lambda>b. concat (map op_loops b)) rs)"

definition module_loops :: "sde_module \<Rightarrow> loop_chain" where
  "module_loops M = rev (concat (map (\<lambda>(f, b). concat (map op_loops b)) (sde_functions M)))"

text \<open>The nearest container of a scheduling unit, past operations without effects on memory.\<close>

fun nearest_container :: "sop list \<Rightarrow> sop option" where
  "nearest_container [] = None"
| "nearest_container (q # qs) =
     (if isSuContainer q then Some q else if \<not> isMemoryEffectFree q then None else nearest_container qs)"

datatype verdict = Undecided | IsRedundant | IsFrontier | IsTokenLocal | IsTimestep sde_module | IsRequired

definition judge_barrier ::
  "mlir \<Rightarrow> loop_chain \<Rightarrow> (sop \<Rightarrow> loop_summary option) \<Rightarrow> sop list \<Rightarrow> sop list \<Rightarrow> sde_module \<Rightarrow> verdict" where
  "judge_barrier P loops A before after M =
     (case (nearest_container before, nearest_container after) of
        (Some predOp, Some succOp) \<Rightarrow>
          (case (findSuIterate predOp, findSuIterate succOp) of
             (Some p, Some s) \<Rightarrow>
               (if \<not> classified M p \<or> \<not> classified M s then Undecided
                else
                  let pe = collectStructuredMemoryEffects predOp; se = collectStructuredMemoryEffects succOp
                  in if hasUnknownEffects pe \<or> hasUnknownEffects se then Undecided
                     else if no_memory_effects pe \<and> no_memory_effects se then Undecided
                     else if \<not> hasWriteConflictWith pe se then IsRedundant
                     else if isWavefrontFrontierStage (plan_of M (sid p)) \<or>
                             isWavefrontFrontierStage (plan_of M (sid s)) then IsFrontier
                     else if canPipelineThroughTokenLocalMemoryDeps P loops A (su_of M p) (su_of M s) pe se
                     then IsTokenLocal
                     else case stampTimestepPlanIfRecognized P p s pe se True True M of
                            Some N \<Rightarrow> IsTimestep N
                          | None \<Rightarrow> IsRequired)
           | _ \<Rightarrow> Undecided)
      | _ \<Rightarrow> Undecided)"

definition apply_verdict :: "nat \<Rightarrow> verdict \<Rightarrow> sde_module \<Rightarrow> sde_module" where
  "apply_verdict b v M =
     (case v of
        Undecided \<Rightarrow> M
      | IsRedundant \<Rightarrow> setBarrierReason b Redundant (setBarrierEliminated b M)
      | IsFrontier \<Rightarrow> setBarrierReason b WavefrontFrontier M
      | IsTokenLocal \<Rightarrow> setBarrierReason b RequiredMemory (setBarrierEliminated b M)
      | IsTimestep N \<Rightarrow> setBarrierReason b TimestepStageBoundary N
      | IsRequired \<Rightarrow> setBarrierReason b RequiredMemory M)"

definition plan_barrier ::
  "mlir \<Rightarrow> loop_chain \<Rightarrow> (sop \<Rightarrow> loop_summary option) \<Rightarrow> site \<Rightarrow> sde_module \<Rightarrow> sde_module" where
  "plan_barrier P loops A site M =
     (case site of
        (before, op, after) \<Rightarrow>
          (if isSuBarrier (skind op) then
             let M' = setBarrierReason (sid op) UnknownRequired M
             in apply_verdict (sid op) (judge_barrier P loops A before after M') M'
           else M))"

definition plan_barriers :: "mlir \<Rightarrow> (sop \<Rightarrow> loop_summary option) \<Rightarrow> sde_module \<Rightarrow> sde_module" where
  "plan_barriers P A M = fold (plan_barrier P (module_loops M) A) (module_sites M) M"

definition stamp_loops :: "mlir \<Rightarrow> sde_module \<Rightarrow> sde_module" where
  "stamp_loops P M =
     fold (\<lambda>q N. if isFor (skind q) then stampAdjacentTimestepPairsInLoop P q N else N) (module_walk M) M"

section \<open>Candidate groups\<close>

definition attr_next :: "int option option \<Rightarrow> int \<Rightarrow> int" where
  "attr_next a n = (case a of Some (Some g) \<Rightarrow> max n (wrap64 (g + 1)) | _ \<Rightarrow> n)"

definition findNextCandidateGroupId :: "sde_module \<Rightarrow> int" where
  "findNextCandidateGroupId M =
     fold (\<lambda>u n. attr_next (map_option Some (cpsGroupId (plan_of M (sid u))))
                   (attr_next (candidateGroupId (plan_of M (sid u))) n))
       (iterates (module_walk M)) 0"

definition canUseAdjacentCandidateStage :: "sde_module \<Rightarrow> nat \<Rightarrow> bool" where
  "canUseAdjacentCandidateStage M u =
     (isSdeCpsCandidateStage (plan_of M u) \<and> \<not> hasCandidateAttrs (plan_of M u))"

definition canStampCandidatePair :: "sde_module \<Rightarrow> nat \<Rightarrow> nat \<Rightarrow> bool" where
  "canStampCandidatePair M first second =
     (if \<not> isSdeCpsCandidateStage (plan_of M first) \<or> \<not> isSdeCpsCandidateStage (plan_of M second) then False
      else \<not> (hasCandidateAttrs (plan_of M first) \<or> hasCandidateAttrs (plan_of M second)))"

definition candidate_plan :: "int \<Rightarrow> nat \<Rightarrow> nat \<Rightarrow> su_plan \<Rightarrow> su_plan" where
  "candidate_plan groupId stageIndex stageCount p =
     p\<lparr>candidateGroupId := Some (Some groupId), candidateStageIndex := Some (Some (int stageIndex)),
       candidateStageCount := Some (Some (int stageCount)), candidateRequiresTokens := Some True\<rparr>"

definition stampCandidateGroup :: "nat list \<Rightarrow> int \<Rightarrow> sde_module \<Rightarrow> sde_module" where
  "stampCandidateGroup stages groupId M =
     fold (\<lambda>(index, u). set_plan u (candidate_plan groupId index (length stages))) (enumerate 0 stages) M"

definition stampCandidatePair :: "nat \<Rightarrow> nat \<Rightarrow> int \<Rightarrow> sde_module \<Rightarrow> sde_module" where
  "stampCandidatePair first second groupId M = stampCandidateGroup [first, second] groupId M"

text \<open>
  A change of the tree: every operation of every block is replaced by the operations \<open>f\<close> gives
  for it.
\<close>

fun expand_op :: "(sop \<Rightarrow> sop list) \<Rightarrow> sop \<Rightarrow> sop" where
  "expand_op f (Op i k vs rs) = Op i k vs (map (\<lambda>b. concat (map (\<lambda>q. f (expand_op f q)) b)) rs)"

definition expand :: "(sop \<Rightarrow> sop list) \<Rightarrow> sop list \<Rightarrow> sop list" where
  "expand f b = concat (map (\<lambda>q. f (expand_op f q)) b)"

definition edit_module :: "(sop \<Rightarrow> sop list) \<Rightarrow> sde_module \<Rightarrow> sde_module" where
  "edit_module f M = M\<lparr>sde_functions := map (\<lambda>(n, b). (n, expand f b)) (sde_functions M)\<rparr>"

definition new_ops :: "sde_module \<Rightarrow> nat list \<Rightarrow> barrier_attrs \<Rightarrow> sde_module" where
  "new_ops M tokens attrs = M\<lparr>fresh_op := fresh_op M + 2, barrier_of := (barrier_of M)(fresh_op M + 1 := attrs)\<rparr>"

definition token_op :: "sde_module \<Rightarrow> sop" where
  "token_op M = Op (fresh_op M) ControlTokenK [] []"

definition barrier_op :: "sde_module \<Rightarrow> nat list \<Rightarrow> sop" where
  "barrier_op M tokens = Op (fresh_op M + 1) (SuBarrierK tokens) [] []"

fun barrier_tokens :: "op_kind \<Rightarrow> nat list" where
  "barrier_tokens (SuBarrierK ts) = ts"
| "barrier_tokens _ = []"

text \<open>
  The barrier is replaced by one that waits for a new token after the container too, with the
  attributes of the old one.
\<close>

definition attachStageCompletionToBarrier :: "sop \<Rightarrow> sop \<Rightarrow> sde_module \<Rightarrow> sde_module" where
  "attachStageCompletionToBarrier container barrier M =
     (let tokens = barrier_tokens (skind barrier) @ [fresh_op M]
      in edit_module
           (\<lambda>q. if sid q = sid container then [q, token_op M]
                else if sid q = sid barrier \<and> isSuBarrier (skind q)
                then [Op (fresh_op M + 1) (SuBarrierK tokens) (sresults q) (sregions q)]
                else [q])
           (new_ops M tokens (barrier_of M (sid barrier))))"

definition insertStageCompletionBarrier :: "sop \<Rightarrow> sop \<Rightarrow> sde_module \<Rightarrow> sde_module" where
  "insertStageCompletionBarrier first second M =
     edit_module
       (\<lambda>q. if sid q = sid first then [q, token_op M]
            else if sid q = sid second then [barrier_op M [fresh_op M], q]
            else [q])
       (new_ops M [fresh_op M] \<lparr>barrierEliminated = False, barrierReason = Some TimestepStageBoundary\<rparr>)"

definition delimited_step :: "nat \<Rightarrow> sde_module \<times> int \<Rightarrow> sde_module \<times> int" where
  "delimited_step b st =
     (case st of (M, g) \<Rightarrow>
        (case List.find (\<lambda>(before, q, after). sid q = b) (module_sites M) of
           None \<Rightarrow> (M, g)
         | Some (before, barrier, after) \<Rightarrow>
             (case (nearest_container before, nearest_container after) of
                (Some firstContainer, Some secondContainer) \<Rightarrow>
                  (case (findSuIterate firstContainer, findSuIterate secondContainer) of
                     (Some first, Some second) \<Rightarrow>
                       (if canStampCandidatePair M (sid first) (sid second)
                        then (stampCandidatePair (sid first) (sid second) g
                                (attachStageCompletionToBarrier firstContainer barrier M), g + 1)
                        else (M, g))
                   | _ \<Rightarrow> (M, g))
              | _ \<Rightarrow> (M, g))))"

definition timestep_barriers :: "sde_module \<Rightarrow> nat list" where
  "timestep_barriers M =
     map sid (filter (\<lambda>q. isSuBarrier (skind q) \<and> isTimestepBarrier (barrier_of M (sid q))) (module_walk M))"

definition stampBarrierDelimitedCandidates :: "sde_module \<times> int \<Rightarrow> sde_module \<times> int" where
  "stampBarrierDelimitedCandidates st = fold delimited_step (timestep_barriers (fst st)) st"

fun isYield :: "op_kind \<Rightarrow> bool" where
  "isYield (YieldK xs) = True"
| "isYield _ = False"

definition isTransparentBetweenTimestepCandidates :: "sde_module \<Rightarrow> sop \<Rightarrow> bool" where
  "isTransparentBetweenTimestepCandidates M op =
     (if isYield (skind op) then True
      else if isSuBarrier (skind op) then \<not> isTimestepBarrier (barrier_of M (sid op))
      else isTimestepInterstitialOp op)"

fun insert_completions :: "sop list \<Rightarrow> sde_module \<Rightarrow> sde_module" where
  "insert_completions (p # q # qs) M = insert_completions (q # qs) (insertStageCompletionBarrier p q M)"
| "insert_completions _ M = M"

definition flush_chain :: "sop list \<Rightarrow> sde_module \<times> int \<Rightarrow> sde_module \<times> int" where
  "flush_chain chain st =
     (case st of (M, g) \<Rightarrow>
        if length chain < 2 then (M, g)
        else case all_some (map findSuIterate chain) of
          None \<Rightarrow> (M, g)
        | Some stages \<Rightarrow>
            if \<not> list_all (\<lambda>u. canUseAdjacentCandidateStage M (sid u)) stages then (M, g)
            else (stampCandidateGroup (map sid stages) g (insert_completions chain M), g + 1))"

fun scan_chain :: "sop list \<Rightarrow> sop list \<Rightarrow> sde_module \<times> int \<Rightarrow> sde_module \<times> int" where
  "scan_chain [] chain st = flush_chain chain st"
| "scan_chain (op # ops) chain st =
     (case findSuIterate op of
        Some u \<Rightarrow>
          (let (chain', st') = (if \<not> canUseAdjacentCandidateStage (fst st) (sid u) then ([], flush_chain chain st)
                                else (chain, st))
           in if canUseAdjacentCandidateStage (fst st') (sid u) then scan_chain ops (chain' @ [op]) st'
              else scan_chain ops chain' st')
      | None \<Rightarrow>
          if isTransparentBetweenTimestepCandidates (fst st) op then scan_chain ops chain st
          else scan_chain ops [] (flush_chain chain st))"

definition stampAdjacentLoopCandidates :: "sop \<Rightarrow> sde_module \<times> int \<Rightarrow> sde_module \<times> int" where
  "stampAdjacentLoopCandidates loop st = scan_chain (without_terminator (body_of loop)) [] st"

definition loop_step :: "nat \<Rightarrow> sde_module \<times> int \<Rightarrow> sde_module \<times> int" where
  "loop_step l st =
     (case List.find (\<lambda>q. sid q = l) (module_walk (fst st)) of
        None \<Rightarrow> st
      | Some loop \<Rightarrow> stampAdjacentLoopCandidates loop st)"

definition loop_ids :: "sde_module \<Rightarrow> nat list" where
  "loop_ids M = map sid (filter (\<lambda>q. isFor (skind q)) (module_walk M))"

definition stamp_candidates :: "sde_module \<Rightarrow> sde_module" where
  "stamp_candidates M =
     (let st = stampBarrierDelimitedCandidates (M, findNextCandidateGroupId M)
      in fst (fold loop_step (loop_ids (fst st)) st))"

definition BarrierEliminationPass :: "mlir \<Rightarrow> (sop \<Rightarrow> loop_summary option) \<Rightarrow> sde_module \<Rightarrow> sde_module" where
  "BarrierEliminationPass P A M = stamp_candidates (stamp_loops P (plan_barriers P A M))"

end
