(* ===== verification/BarrierSafety.thy ===== *)
theory BarrierSafety
  imports Barriers
begin

text \<open>
  What the planning of barriers guarantees: an eliminated barrier stands between units whose
  accesses can be interleaved freely, or between a producer and a consumer of one buffer; every
  barrier is decided; stages that can be grouped are grouped.
\<close>

section \<open>What the stamps leave alone\<close>

definition same_frame :: "sde_module \<Rightarrow> sde_module \<Rightarrow> bool" where
  "same_frame M N = (sde_functions N = sde_functions M \<and> barrier_of N = barrier_of M \<and> fresh_op N = fresh_op M)"

lemma same_frame_refl [simp]: "same_frame M M"
  by (simp add: same_frame_def)

lemma same_frame_trans: "same_frame L M \<Longrightarrow> same_frame M N \<Longrightarrow> same_frame L N"
  by (simp add: same_frame_def)

lemma set_plan_frame [simp]: "same_frame L (set_plan u f M) = same_frame L M"
  by (simp add: same_frame_def set_plan_def)

lemmas stamp_defs = stampRepeatedTimestepPlan_def coarsenRepeatedStencilSlice_def set_jacobi_def
  stampJacobiTimestepPlan_def

lemma stamped_frame: "stampTimestepPlanIfRecognized P p s pe se a b M = Some N \<Longrightarrow> same_frame M N"
  unfolding stampTimestepPlanIfRecognized_def Let_def
  by (auto simp: stamp_defs split: if_splits)

lemma stamp_pair_frame [simp]: "same_frame M (stampAdjacentTimestepPair P p s M)"
  unfolding stampAdjacentTimestepPair_def using stamped_frame by (auto split: option.splits)

lemma stamp_pairs_frame: "same_frame L M \<Longrightarrow> same_frame L (stamp_pairs P ops prev M)"
proof (induction ops arbitrary: prev M)
  case (Cons op ops)
  have "same_frame L (case prev of None \<Rightarrow> M | Some p \<Rightarrow> stampAdjacentTimestepPair P p op M)"
    using Cons.prems same_frame_trans [OF _ stamp_pair_frame] by (cases prev) simp_all
  then show ?case using Cons by simp
qed simp

lemma stamp_loops_frame: "same_frame M (stamp_loops P M)"
proof -
  have "same_frame M (fold (\<lambda>q N. if isFor (skind q) then stampAdjacentTimestepPairsInLoop P q N else N) qs N)"
    if "same_frame M N" for qs N
    using that
  proof (induction qs arbitrary: N)
    case (Cons q qs)
    have "same_frame M (if isFor (skind q) then stampAdjacentTimestepPairsInLoop P q N else N)"
      using Cons.prems by (simp add: stampAdjacentTimestepPairsInLoop_def stamp_pairs_frame)
    then show ?case using Cons.IH by simp
  qed simp
  then show ?thesis by (simp add: stamp_loops_def)
qed

lemma group_frame: "same_frame M (stampCandidateGroup us g M)"
proof -
  have "same_frame M (fold (\<lambda>(i, u). set_plan u (candidate_plan g i n)) xs N)" if "same_frame M N" for xs n N
    using that by (induction xs arbitrary: N) auto
  then show ?thesis by (simp add: stampCandidateGroup_def)
qed

text \<open>The candidate phase adds tokens and barriers but keeps the attributes of the barriers there are.\<close>

definition keeps_barriers :: "sde_module \<Rightarrow> sde_module \<Rightarrow> bool" where
  "keeps_barriers M N = (fresh_op M \<le> fresh_op N \<and> (\<forall>b<fresh_op M. barrier_of N b = barrier_of M b))"

lemma keeps_refl [simp]: "keeps_barriers M M"
  by (simp add: keeps_barriers_def)

lemma keeps_trans: "keeps_barriers L M \<Longrightarrow> keeps_barriers M N \<Longrightarrow> keeps_barriers L N"
  by (simp add: keeps_barriers_def)

lemma frame_keeps: "same_frame M N \<Longrightarrow> keeps_barriers M N"
  by (simp add: keeps_barriers_def same_frame_def)

lemma group_keeps: "keeps_barriers L M \<Longrightarrow> keeps_barriers L (stampCandidateGroup us g M)"
  using keeps_trans frame_keeps group_frame by blast

lemma attach_keeps: "keeps_barriers M (attachStageCompletionToBarrier c b M)"
  by (simp add: attachStageCompletionToBarrier_def keeps_barriers_def edit_module_def new_ops_def Let_def)

lemma insert_keeps: "keeps_barriers M (insertStageCompletionBarrier c d M)"
  by (simp add: insertStageCompletionBarrier_def keeps_barriers_def edit_module_def new_ops_def)

lemma insertions_keep: "keeps_barriers M (insert_completions chain M)"
  by (induction chain M rule: insert_completions.induct)
    (auto intro: keeps_trans insert_keeps)

lemma flush_keeps: "keeps_barriers (fst st) (fst (flush_chain chain st))"
  by (auto simp: flush_chain_def split: prod.splits option.splits intro: group_keeps insertions_keep)

lemma scan_keeps: "keeps_barriers (fst st) (fst (scan_chain ops chain st))"
proof (induction ops arbitrary: chain st)
  case (Cons op ops)
  show ?case
    by (auto simp: Let_def split: option.split intro: Cons.IH keeps_trans [OF flush_keeps])
qed (simp add: flush_keeps)

lemma delimited_keeps: "keeps_barriers (fst st) (fst (delimited_step b st))"
  by (auto simp: delimited_step_def stampCandidatePair_def split: prod.splits option.splits
      intro: group_keeps attach_keeps)

lemma loop_keeps: "keeps_barriers (fst st) (fst (loop_step l st))"
  by (auto simp: loop_step_def stampAdjacentLoopCandidates_def scan_keeps split: option.split)

lemma fold_keeps:
  assumes "\<And>x st. keeps_barriers (fst st) (fst (f x st))"
  shows "keeps_barriers (fst st) (fst (fold f xs st))"
proof (induction xs arbitrary: st)
  case (Cons x xs)
  show ?case using keeps_trans [OF assms Cons.IH] by simp
qed simp

lemma candidates_keep: "keeps_barriers M (stamp_candidates M)"
proof -
  let ?st = "stampBarrierDelimitedCandidates (M, findNextCandidateGroupId M)"
  have "keeps_barriers M (fst ?st)"
    using fold_keeps [of delimited_step "(M, findNextCandidateGroupId M)"] delimited_keeps
    by (simp add: stampBarrierDelimitedCandidates_def)
  moreover have "keeps_barriers (fst ?st) (fst (fold loop_step (loop_ids (fst ?st)) ?st))"
    by (rule fold_keeps) (rule loop_keeps)
  ultimately show ?thesis by (auto simp: stamp_candidates_def Let_def intro: keeps_trans)
qed

section \<open>The verdicts\<close>

lemma judge_frame: "judge_barrier P loops A before after M = IsTimestep N \<Longrightarrow> same_frame M N"
  unfolding judge_barrier_def Let_def
  by (auto split: option.splits if_splits dest: stamped_frame)

lemma plan_barrier_frame:
  "sde_functions (plan_barrier P loops A site M) = sde_functions M \<and>
   fresh_op (plan_barrier P loops A site M) = fresh_op M \<and>
   (\<forall>b. b \<noteq> sid (fst (snd site)) \<longrightarrow> barrier_of (plan_barrier P loops A site M) b = barrier_of M b)"
proof -
  obtain before op after where s: "site = (before, op, after)" by (metis prod_cases3)
  let ?M = "setBarrierReason (sid op) UnknownRequired M"
  show ?thesis
    by (cases "judge_barrier P loops A before after ?M")
      (use judge_frame [of P loops A before after ?M] in
        \<open>auto simp: s plan_barrier_def apply_verdict_def Let_def setBarrierReason_def setBarrierEliminated_def
           same_frame_def\<close>)
qed

lemma planned_reason:
  assumes "isSuBarrier (skind op)"
  shows "barrierReason (barrier_of (plan_barrier P loops A (before, op, after) M) (sid op)) \<noteq> None"
proof -
  let ?M = "setBarrierReason (sid op) UnknownRequired M"
  show ?thesis
    by (cases "judge_barrier P loops A before after ?M")
      (use assms in \<open>auto simp: plan_barrier_def apply_verdict_def Let_def setBarrierReason_def
          setBarrierEliminated_def\<close>)
qed

lemma planned_elimination:
  assumes "barrierEliminated (barrier_of (plan_barrier P loops A (before, op, after) M) (sid op))"
    and "\<not> barrierEliminated (barrier_of M (sid op))"
  shows "\<exists>N. judge_barrier P loops A before after N = IsRedundant \<and>
             barrierReason (barrier_of (plan_barrier P loops A (before, op, after) M) (sid op)) = Some Redundant \<or>
           judge_barrier P loops A before after N = IsTokenLocal \<and>
             barrierReason (barrier_of (plan_barrier P loops A (before, op, after) M) (sid op)) = Some RequiredMemory"
proof -
  let ?M = "setBarrierReason (sid op) UnknownRequired M"
  have b: "isSuBarrier (skind op)"
    using assms by (cases "isSuBarrier (skind op)") (simp_all add: plan_barrier_def)
  have "judge_barrier P loops A before after ?M = IsRedundant \<and>
          barrierReason (barrier_of (plan_barrier P loops A (before, op, after) M) (sid op)) = Some Redundant \<or>
        judge_barrier P loops A before after ?M = IsTokenLocal \<and>
          barrierReason (barrier_of (plan_barrier P loops A (before, op, after) M) (sid op)) = Some RequiredMemory"
  proof (cases "judge_barrier P loops A before after ?M")
    case (IsTimestep N)
    then have "barrier_of N = barrier_of ?M" using judge_frame by (simp add: same_frame_def)
    then show ?thesis using assms b IsTimestep
      by (simp add: plan_barrier_def apply_verdict_def Let_def setBarrierReason_def)
  qed (use assms b in \<open>simp_all add: plan_barrier_def apply_verdict_def Let_def setBarrierReason_def
          setBarrierEliminated_def\<close>)
  then show ?thesis by blast
qed

section \<open>Every barrier\<close>

definition site_op :: "site \<Rightarrow> nat" where
  "site_op s = sid (fst (snd s))"

lemma fold_other:
  "b \<notin> set (map site_op sites) \<Longrightarrow> barrier_of (fold (plan_barrier P loops A) sites M) b = barrier_of M b"
proof (induction sites arbitrary: M)
  case (Cons s sites)
  then show ?case using plan_barrier_frame [of P loops A s M] by (simp add: site_op_def)
qed simp

text \<open>A barrier is planned at one site; what its planning leaves stays until the end of the pass.\<close>

lemma pass_at_barrier:
  assumes "(before, op, after) \<in> set (module_sites M)" "distinct (map site_op (module_sites M))"
    and "sid op < fresh_op M"
  shows "\<exists>N. barrier_of (BarrierEliminationPass P A M) (sid op) =
               barrier_of (plan_barrier P (module_loops M) A (before, op, after) N) (sid op) \<and>
             barrier_of N (sid op) = barrier_of M (sid op)"
proof -
  let ?f = "plan_barrier P (module_loops M) A"
  obtain xs ys where s: "module_sites M = xs @ (before, op, after) # ys"
    using assms(1) by (meson split_list)
  then have n: "sid op \<notin> set (map site_op xs)" "sid op \<notin> set (map site_op ys)"
    using assms(2) by (auto simp: site_op_def)
  let ?N = "fold ?f xs M"
  let ?Q = "plan_barriers P A M"
  have q: "barrier_of ?Q (sid op) = barrier_of (?f (before, op, after) ?N) (sid op)"
    using n(2) by (simp add: plan_barriers_def s fold_other)
  have "fresh_op (fold ?f sites L) = fresh_op L" for sites L
    by (induction sites arbitrary: L) (simp_all add: plan_barrier_frame)
  then have f: "fresh_op ?Q = fresh_op M" by (simp add: plan_barriers_def)
  have "keeps_barriers ?Q (BarrierEliminationPass P A M)"
    unfolding BarrierEliminationPass_def
    by (rule keeps_trans [OF frame_keeps [OF stamp_loops_frame] candidates_keep])
  then have "barrier_of (BarrierEliminationPass P A M) (sid op) = barrier_of ?Q (sid op)"
    using assms(3) f by (simp add: keeps_barriers_def)
  then show ?thesis using q fold_other [OF n(1)] by metis
qed

lemma pipelined_intermediate:
  "canPipelineThroughTokenLocalMemoryDeps P loops A p s pe se \<Longrightarrow> hasSingleWriteReadIntermediate pe se \<noteq> None"
  by (cases "hasSingleWriteReadIntermediate pe se"; cases "getSinglePhysicalOwnerDim (snd p)";
      cases "getSinglePhysicalOwnerDim (snd s)")
    (simp_all add: canPipelineThroughTokenLocalMemoryDeps_def split: if_splits)

lemma judged:
  assumes "judge_barrier P loops A before after N = IsRedundant \<or>
           judge_barrier P loops A before after N = IsTokenLocal"
  shows "\<exists>p s. nearest_container before = Some p \<and> nearest_container after = Some s \<and>
    (let pe = collectStructuredMemoryEffects p; se = collectStructuredMemoryEffects s
     in \<not> hasUnknownEffects pe \<and> \<not> hasUnknownEffects se \<and>
        (if judge_barrier P loops A before after N = IsRedundant then \<not> hasWriteConflictWith pe se
         else hasSingleWriteReadIntermediate pe se \<noteq> None))"
proof (cases "nearest_container before")
  case (Some p)
  note p = Some
  show ?thesis
  proof (cases "nearest_container after")
    case (Some s)
    show ?thesis
    proof (intro exI conjI, rule p, rule Some, cases "findSuIterate p")
      case (Some u)
      then show "let pe = collectStructuredMemoryEffects p; se = collectStructuredMemoryEffects s
        in \<not> hasUnknownEffects pe \<and> \<not> hasUnknownEffects se \<and>
          (if judge_barrier P loops A before after N = IsRedundant then \<not> hasWriteConflictWith pe se
           else hasSingleWriteReadIntermediate pe se \<noteq> None)"
        using assms p \<open>nearest_container after = Some s\<close>
        by (cases "findSuIterate s")
          (auto simp: judge_barrier_def Let_def split: if_splits option.splits dest: pipelined_intermediate)
    qed (use assms p Some in \<open>simp add: judge_barrier_def\<close>)
  qed (use assms p in \<open>simp add: judge_barrier_def\<close>)
qed (use assms in \<open>simp add: judge_barrier_def\<close>)

text \<open>
  C3: Safety of barrier elimination. When the pass marks a barrier of the module that was not
  marked before as eliminated, it stands between two units, with only operations without memory
  effects between it and them, whose effects are all known. Either it is marked redundant and any
  interleaving of loads and stores of the two units, from any state, ends like running the first
  and then the second, where a buffer is known by the value its views are stripped to and
  different buffers do not overlap; or it is marked as required by memory, and the only buffer
  the first unit writes is an SDE allocation that the second reads and does not write, while
  nothing else the second writes is accessed by the first.
\<close>

theorem eliminated_barrier_safe:
  assumes "(before, op, after) \<in> set (module_sites M)" "distinct (map site_op (module_sites M))"
    and "sid op < fresh_op M" "\<not> barrierEliminated (barrier_of M (sid op))"
    and "barrierEliminated (barrier_of (BarrierEliminationPass P A M) (sid op))"
  shows "\<exists>p s. nearest_container before = Some p \<and> nearest_container after = Some s \<and>
    \<not> hasUnknownEffects (collectStructuredMemoryEffects p) \<and>
    \<not> hasUnknownEffects (collectStructuredMemoryEffects s) \<and>
    (barrierReason (barrier_of (BarrierEliminationPass P A M) (sid op)) = Some Redundant \<and>
       (\<forall>(xs :: 'l action list) (ys :: 'k action list) zs m.
          (\<forall>a\<in>set xs. performs p a) \<and> (\<forall>a\<in>set ys. performs s a) \<and> zs \<in> shuffles (map Inl xs) (map Inr ys) \<longrightarrow>
            run_joint zs m = run_joint (map Inl xs @ map Inr ys) m) \<or>
     barrierReason (barrier_of (BarrierEliminationPass P A M) (sid op)) = Some RequiredMemory \<and>
       (\<exists>v. eff_writes (collectStructuredMemoryEffects p) = [v] \<and> is_mu_alloc (stripMemrefViewOps v) \<and>
            v \<in> set (eff_reads (collectStructuredMemoryEffects s)) \<and>
            set (eff_writes (collectStructuredMemoryEffects s)) \<inter>
              (set (eff_reads (collectStructuredMemoryEffects p)) \<union> {v}) = {}))"
proof -
  let ?R = "BarrierEliminationPass P A M"
  obtain N where N: "barrier_of ?R (sid op) =
      barrier_of (plan_barrier P (module_loops M) A (before, op, after) N) (sid op)"
    "barrier_of N (sid op) = barrier_of M (sid op)"
    using pass_at_barrier [OF assms(1-3)] by blast
  obtain L where L: "judge_barrier P (module_loops M) A before after L = IsRedundant \<and>
        barrierReason (barrier_of ?R (sid op)) = Some Redundant \<or>
      judge_barrier P (module_loops M) A before after L = IsTokenLocal \<and>
        barrierReason (barrier_of ?R (sid op)) = Some RequiredMemory"
    using planned_elimination [of P "module_loops M" A before op after N] assms(4,5) N by auto
  then obtain p s where ps: "nearest_container before = Some p" "nearest_container after = Some s"
    "\<not> hasUnknownEffects (collectStructuredMemoryEffects p)"
    "\<not> hasUnknownEffects (collectStructuredMemoryEffects s)"
    and c: "if judge_barrier P (module_loops M) A before after L = IsRedundant
        then \<not> hasWriteConflictWith (collectStructuredMemoryEffects p) (collectStructuredMemoryEffects s)
        else hasSingleWriteReadIntermediate (collectStructuredMemoryEffects p)
               (collectStructuredMemoryEffects s) \<noteq> None"
    using judged [of P "module_loops M" A before after L] unfolding Let_def by blast
  show ?thesis
  proof (intro exI conjI, rule ps(1), rule ps(2), rule ps(3), rule ps(4))
    show "barrierReason (barrier_of ?R (sid op)) = Some Redundant \<and>
       (\<forall>(xs :: 'l action list) (ys :: 'k action list) zs m.
          (\<forall>a\<in>set xs. performs p a) \<and> (\<forall>a\<in>set ys. performs s a) \<and> zs \<in> shuffles (map Inl xs) (map Inr ys) \<longrightarrow>
            run_joint zs m = run_joint (map Inl xs @ map Inr ys) m) \<or>
     barrierReason (barrier_of ?R (sid op)) = Some RequiredMemory \<and>
       (\<exists>v. eff_writes (collectStructuredMemoryEffects p) = [v] \<and> is_mu_alloc (stripMemrefViewOps v) \<and>
            v \<in> set (eff_reads (collectStructuredMemoryEffects s)) \<and>
            set (eff_writes (collectStructuredMemoryEffects s)) \<inter>
              (set (eff_reads (collectStructuredMemoryEffects p)) \<union> {v}) = {})"
      using L
    proof (elim disjE conjE)
      assume j: "judge_barrier P (module_loops M) A before after L = IsRedundant"
        and r: "barrierReason (barrier_of ?R (sid op)) = Some Redundant"
      have "\<not> hasWriteConflictWith (collectStructuredMemoryEffects p) (collectStructuredMemoryEffects s)"
        using c j by simp
      then have "run_joint zs m = run_joint (map Inl xs @ map Inr ys) m"
        if "\<forall>a\<in>set xs. performs p a" "\<forall>a\<in>set ys. performs s a" "zs \<in> shuffles (map Inl xs) (map Inr ys)"
        for xs :: "'l action list" and ys :: "'k action list" and zs m
        using interleaving_outcome [OF _ that(3)] independent_units that(1,2) by metis
      then show ?thesis using r by blast
    next
      assume j: "judge_barrier P (module_loops M) A before after L = IsTokenLocal"
        and r: "barrierReason (barrier_of ?R (sid op)) = Some RequiredMemory"
      have "hasSingleWriteReadIntermediate (collectStructuredMemoryEffects p)
               (collectStructuredMemoryEffects s) \<noteq> None" using c j by simp
      then show ?thesis using r unfolding hasSingleWriteReadIntermediate_def
        by (auto simp: list_ex_iff split: if_splits list.splits)
    qed
  qed
qed

text \<open>
  Three units in a row with barriers between them: the first writes the vector 0, the second works
  on the vectors 2 and 3, the third reads the vector 0.
\<close>

definition empty_plan :: su_plan where
  "empty_plan =
     \<lparr>structuredClassification = Some ClElementwise, su_pattern = None, iterationTopology = None,
      repetitionStructure = None, asyncStrategy = None, physicalOwnerDims = None, physicalBlockShape = None,
      logicalWorkerSlice = None, cpsGroupId = None, cpsStageIndex = None, cpsStageCount = None,
      candidateGroupId = None, candidateStageIndex = None, candidateStageCount = None,
      candidateRequiresTokens = None\<rparr>"

definition copy_unit :: "nat \<Rightarrow> nat \<Rightarrow> nat \<Rightarrow> sop" where
  "copy_unit k src dst =
     Op k (SuIterateK [index_const 6 0] [index_const 7 64] [index_const 8 1] [] [unit_iv]) []
       [[Op (k + 1) (LoadK (sample_vector src) [unit_iv]) [sample_number (k + 1)] [],
         Op (k + 2) (StoreK (sample_number (k + 1)) (sample_vector dst) [unit_iv]) [] [],
         Op (k + 3) (YieldK []) [] []]]"

definition plain_barrier :: "nat \<Rightarrow> sop" where
  "plain_barrier k = Op k (SuBarrierK []) [] []"

definition three_units :: sde_module where
  "three_units =
     \<lparr>sde_functions = [(0, [copy_unit 10 1 0, plain_barrier 20, copy_unit 30 3 2, plain_barrier 40,
                            copy_unit 50 0 4, Op 60 (YieldK []) [] []])],
      plan_of = (\<lambda>u. empty_plan), barrier_of = (\<lambda>b. \<lparr>barrierEliminated = False, barrierReason = None\<rparr>),
      fresh_op = 100\<rparr>"

abbreviation sample_analysis :: "sop \<Rightarrow> loop_summary option" where
  "sample_analysis \<equiv> analyzeStructuredLoop no_services folding_ops (\<lambda>q. False)"

definition three_planned :: sde_module where
  "three_planned = BarrierEliminationPass no_services sample_analysis three_units"

lemma three_barriers:
  "barrierEliminated (barrier_of three_planned 20)" "barrierEliminated (barrier_of three_planned 40)"
  "barrierReason (barrier_of three_planned 20) = Some Redundant"
  by code_simp+

lemma eliminated_barrier_safe_witness:
  "\<exists>p s. nearest_container [copy_unit 10 1 0] = Some p \<and>
     nearest_container [copy_unit 30 3 2, plain_barrier 40, copy_unit 50 0 4, Op 60 (YieldK []) [] []] = Some s \<and>
     \<not> hasUnknownEffects (collectStructuredMemoryEffects p) \<and>
     \<not> hasUnknownEffects (collectStructuredMemoryEffects s)"
proof -
  have s: "([copy_unit 10 1 0], plain_barrier 20,
      [copy_unit 30 3 2, plain_barrier 40, copy_unit 50 0 4, Op 60 (YieldK []) [] []]) \<in> set (module_sites three_units)"
    "distinct (map site_op (module_sites three_units))"
    "sid (plain_barrier 20) < fresh_op three_units"
    "\<not> barrierEliminated (barrier_of three_units (sid (plain_barrier 20)))"
    by code_simp+
  have "sid (plain_barrier 20) = 20" by (simp add: plain_barrier_def)
  then have e: "barrierEliminated (barrier_of (BarrierEliminationPass no_services sample_analysis three_units)
      (sid (plain_barrier 20)))"
    using three_barriers(1) by (simp add: three_planned_def)
  show ?thesis using eliminated_barrier_safe [OF s e, where 'l = unit and 'k = unit] by blast
qed

text \<open>
  Each of the two barriers separates units without a conflict and both are eliminated, but then
  nothing is left between the first and the third unit, which do conflict.
\<close>

lemma eliminated_in_a_row:
  "barrierEliminated (barrier_of three_planned 20) \<and> barrierEliminated (barrier_of three_planned 40) \<and>
   hasWriteConflictWith (collectStructuredMemoryEffects (copy_unit 10 1 0))
     (collectStructuredMemoryEffects (copy_unit 50 0 4))"
  using three_barriers(1,2) by (simp, code_simp)

text \<open>A store to a vector between two stages counts as an operation without effect on them.\<close>

lemma plain_store_is_interstitial:
  "isTimestepInterstitialOp (Op 1 (StoreK (sample_number 2) (sample_vector 0) [unit_iv]) [] [])"
  "\<not> isTimestepInterstitialOp (Op 3 (IfK unit_iv) []
      [[Op 1 (StoreK (sample_number 2) (sample_vector 0) [unit_iv]) [] [], Op 4 (YieldK []) [] []]])"
  by code_simp+

end
