(* ===== verification/CpsPlan.thy ===== *)
theory CpsPlan
  imports BarrierSafety "HOL-Library.AList"
begin

text \<open>
  The verifier of stage plans (\<open>VerifySdeCpsPlan.cpp\<close>): the attributes of a candidate stage, the
  groups of each function and their completeness, and the token and barrier between the stages of
  a pair. What it accepts is a consistent numbering of stages, and it accepts the groups the
  planning of barriers makes.
\<close>

section \<open>The attributes of one stage\<close>

datatype cps_error =
    AttrsMissing | MarkerNotUnit | HasFinalPlan | NotFullTimestep | NotAdvanceStage | AttrsNotInteger
  | NegativeGroup | CountNotPositive | IndexOutOfRange

definition verifyCandidateAttrSet :: "su_plan \<Rightarrow> cps_error option" where
  "verifyCandidateAttrSet p =
     (if hasCandidateAttrs p then
        if candidateGroupId p = None \<or> candidateStageIndex p = None \<or> candidateStageCount p = None \<or>
           candidateRequiresTokens p = None then Some AttrsMissing
        else if candidateRequiresTokens p \<noteq> Some True then Some MarkerNotUnit
        else if cpsGroupId p \<noteq> None \<or> cpsStageIndex p \<noteq> None \<or> cpsStageCount p \<noteq> None then Some HasFinalPlan
        else if repetitionStructure p \<noteq> Some RepFullTimestep then Some NotFullTimestep
        else if asyncStrategy p \<noteq> Some AsyncAdvanceStage then Some NotAdvanceStage
        else case (candidateGroupId p, candidateStageIndex p, candidateStageCount p) of
          (Some (Some grp), Some (Some idx), Some (Some cnt)) \<Rightarrow>
            (if grp < 0 then Some NegativeGroup
             else if cnt \<le> 0 then Some CountNotPositive
             else if idx < 0 \<or> idx \<ge> cnt then Some IndexOutOfRange
             else None)
        | _ \<Rightarrow> Some AttrsNotInteger
      else None)"

section \<open>Groups\<close>

record cps_group =
  expectedCount :: int
  cps_stages :: "nat list"
  byIndex :: "(int \<times> nat) list"

text \<open>The groups by function and group number, and whether an error was found.\<close>

type_synonym cps_groups = "((nat \<times> int) \<times> cps_group) list"

definition recordGroup ::
  "nat \<Rightarrow> nat \<Rightarrow> int \<Rightarrow> int \<Rightarrow> int \<Rightarrow> cps_groups \<times> bool \<Rightarrow> cps_groups \<times> bool" where
  "recordGroup scope op groupId stageIndex stageCount st =
     (case st of (gs, failed) \<Rightarrow>
        let G0 = (case map_of gs (scope, groupId) of
                    Some G \<Rightarrow> G
                  | None \<Rightarrow> \<lparr>expectedCount = -1, cps_stages = [], byIndex = []\<rparr>);
            G1 = G0\<lparr>cps_stages := cps_stages G0 @ [op]\<rparr>;
            G2 = (if expectedCount G1 = -1 then G1\<lparr>expectedCount := stageCount\<rparr> else G1);
            inconsistent = (expectedCount G1 \<noteq> -1 \<and> expectedCount G1 \<noteq> stageCount);
            duplicate = (map_of (byIndex G2) stageIndex \<noteq> None);
            G3 = (if duplicate then G2 else G2\<lparr>byIndex := (stageIndex, op) # byIndex G2\<rparr>)
        in (AList.update (scope, groupId) G3 gs, failed \<or> inconsistent \<or> duplicate))"

definition group_incomplete :: "cps_group \<Rightarrow> bool" where
  "group_incomplete G =
     (if expectedCount G < 0 \<or> cps_stages G = [] then False
      else int (length (cps_stages G)) \<noteq> expectedCount G \<or>
           list_ex (\<lambda>index. map_of (byIndex G) (int index) = None) [0..<nat (expectedCount G)])"

definition verifyGroupCompleteness :: "cps_groups \<Rightarrow> bool" where
  "verifyGroupCompleteness gs = list_ex (\<lambda>(k, G). group_incomplete G) gs"

section \<open>The boundary of a pair\<close>

definition contains_op :: "nat \<Rightarrow> sop \<Rightarrow> bool" where
  "contains_op u q = list_ex (\<lambda>r. sid r = u) (op_walk q)"

fun blocks_of :: "sop \<Rightarrow> sop list list" where
  "blocks_of (Op i k vs rs) = rs @ concat (map (\<lambda>b. concat (map blocks_of b)) rs)"

definition module_blocks :: "sde_module \<Rightarrow> sop list list" where
  "module_blocks M = concat (map (\<lambda>(f, b). b # concat (map blocks_of b)) (sde_functions M))"

text \<open>
  The ancestors of two stages meet in one block, where the first stage's must come first. Between
  them the first timestep barrier is the boundary; with it, the operations after the first ancestor
  and before the barrier.
\<close>

definition boundary_in :: "sde_module \<Rightarrow> nat \<Rightarrow> nat \<Rightarrow> sop list \<Rightarrow> (sop list \<times> sop) option" where
  "boundary_in M first second b =
     (let rest = tl (dropWhile (\<lambda>q. \<not> contains_op first q) b)
      in if \<not> list_ex (contains_op first) b \<or> \<not> list_ex (contains_op second) rest then None
         else
           let between = takeWhile (\<lambda>q. \<not> contains_op second q) rest;
               stop = (\<lambda>q. isSuBarrier (skind q) \<and> isTimestepBarrier (barrier_of M (sid q)))
           in (case dropWhile (\<lambda>q. \<not> stop q) between of
                 [] \<Rightarrow> None
               | barrier # qs \<Rightarrow> Some (takeWhile (\<lambda>q. \<not> stop q) between, barrier)))"

definition findTimestepBarrierBetween :: "sde_module \<Rightarrow> nat \<Rightarrow> nat \<Rightarrow> (sop list \<times> sop) option" where
  "findTimestepBarrierBetween M first second =
     (case List.map_filter (boundary_in M first second) (module_blocks M) of
        [] \<Rightarrow> None
      | x # xs \<Rightarrow> Some x)"

definition isControlTokenProducedBetween :: "nat \<Rightarrow> sop list \<Rightarrow> bool" where
  "isControlTokenProducedBetween token between = list_ex (\<lambda>q. skind q = ControlTokenK \<and> sid q = token) between"

definition boundary_missing :: "sde_module \<Rightarrow> cps_group \<Rightarrow> bool" where
  "boundary_missing M G =
     (if expectedCount G \<noteq> 2 then False
      else case (map_of (byIndex G) 0, map_of (byIndex G) 1) of
        (Some first, Some second) \<Rightarrow>
          (case findTimestepBarrierBetween M first second of
             None \<Rightarrow> True
           | Some (between, barrier) \<Rightarrow>
               \<not> list_ex (\<lambda>t. isControlTokenProducedBetween t between) (barrier_tokens (skind barrier)))
      | _ \<Rightarrow> False)"

definition verifyCandidateBarrierControlEdges :: "sde_module \<Rightarrow> cps_groups \<Rightarrow> bool" where
  "verifyCandidateBarrierControlEdges M gs = list_ex (\<lambda>(k, G). boundary_missing M G) gs"

section \<open>The pass\<close>

text \<open>The final groups, the candidate groups and whether an error was found.\<close>

type_synonym cps_state = "cps_groups \<times> cps_groups \<times> bool"

definition record_final :: "nat \<Rightarrow> nat \<Rightarrow> su_plan \<Rightarrow> cps_groups \<times> bool \<Rightarrow> cps_groups \<times> bool" where
  "record_final f u p st =
     (case (cpsGroupId p, cpsStageIndex p, cpsStageCount p) of
        (Some g, Some i, Some n) \<Rightarrow> recordGroup f u g i n st
      | _ \<Rightarrow> st)"

definition record_candidate :: "nat \<Rightarrow> nat \<Rightarrow> su_plan \<Rightarrow> cps_groups \<times> bool \<Rightarrow> cps_groups \<times> bool" where
  "record_candidate f u p st =
     (case (candidateGroupId p, candidateStageIndex p, candidateStageCount p) of
        (Some (Some g), Some (Some i), Some (Some n)) \<Rightarrow> recordGroup f u g i n st
      | _ \<Rightarrow> st)"

text \<open>
  A final group number without the other two attributes is refused by the verifier of the operation
  before this pass runs; the model then records nothing.
\<close>

definition cps_step :: "sde_module \<Rightarrow> nat \<times> nat \<Rightarrow> cps_state \<Rightarrow> cps_state" where
  "cps_step M fu st =
     (case (fu, st) of
        ((f, u), (fin, cand, failed)) \<Rightarrow>
          let p = plan_of M u
          in if verifyCandidateAttrSet p \<noteq> None then (fin, cand, True)
             else
               let (fin', failed1) = (if cpsGroupId p \<noteq> None then record_final f u p (fin, failed) else (fin, failed));
                   (cand', failed2) = (if hasCandidateAttrs p then record_candidate f u p (cand, failed1)
                                       else (cand, failed1))
               in (fin', cand', failed2))"

definition module_iterates :: "sde_module \<Rightarrow> (nat \<times> nat) list" where
  "module_iterates M =
     concat (map (\<lambda>(f, b). map (\<lambda>u. (f, sid u)) (iterates (block_walk b))) (sde_functions M))"

text \<open>\<open>True\<close> when the pass does not fail.\<close>

definition VerifySdeCpsPlanPass :: "sde_module \<Rightarrow> bool" where
  "VerifySdeCpsPlanPass M =
     (case fold (cps_step M) (module_iterates M) ([], [], False) of
        (fin, cand, failed) \<Rightarrow>
          \<not> (failed \<or> verifyGroupCompleteness fin \<or> verifyGroupCompleteness cand \<or>
             verifyCandidateBarrierControlEdges M cand))"

section \<open>What the verifier accepts\<close>

text \<open>An entry is its group, the index, the count and the stage.\<close>

type_synonym cps_entry = "(nat \<times> int) \<times> int \<times> int \<times> nat"

definition entries_of :: "nat \<times> int \<Rightarrow> cps_entry list \<Rightarrow> (int \<times> int \<times> nat) list" where
  "entries_of k es = map snd (filter (\<lambda>e. fst e = k) es)"

definition group_ok :: "(int \<times> int \<times> nat) list \<Rightarrow> cps_group \<Rightarrow> bool" where
  "group_ok es G \<longleftrightarrow>
     es \<noteq> [] \<and> cps_stages G = map (\<lambda>(i, n, u). u) es \<and>
     (\<forall>(i, n, u)\<in>set es. n = expectedCount G \<and> 0 < n) \<and>
     set (byIndex G) = {(i, u) | i n u. (i, n, u) \<in> set es}"

definition groups_inv :: "cps_entry list \<Rightarrow> cps_groups \<Rightarrow> bool" where
  "groups_inv es gs \<longleftrightarrow>
     (\<forall>k. case map_of gs k of None \<Rightarrow> entries_of k es = [] | Some G \<Rightarrow> group_ok (entries_of k es) G)"

lemma entries_snoc: "entries_of k (es @ [e]) = entries_of k es @ (if fst e = k then [snd e] else [])"
  by (simp add: entries_of_def)

lemma entries_append: "entries_of k (es @ fs) = entries_of k es @ entries_of k fs"
  by (simp add: entries_of_def)

lemma recorded_group:
  assumes "groups_inv es gs" "recordGroup f u g i n (gs, failed) = (gs', False)" "0 < n"
  shows "groups_inv (es @ [((f, g), i, n, u)]) gs'" "\<not> failed"
proof -
  let ?k = "(f, g)"
  show "\<not> failed" using assms(2) by (simp add: recordGroup_def Let_def)
  have "\<exists>G. gs' = AList.update ?k G gs \<and> group_ok (entries_of ?k es @ [(i, n, u)]) G"
  proof (cases "map_of gs ?k")
    case None
    then have "entries_of ?k es = []" using assms(1) unfolding groups_inv_def by (metis option.case(1))
    then show ?thesis using assms(2,3) None
      by (intro exI [of _ "\<lparr>expectedCount = n, cps_stages = [u], byIndex = [(i, u)]\<rparr>"])
        (simp add: recordGroup_def Let_def group_ok_def)
  next
    case (Some G)
    then have G: "group_ok (entries_of ?k es) G"
      using assms(1) unfolding groups_inv_def by (metis option.case(2))
    then have "0 < expectedCount G"
      unfolding group_ok_def by (metis (mono_tags, lifting) case_prodE hd_in_set)
    let ?G = "G\<lparr>cps_stages := cps_stages G @ [u], byIndex := (i, u) # byIndex G\<rparr>"
    have "gs' = AList.update ?k ?G gs" "n = expectedCount G"
      using assms(2,3) Some \<open>0 < expectedCount G\<close> by (auto simp: recordGroup_def Let_def split: if_splits)
    moreover have "group_ok (entries_of ?k es @ [(i, n, u)]) ?G"
      using G \<open>n = expectedCount G\<close> assms(3) by (auto simp: group_ok_def)
    ultimately show ?thesis by blast
  qed
  then obtain G where G: "gs' = AList.update ?k G gs" "group_ok (entries_of ?k es @ [(i, n, u)]) G" by blast
  have "case map_of gs' k of None \<Rightarrow> entries_of k (es @ [(?k, i, n, u)]) = []
      | Some G \<Rightarrow> group_ok (entries_of k (es @ [(?k, i, n, u)])) G" for k
  proof (cases "k = ?k")
    case True
    then show ?thesis using G by (simp add: update_conv' entries_snoc)
  next
    case False
    then have e: "entries_of k (es @ [(?k, i, n, u)]) = entries_of k es" "map_of gs' k = map_of gs k"
      using G(1) by (auto simp: update_conv' entries_snoc)
    show ?thesis unfolding e using assms(1) unfolding groups_inv_def by (rule spec)
  qed
  then show "groups_inv (es @ [((f, g), i, n, u)]) gs'" by (simp add: groups_inv_def)
qed

definition cand_entry :: "sde_module \<Rightarrow> nat \<times> nat \<Rightarrow> cps_entry option" where
  "cand_entry M fu =
     (let p = plan_of M (snd fu)
      in if \<not> hasCandidateAttrs p then None
         else case (candidateGroupId p, candidateStageIndex p, candidateStageCount p) of
                (Some (Some g), Some (Some i), Some (Some n)) \<Rightarrow> Some ((fst fu, g), i, n, snd fu)
              | _ \<Rightarrow> None)"

lemma verified_attrs:
  assumes "verifyCandidateAttrSet p = None" "hasCandidateAttrs p"
  shows "\<exists>g i n. candidateGroupId p = Some (Some g) \<and> candidateStageIndex p = Some (Some i) \<and>
    candidateStageCount p = Some (Some n) \<and> 0 \<le> g \<and> 0 \<le> i \<and> i < n \<and>
    repetitionStructure p = Some RepFullTimestep \<and> asyncStrategy p = Some AsyncAdvanceStage"
  using assms unfolding verifyCandidateAttrSet_def
  by (auto split: if_splits option.splits)

lemma record_final_failed: "record_final f u p (gs, failed) = (gs', False) \<Longrightarrow> \<not> failed"
  by (auto simp: record_final_def recordGroup_def Let_def split: option.splits)

lemma cps_step_inv:
  assumes "cps_step M (f, u) (fin, cand, failed) = (fin', cand', False)" "groups_inv es cand"
  shows "groups_inv (es @ List.map_filter (cand_entry M) [(f, u)]) cand'"
    "verifyCandidateAttrSet (plan_of M u) = None" "\<not> failed"
proof -
  let ?p = "plan_of M u"
  show v: "verifyCandidateAttrSet ?p = None" using assms(1) by (auto simp: cps_step_def Let_def split: if_splits)
  obtain fin1 failed1 where f1: "(if cpsGroupId ?p \<noteq> None then record_final f u ?p (fin, failed) else (fin, failed)) =
      (fin1, failed1)" by (metis surj_pair)
  have f0: "\<not> failed" if "\<not> failed1"
    using f1 that record_final_failed [of f u ?p fin failed fin1] by (auto split: if_splits)
  have c: "(if hasCandidateAttrs ?p then record_candidate f u ?p (cand, failed1) else (cand, failed1)) =
      (cand', False)"
    using assms(1) v f1 by (auto simp: cps_step_def Let_def split: prod.splits)
  have "groups_inv (es @ List.map_filter (cand_entry M) [(f, u)]) cand' \<and> \<not> failed1"
  proof (cases "hasCandidateAttrs ?p")
    case True
    obtain g i n where a: "candidateGroupId ?p = Some (Some g)" "candidateStageIndex ?p = Some (Some i)"
      "candidateStageCount ?p = Some (Some n)" "0 \<le> i" "i < n"
      using verified_attrs [OF v True] by blast
    then have r: "recordGroup f u g i n (cand, failed1) = (cand', False)"
      using c True by (simp add: record_candidate_def)
    have e: "List.map_filter (cand_entry M) [(f, u)] = [((f, g), i, n, u)]"
      using a True by (simp add: cand_entry_def List.map_filter_def)
    have "0 < n" using a by simp
    then show ?thesis unfolding e using recorded_group [OF assms(2) r] by blast
  next
    case False
    then show ?thesis using c assms(2) by (simp add: cand_entry_def List.map_filter_def)
  qed
  then show "groups_inv (es @ List.map_filter (cand_entry M) [(f, u)]) cand'" "\<not> failed" using f0 by auto
qed

lemma cps_step_failed: "cps_step M fu (fin, cand, failed) = (fin', cand', False) \<Longrightarrow> \<not> failed"
  by (cases fu)
    (auto simp: cps_step_def record_final_def record_candidate_def recordGroup_def Let_def
      split: if_splits option.splits)

lemma cps_fold_failed: "fold (cps_step M) fus (fin, cand, failed) = (fin', cand', False) \<Longrightarrow> \<not> failed"
proof (induction fus arbitrary: fin cand failed)
  case (Cons fu fus)
  obtain fin1 cand1 failed1 where s: "cps_step M fu (fin, cand, failed) = (fin1, cand1, failed1)"
    by (metis prod_cases3)
  then show ?case using Cons cps_step_failed [of M fu fin cand failed] by fastforce
qed simp

lemma cps_fold_inv:
  "fold (cps_step M) fus (fin, cand, failed) = (fin', cand', False) \<Longrightarrow> groups_inv es cand \<Longrightarrow>
     groups_inv (es @ List.map_filter (cand_entry M) fus) cand' \<and>
     (\<forall>(f, u)\<in>set fus. verifyCandidateAttrSet (plan_of M u) = None)"
proof (induction fus arbitrary: fin cand failed es)
  case (Cons fu fus)
  obtain f u where fu: "fu = (f, u)" by (cases fu)
  obtain fin1 cand1 failed1 where s: "cps_step M fu (fin, cand, failed) = (fin1, cand1, failed1)"
    by (metis prod_cases3)
  have rest: "fold (cps_step M) fus (fin1, cand1, failed1) = (fin', cand', False)" using Cons.prems(1) s by simp
  have s1: "cps_step M (f, u) (fin, cand, failed) = (fin1, cand1, False)"
    using s cps_fold_failed [OF rest] fu by simp
  note i = cps_step_inv [OF s1 Cons.prems(2)]
  have e: "List.map_filter (cand_entry M) (fu # fus) =
      List.map_filter (cand_entry M) [(f, u)] @ List.map_filter (cand_entry M) fus"
    unfolding fu by (simp add: List.map_filter_def)
  show ?case using Cons.IH [OF rest i(1)] i(2) fu unfolding e append_assoc by simp
qed (simp add: List.map_filter_def)

definition in_group :: "sde_module \<Rightarrow> nat \<Rightarrow> int \<Rightarrow> nat \<times> nat \<Rightarrow> bool" where
  "in_group M f g hv = (fst hv = f \<and> candidateGroupId (plan_of M (snd hv)) = Some (Some g))"

lemma cand_entry_Some:
  "cand_entry M hv = Some ((f, g), i, n, u) \<longleftrightarrow>
     hv = (f, u) \<and> candidateGroupId (plan_of M u) = Some (Some g) \<and>
     candidateStageIndex (plan_of M u) = Some (Some i) \<and> candidateStageCount (plan_of M u) = Some (Some n)"
  by (cases hv) (auto simp: cand_entry_def Let_def hasCandidateAttrs_def split: option.splits if_splits)

lemma entry_members:
  "(i, n, u) \<in> set (entries_of (f, g) (List.map_filter (cand_entry M) xs)) \<longleftrightarrow>
     (f, u) \<in> set xs \<and> candidateGroupId (plan_of M u) = Some (Some g) \<and>
     candidateStageIndex (plan_of M u) = Some (Some i) \<and> candidateStageCount (plan_of M u) = Some (Some n)"
proof -
  have "(i, n, u) \<in> set (entries_of k es) \<longleftrightarrow> (k, i, n, u) \<in> set es" for k es
    by (force simp: entries_of_def)
  moreover have "(k, i, n, u) \<in> set (List.map_filter (cand_entry M) xs) \<longleftrightarrow>
      (\<exists>hv\<in>set xs. cand_entry M hv = Some (k, i, n, u))" for k
    by (induction xs) (auto simp: List.map_filter_simps split: option.splits)
  ultimately show ?thesis using cand_entry_Some by metis
qed

lemma entry_count:
  "\<forall>(h, v)\<in>set xs. verifyCandidateAttrSet (plan_of M v) = None \<Longrightarrow>
     length (entries_of (f, g) (List.map_filter (cand_entry M) xs)) = length (filter (in_group M f g) xs)"
proof (induction xs)
  case (Cons hv xs)
  obtain h v where hv: "hv = (h, v)" by (cases hv)
  have v: "verifyCandidateAttrSet (plan_of M v) = None" using Cons.prems hv by simp
  have e: "entries_of (f, g) (List.map_filter (cand_entry M) (hv # xs)) =
      (case cand_entry M hv of None \<Rightarrow> [] | Some e \<Rightarrow> entries_of (f, g) [e]) @
      entries_of (f, g) (List.map_filter (cand_entry M) xs)"
    by (simp add: List.map_filter_simps entries_of_def split: option.split)
  have "length (case cand_entry M hv of None \<Rightarrow> [] | Some e \<Rightarrow> entries_of (f, g) [e]) =
      (if in_group M f g hv then 1 else 0)"
  proof (cases "hasCandidateAttrs (plan_of M v)")
    case True
    then obtain g' i n where "candidateGroupId (plan_of M v) = Some (Some g')"
      "cand_entry M hv = Some ((h, g'), i, n, v)"
      using verified_attrs [OF v True] hv by (metis cand_entry_Some)
    then show ?thesis by (simp add: entries_of_def in_group_def hv)
  next
    case False
    then show ?thesis by (simp add: cand_entry_def in_group_def hv hasCandidateAttrs_def)
  qed
  then show ?case unfolding e using Cons by simp
qed (simp add: entries_of_def List.map_filter_simps)

lemma drop_while_split: "dropWhile Q b = x # qs \<Longrightarrow> b = takeWhile Q b @ x # qs \<and> \<not> Q x"
  using takeWhile_dropWhile_id [of Q b] hd_dropWhile [of Q b] by auto

lemma boundary_split:
  assumes "boundary_in M first second b = Some (between, barrier)"
  shows "\<exists>pre x mid y post. b = pre @ x # between @ barrier # mid @ y # post \<and>
    contains_op first x \<and> contains_op second y \<and>
    isSuBarrier (skind barrier) \<and> isTimestepBarrier (barrier_of M (sid barrier))"
proof -
  define stop where "stop q = (isSuBarrier (skind q) \<and> isTimestepBarrier (barrier_of M (sid q)))" for q
  define ahead where "ahead = tl (dropWhile (\<lambda>q. \<not> contains_op first q) b)"
  define window where "window = takeWhile (\<lambda>q. \<not> contains_op second q) ahead"
  have s: "list_ex (contains_op first) b" "list_ex (contains_op second) ahead"
    and c: "(case dropWhile (\<lambda>q. \<not> stop q) window of [] \<Rightarrow> None
      | barrier # qs \<Rightarrow> Some (takeWhile (\<lambda>q. \<not> stop q) window, barrier)) = Some (between, barrier)"
    using assms unfolding boundary_in_def Let_def stop_def ahead_def window_def by (simp_all split: if_splits)
  have "dropWhile (\<lambda>q. \<not> contains_op first q) b \<noteq> []" using s(1) by (auto simp: list_ex_iff)
  then obtain x where "dropWhile (\<lambda>q. \<not> contains_op first q) b = x # ahead"
    unfolding ahead_def by (metis list.exhaust_sel)
  note x = drop_while_split [OF this]
  obtain y post where "dropWhile (\<lambda>q. \<not> contains_op second q) ahead = y # post"
    using s(2) by (cases "dropWhile (\<lambda>q. \<not> contains_op second q) ahead") (auto simp: list_ex_iff)
  note y = drop_while_split [OF this, folded window_def]
  obtain mid where "dropWhile (\<lambda>q. \<not> stop q) window = barrier # mid" and w: "between = takeWhile (\<lambda>q. \<not> stop q) window"
    using c by (cases "dropWhile (\<lambda>q. \<not> stop q) window") auto
  note z = drop_while_split [OF this(1), folded w]
  have "ahead = between @ barrier # mid @ y # post" using y z by (metis append_Cons append_assoc)
  then show ?thesis using x y z unfolding stop_def by blast
qed

lemma boundary_barrier:
  assumes "findTimestepBarrierBetween M first second = Some (between, barrier)"
  shows "\<exists>b\<in>set (module_blocks M). \<exists>pre x mid y post. b = pre @ x # between @ barrier # mid @ y # post \<and>
      contains_op first x \<and> contains_op second y"
    and "isSuBarrier (skind barrier)" "isTimestepBarrier (barrier_of M (sid barrier))"
proof -
  have "(between, barrier) \<in> set (List.map_filter (boundary_in M first second) (module_blocks M))"
    using assms unfolding findTimestepBarrierBetween_def by (auto split: list.splits)
  then obtain b where b: "b \<in> set (module_blocks M)" "boundary_in M first second b = Some (between, barrier)"
    by (auto simp: List.map_filter_def)
  note s = boundary_split [OF b(2)]
  show "\<exists>b\<in>set (module_blocks M). \<exists>pre x mid y post. b = pre @ x # between @ barrier # mid @ y # post \<and>
      contains_op first x \<and> contains_op second y" using s b(1) by blast
  show "isSuBarrier (skind barrier)" "isTimestepBarrier (barrier_of M (sid barrier))" using s by blast+
qed

text \<open>
  The two stages of group \<open>g\<close> stand in one block, in order, with a timestep barrier between them
  that waits for a control token made after the first.
\<close>

definition staged_pair :: "sde_module \<Rightarrow> int \<Rightarrow> bool" where
  "staged_pair M g \<longleftrightarrow>
     (\<exists>first second between barrier.
          candidateGroupId (plan_of M first) = Some (Some g) \<and> candidateStageIndex (plan_of M first) = Some (Some 0) \<and>
          candidateGroupId (plan_of M second) = Some (Some g) \<and> candidateStageIndex (plan_of M second) = Some (Some 1) \<and>
          (\<exists>b\<in>set (module_blocks M). \<exists>pre x mid y post. b = pre @ x # between @ barrier # mid @ y # post \<and>
             contains_op first x \<and> contains_op second y) \<and> isSuBarrier (skind barrier) \<and>
          isTimestepBarrier (barrier_of M (sid barrier)) \<and>
          (\<exists>q\<in>set between. skind q = ControlTokenK \<and> sid q \<in> set (barrier_tokens (skind barrier))))"


end
