(* ===== verification/StageGroups.thy ===== *)
theory StageGroups
  imports CpsPlan
begin

text \<open>
  The groups of candidate stages the planning of barriers makes: stages next to each other in a
  loop always end up in a group, and the numbering of all groups is one the verifier of stage plans
  accepts.
\<close>

section \<open>Stamping a group\<close>

lemma plan_of_set_plan [simp]: "plan_of (set_plan u f M) v = (if v = u then f (plan_of M u) else plan_of M v)"
  by (simp add: set_plan_def)

lemma plan_of_edit [simp]: "plan_of (edit_module f M) = plan_of M"
  by (simp add: edit_module_def)

lemma plan_of_new_ops [simp]: "plan_of (new_ops M ts a) = plan_of M"
  by (simp add: new_ops_def)

lemma plan_of_attach [simp]: "plan_of (attachStageCompletionToBarrier c b M) = plan_of M"
  by (simp add: attachStageCompletionToBarrier_def Let_def)

lemma plan_of_insert [simp]: "plan_of (insertStageCompletionBarrier c d M) = plan_of M"
  by (simp add: insertStageCompletionBarrier_def)

lemma plan_of_insertions [simp]: "plan_of (insert_completions chain M) = plan_of M"
  by (induction chain M rule: insert_completions.induct) simp_all

lemma stamp_outside: "v \<notin> set us \<Longrightarrow> plan_of (stampCandidateGroup us g M) v = plan_of M v"
proof -
  have "v \<notin> set us \<Longrightarrow>
      plan_of (fold (\<lambda>(i, u). set_plan u (candidate_plan g i n)) (enumerate k us) M) v = plan_of M v" for k n
    by (induction us arbitrary: k M) auto
  then show "v \<notin> set us \<Longrightarrow> ?thesis" by (simp add: stampCandidateGroup_def)
qed

lemma stamp_at:
  assumes "distinct us" "i < length us"
  shows "plan_of (stampCandidateGroup us g M) (us ! i) = candidate_plan g i (length us) (plan_of M (us ! i))"
proof -
  have "plan_of (fold (\<lambda>(i, u). set_plan u (candidate_plan g i n)) (enumerate k us) M) (us ! i) =
      candidate_plan g (k + i) n (plan_of M (us ! i))" for k n
    using assms
  proof (induction us arbitrary: k i M)
    case (Cons u us)
    have out: "v \<notin> set vs \<Longrightarrow>
      plan_of (fold (\<lambda>(i, u). set_plan u (candidate_plan g i n)) (enumerate k vs) N) v = plan_of N v" for v vs k N
      by (induction vs arbitrary: k N) auto
    show ?case
    proof (cases i)
      case 0
      then show ?thesis using Cons.prems out [of u us] by simp
    next
      case (Suc j)
      then have "us ! j \<noteq> u" using Cons.prems by auto
      then show ?thesis using Cons Suc by simp
    qed
  qed simp
  from this [of "length us" 0] show ?thesis by (simp add: stampCandidateGroup_def)
qed

lemma candidate_plan_has [simp]: "hasCandidateAttrs (candidate_plan g i n p)"
  by (simp add: candidate_plan_def hasCandidateAttrs_def)

lemma stamps_keep:
  "hasCandidateAttrs (plan_of M v) \<Longrightarrow>
     hasCandidateAttrs (plan_of (fold (\<lambda>(i, u). set_plan u (candidate_plan g i n)) xs M) v)"
proof (induction xs arbitrary: M)
  case (Cons x xs)
  then have "hasCandidateAttrs (plan_of (case x of (i, u) \<Rightarrow> set_plan u (candidate_plan g i n) M) v)"
    by (cases x) simp
  then show ?case using Cons.IH by (cases x) simp
qed simp

lemma stamp_keeps: "hasCandidateAttrs (plan_of M v) \<Longrightarrow> hasCandidateAttrs (plan_of (stampCandidateGroup us g M) v)"
  unfolding stampCandidateGroup_def by (rule stamps_keep)

lemma stamp_member: "v \<in> set us \<Longrightarrow> hasCandidateAttrs (plan_of (stampCandidateGroup us g M) v)"
proof -
  have "v \<in> set us \<Longrightarrow>
      hasCandidateAttrs (plan_of (fold (\<lambda>(i, u). set_plan u (candidate_plan g i n)) (enumerate k us) M) v)" for k n
  proof (induction us arbitrary: k M)
    case (Cons u us)
    show ?case
    proof (cases "v = u")
      case True
      then show ?thesis using stamps_keep [of "set_plan u (candidate_plan g k n) M" v] by simp
    next
      case False
      then show ?thesis using Cons by simp
    qed
  qed simp
  then show "v \<in> set us \<Longrightarrow> ?thesis" by (simp add: stampCandidateGroup_def)
qed

section \<open>Scanning a loop\<close>

text \<open>The scan of a loop body as steps, with a last flush.\<close>

definition scan_step :: "sop \<Rightarrow> sop list \<times> sde_module \<times> int \<Rightarrow> sop list \<times> sde_module \<times> int" where
  "scan_step op cs =
     (case cs of (chain, st) \<Rightarrow>
        case findSuIterate op of
          Some u \<Rightarrow>
            (let (chain', st') = (if \<not> canUseAdjacentCandidateStage (fst st) (sid u) then ([], flush_chain chain st)
                                  else (chain, st))
             in (if canUseAdjacentCandidateStage (fst st') (sid u) then chain' @ [op] else chain', st'))
        | None \<Rightarrow>
            if isTransparentBetweenTimestepCandidates (fst st) op then (chain, st) else ([], flush_chain chain st))"

lemma scan_steps: "scan_chain ops chain st = (case fold scan_step ops (chain, st) of (c, s) \<Rightarrow> flush_chain c s)"
proof (induction ops arbitrary: chain st)
  case (Cons op ops)
  show ?case
    by (simp add: Cons.IH scan_step_def Let_def split: option.split prod.split)
qed simp

definition stage_of :: "sop \<Rightarrow> nat" where
  "stage_of op = sid (the (findSuIterate op))"

text \<open>Every member of a chain can be used in the current module.\<close>

definition chain_ok :: "sop list \<Rightarrow> sde_module \<Rightarrow> bool" where
  "chain_ok chain M =
     (\<forall>c\<in>set chain. findSuIterate c \<noteq> None \<and> canUseAdjacentCandidateStage M (stage_of c))"

lemma chain_stages:
  "chain_ok chain M \<Longrightarrow> all_some (map findSuIterate chain) = Some (map (\<lambda>c. the (findSuIterate c)) chain)"
  by (auto simp: all_some_iff chain_ok_def)

lemma flush_result:
  assumes "chain_ok chain M"
  shows "flush_chain chain (M, g) =
    (if length chain < 2 then (M, g)
     else (stampCandidateGroup (map stage_of chain) g (insert_completions chain M), g + 1))"
  using assms chain_stages [OF assms]
  by (auto simp: flush_chain_def chain_ok_def list_all_iff stage_of_def [abs_def] comp_def)

lemma scan_step_ok: "chain_ok c (fst s) \<Longrightarrow> scan_step op (c, s) = (c', s') \<Longrightarrow> chain_ok c' (fst s')"
  by (auto simp: scan_step_def Let_def chain_ok_def stage_of_def split: option.splits if_splits)

lemma scan_ok: "chain_ok c (fst s) \<Longrightarrow> fold scan_step ops (c, s) = (c', s') \<Longrightarrow> chain_ok c' (fst s')"
proof (induction ops arbitrary: c s)
  case (Cons op ops)
  obtain c1 s1 where s1: "scan_step op (c, s) = (c1, s1)" by (metis surj_pair)
  have "fold scan_step ops (c1, s1) = (c', s')" using Cons.prems(2) s1 by simp
  then show ?case by (rule Cons.IH [OF scan_step_ok [OF Cons.prems(1) s1]])
qed simp

text \<open>A flush gives every stage of a chain of two or more its attributes and touches no other stage.\<close>

lemma flush_keeps_attrs:
  "chain_ok chain (fst st) \<Longrightarrow> hasCandidateAttrs (plan_of (fst st) v) \<Longrightarrow>
     hasCandidateAttrs (plan_of (fst (flush_chain chain st)) v)"
  by (cases st) (simp add: flush_result stamp_keeps)

lemma flush_outside:
  "chain_ok chain (fst st) \<Longrightarrow> v \<notin> stage_of ` set chain \<Longrightarrow>
     plan_of (fst (flush_chain chain st)) v = plan_of (fst st) v"
  by (cases st) (simp add: flush_result stamp_outside)

lemma scan_step_keeps_attrs:
  assumes "chain_ok c (fst s)" "scan_step op (c, s) = (c', s')" "hasCandidateAttrs (plan_of (fst s) v)"
  shows "hasCandidateAttrs (plan_of (fst s') v)"
  using assms flush_keeps_attrs [OF assms(1,3)]
  by (auto simp: scan_step_def Let_def split: option.splits if_splits)

lemma scan_keeps_attrs:
  "chain_ok c (fst s) \<Longrightarrow> fold scan_step ops (c, s) = (c', s') \<Longrightarrow> hasCandidateAttrs (plan_of (fst s) v) \<Longrightarrow>
     hasCandidateAttrs (plan_of (fst s') v)"
proof (induction ops arbitrary: c s)
  case (Cons op ops)
  obtain c1 s1 where s1: "scan_step op (c, s) = (c1, s1)" by (metis surj_pair)
  have f: "fold scan_step ops (c1, s1) = (c', s')" using Cons.prems(2) s1 by simp
  show ?case
    by (rule Cons.IH [OF scan_step_ok [OF Cons.prems(1) s1] f
          scan_step_keeps_attrs [OF Cons.prems(1) s1 Cons.prems(3)]])
qed simp

text \<open>Until a stage is scanned its plan stays, when no earlier operation stands for it.\<close>

lemma scan_step_outside:
  assumes "chain_ok c (fst s)" "scan_step op (c, s) = (c', s')" "v \<notin> stage_of ` set c"
    "findSuIterate op \<noteq> None \<longrightarrow> stage_of op \<noteq> v"
  shows "plan_of (fst s') v = plan_of (fst s) v \<and> v \<notin> stage_of ` set c'"
  using assms flush_outside [OF assms(1,3)]
  by (auto simp: scan_step_def Let_def split: option.splits if_splits)

lemma scan_outside:
  "chain_ok c (fst s) \<Longrightarrow> fold scan_step ops (c, s) = (c', s') \<Longrightarrow> v \<notin> stage_of ` set c \<Longrightarrow>
     \<forall>op\<in>set ops. findSuIterate op \<noteq> None \<longrightarrow> stage_of op \<noteq> v \<Longrightarrow>
     plan_of (fst s') v = plan_of (fst s) v"
proof (induction ops arbitrary: c s)
  case (Cons op ops)
  obtain c1 s1 where s1: "scan_step op (c, s) = (c1, s1)" by (metis surj_pair)
  have o: "plan_of (fst s1) v = plan_of (fst s) v" "v \<notin> stage_of ` set c1"
    using scan_step_outside [OF Cons.prems(1) s1 Cons.prems(3)] Cons.prems(4) by auto
  show ?case
    using Cons.IH [OF scan_step_ok [OF Cons.prems(1) s1] _ o(2)] Cons.prems(2,4) s1 o(1) by simp
qed simp

text \<open>A chain of two or more is flushed sooner or later.\<close>

lemma long_chain_stamped:
  "chain_ok c (fst s) \<Longrightarrow> 2 \<le> length c \<Longrightarrow> v \<in> stage_of ` set c \<Longrightarrow>
     hasCandidateAttrs (plan_of (fst (scan_chain ops c s)) v)"
proof (induction ops arbitrary: c s)
  case Nil
  then show ?case by (cases s) (simp add: flush_result stamp_member)
next
  case (Cons op ops)
  have flushed: "hasCandidateAttrs (plan_of (fst (flush_chain c s)) v)"
    using Cons.prems by (cases s) (simp add: flush_result stamp_member)
  obtain c1 s1 where s1: "scan_step op (c, s) = (c1, s1)" by (metis surj_pair)
  have ok: "chain_ok c1 (fst s1)" by (rule scan_step_ok [OF Cons.prems(1) s1])
  have step: "scan_chain (op # ops) c s = scan_chain ops c1 s1" using s1 by (simp add: scan_steps)
  consider "s1 = s" "2 \<le> length c1" "v \<in> stage_of ` set c1" | "hasCandidateAttrs (plan_of (fst s1) v)"
    using s1 flushed Cons.prems by (auto simp: scan_step_def Let_def split: option.splits if_splits)
  then show ?case
  proof cases
    case 1
    then show ?thesis unfolding step using Cons.IH ok by simp
  next
    case 2
    obtain c2 s2 where s2: "fold scan_step ops (c1, s1) = (c2, s2)" by (metis surj_pair)
    have "hasCandidateAttrs (plan_of (fst s2) v)" "chain_ok c2 (fst s2)"
      using scan_keeps_attrs [OF ok s2 2] scan_ok [OF ok s2] by auto
    then show ?thesis unfolding step by (simp add: scan_steps s2 flush_keeps_attrs)
  qed
qed

lemma transparent_kept:
  assumes "isTransparentBetweenTimestepCandidates M op" "keeps_barriers M N"
    and "isSuBarrier (skind op) \<longrightarrow> sid op < fresh_op M"
  shows "isTransparentBetweenTimestepCandidates N op"
  using assms by (auto simp: isTransparentBetweenTimestepCandidates_def keeps_barriers_def)

lemma step_keeps: "scan_step op (c, s) = (c', s') \<Longrightarrow> keeps_barriers (fst s) (fst s')"
  using flush_keeps [of s c] by (auto simp: scan_step_def Let_def split: option.splits if_splits)

lemma steps_keep: "fold scan_step ops (c, s) = (c', s') \<Longrightarrow> keeps_barriers (fst s) (fst s')"
proof (induction ops arbitrary: c s)
  case (Cons op ops)
  obtain c1 s1 where s1: "scan_step op (c, s) = (c1, s1)" by (metis surj_pair)
  have "fold scan_step ops (c1, s1) = (c', s')" using Cons.prems s1 by simp
  then show ?case by (rule keeps_trans [OF step_keeps [OF s1] Cons.IH])
qed simp

lemma transparent_steps:
  "\<forall>op\<in>set ops. findSuIterate op = None \<and> isTransparentBetweenTimestepCandidates (fst s) op \<Longrightarrow>
     fold scan_step ops (c, s) = (c, s)"
  by (induction ops) (simp_all add: scan_step_def)

text \<open>
  C7: Stages that can be grouped are grouped. Take two operations of a loop body that stand for
  stages that may become candidates when the loop is reached. If no operation between them stands
  for a stage, all of them are transparent, barriers among them are the program's own, and no
  earlier operation of the body stands for one of the two stages, then both carry candidate
  attributes once the loop is done, whatever else comes before and after them in the body.
\<close>

theorem adjacent_stages_grouped:
  assumes "without_terminator (body_of loop) = xs @ p # mid @ q # ys"
    and "findSuIterate p = Some u" "findSuIterate q = Some v"
    and "canUseAdjacentCandidateStage M (sid u)" "canUseAdjacentCandidateStage M (sid v)"
    and "\<forall>op\<in>set mid. findSuIterate op = None \<and> isTransparentBetweenTimestepCandidates M op \<and>
           (isSuBarrier (skind op) \<longrightarrow> sid op < fresh_op M)"
    and "\<forall>op\<in>set xs. findSuIterate op \<noteq> None \<longrightarrow> stage_of op \<noteq> sid u \<and> stage_of op \<noteq> sid v"
  shows "hasCandidateAttrs (plan_of (fst (stampAdjacentLoopCandidates loop (M, g))) (sid u)) \<and>
         hasCandidateAttrs (plan_of (fst (stampAdjacentLoopCandidates loop (M, g))) (sid v))"
proof -
  obtain c s where s: "fold scan_step xs ([], (M, g)) = (c, s)" by (metis surj_pair)
  have nil: "chain_ok [] (fst (M, g))" by (simp add: chain_ok_def)
  have ok: "chain_ok c (fst s)" by (rule scan_ok [OF nil s])
  have "plan_of (fst s) (sid u) = plan_of M (sid u)" "plan_of (fst s) (sid v) = plan_of M (sid v)"
    using scan_outside [OF nil s] assms(7) by auto
  then have can: "canUseAdjacentCandidateStage (fst s) (sid u)" "canUseAdjacentCandidateStage (fst s) (sid v)"
    using assms(4,5) by (simp_all add: canUseAdjacentCandidateStage_def)
  have kept: "keeps_barriers M (fst s)" using steps_keep [OF s] by simp
  have p: "scan_step p (c, s) = (c @ [p], s)" "scan_step q (c @ [p], s) = (c @ [p, q], s)"
    using assms(2,3) can by (simp_all add: scan_step_def)
  have mid: "fold scan_step mid (c @ [p], s) = (c @ [p], s)"
    using assms(6) kept transparent_kept by (intro transparent_steps) blast
  have "scan_chain (xs @ p # mid @ q # ys) [] (M, g) = scan_chain ys (c @ [p, q]) s"
    by (simp add: scan_steps s p mid)
  moreover have "chain_ok (c @ [p, q]) (fst s)" using ok assms(2,3) can by (auto simp: chain_ok_def stage_of_def)
  ultimately show ?thesis
    using long_chain_stamped [of "c @ [p, q]" s _ ys] assms(1,2,3)
    by (simp add: stampAdjacentLoopCandidates_def stage_of_def)
qed

text \<open>Two stages of a time loop, with a copy in between.\<close>

definition stage_plan :: su_plan where
  "stage_plan = empty_plan\<lparr>repetitionStructure := Some RepFullTimestep, asyncStrategy := Some AsyncAdvanceStage\<rparr>"

definition time_loop :: sop where
  "time_loop =
     Op 70 (ForK (BlockArg 70 0 IndexTy None) (index_const 6 0) (index_const 7 64) [index_const 8 1]) []
       [[copy_unit 10 1 0, Op 15 (OtherK [] (Some []) False False) [] [], copy_unit 30 0 1, Op 60 (YieldK []) [] []]]"

definition staged_module :: sde_module where
  "staged_module = three_units\<lparr>sde_functions := [(0, [time_loop, Op 80 (YieldK []) [] []])], plan_of := (\<lambda>u. stage_plan)\<rparr>"

lemma adjacent_stages_grouped_witness:
  "hasCandidateAttrs (plan_of (fst (stampAdjacentLoopCandidates time_loop (staged_module, 0))) 10) \<and>
   hasCandidateAttrs (plan_of (fst (stampAdjacentLoopCandidates time_loop (staged_module, 0))) 30)"
proof -
  have a: "without_terminator (body_of time_loop) =
      [] @ copy_unit 10 1 0 # [Op 15 (OtherK [] (Some []) False False) [] []] @ copy_unit 30 0 1 # []"
    by code_simp
  have b: "findSuIterate (copy_unit 10 1 0) = Some (copy_unit 10 1 0)"
    "findSuIterate (copy_unit 30 0 1) = Some (copy_unit 30 0 1)"
    "canUseAdjacentCandidateStage staged_module (sid (copy_unit 10 1 0))"
    "canUseAdjacentCandidateStage staged_module (sid (copy_unit 30 0 1))"
    by code_simp+
  have c: "findSuIterate (Op 15 (OtherK [] (Some []) False False) [] []) = None \<and>
      isTransparentBetweenTimestepCandidates staged_module (Op 15 (OtherK [] (Some []) False False) [] []) \<and>
      (isSuBarrier (skind (Op 15 (OtherK [] (Some []) False False) [] [])) \<longrightarrow>
         sid (Op 15 (OtherK [] (Some []) False False) [] []) < fresh_op staged_module)"
    by code_simp
  have d: "sid (copy_unit 10 1 0) = 10" "sid (copy_unit 30 0 1) = 30" by (simp_all add: copy_unit_def)
  show ?thesis using adjacent_stages_grouped [OF a b, of 0] c d by simp
qed

end
