(* ===== verification/GroupsVerified.thy ===== *)
theory GroupsVerified
  imports StageGroups
begin

text \<open>
  The groups of the planning of barriers have a numbering the verifier of stage plans accepts: the
  invariant of the stamps, that the changes of the tree keep the stages of every function, and the
  acceptance.
\<close>

section \<open>The stages of a tree\<close>

definition op_ids :: "sop \<Rightarrow> nat list" where
  "op_ids q = map sid (iterates (op_walk q))"

definition it_ids :: "sop list \<Rightarrow> nat list" where
  "it_ids b = concat (map op_ids b)"

lemma it_ids_simps [simp]:
  "it_ids [] = []" "it_ids (q # qs) = op_ids q @ it_ids qs" "it_ids (xs @ ys) = it_ids xs @ it_ids ys"
  by (simp_all add: it_ids_def)

lemma iterates_append: "iterates (xs @ ys) = iterates xs @ iterates ys"
  by (simp add: iterates_def)

lemma block_ids: "map sid (iterates (block_walk b)) = it_ids b"
  by (induction b) (simp_all add: block_walk_def iterates_append op_ids_def, simp add: iterates_def)

lemma op_ids_op: "op_ids (Op i k vs rs) = concat (map it_ids rs) @ (if isSuIterate k then [i] else [])"
proof -
  have "map sid (iterates (concat (map block_walk rs))) = concat (map it_ids rs)"
  proof (induction rs)
    case (Cons b bs)
    then show ?case using block_ids [of b] by (simp add: iterates_append)
  qed (simp add: iterates_def)
  moreover have "op_walk (Op i k vs rs) = concat (map block_walk rs) @ [Op i k vs rs]"
    by (simp add: block_walk_def [abs_def])
  ultimately show ?thesis unfolding op_ids_def by (simp add: iterates_append iterates_def)
qed

text \<open>A change that adds or replaces operations that are no units keeps the units.\<close>

lemma expand_op_ids:
  assumes "\<And>q. it_ids (f q) = op_ids q"
  shows "op_ids (expand_op f q) = op_ids q"
proof (induction q rule: op_walk.induct)
  case (1 i k vs rs)
  have "it_ids (concat (map (\<lambda>q. f (expand_op f q)) b)) = it_ids b" if b: "b \<in> set rs" for b
  proof -
    have "\<forall>q\<in>set b. op_ids (expand_op f q) = op_ids q" using 1 b by blast
    then show ?thesis by (induction b) (simp_all add: assms)
  qed
  then have "map (it_ids \<circ> (\<lambda>b. concat (map (\<lambda>q. f (expand_op f q)) b))) rs = map it_ids rs" by simp
  then show ?case unfolding expand_op.simps op_ids_op map_map by (rule arg_cong)
qed

lemma expand_ids:
  assumes "\<And>q. it_ids (f q) = op_ids q"
  shows "it_ids (expand f b) = it_ids b"
  by (induction b) (simp_all add: expand_def assms expand_op_ids [OF assms])

definition fun_ids :: "sde_module \<Rightarrow> (nat \<times> nat list) list" where
  "fun_ids M = map (\<lambda>(f, b). (f, it_ids b)) (sde_functions M)"

lemma module_iterates_ids: "module_iterates M = concat (map (\<lambda>(f, us). map (Pair f) us) (fun_ids M))"
  by (simp add: module_iterates_def fun_ids_def block_ids [symmetric] split_def comp_def)

lemma edit_ids: "(\<And>q. it_ids (f q) = op_ids q) \<Longrightarrow> fun_ids (edit_module f M) = fun_ids M"
  by (simp add: edit_module_def fun_ids_def expand_ids case_prod_beta)

lemma new_ops_ids [simp]: "fun_ids (new_ops M ts a) = fun_ids M"
  by (simp add: new_ops_def fun_ids_def)

lemma new_op_ids:
  "op_ids (token_op M) = []" "op_ids (barrier_op M ts) = []"
  by (simp_all add: token_op_def barrier_op_def op_ids_op)

lemma replaced_ids: "isSuBarrier (skind q) \<Longrightarrow> op_ids (Op n (SuBarrierK ts) (sresults q) (sregions q)) = op_ids q"
  by (cases q; cases "skind q") (simp_all add: op_ids_op)

lemma attach_ids [simp]: "fun_ids (attachStageCompletionToBarrier c b M) = fun_ids M"
  unfolding attachStageCompletionToBarrier_def Let_def
  by (subst edit_ids) (simp_all add: new_op_ids replaced_ids)

lemma insert_ids [simp]: "fun_ids (insertStageCompletionBarrier c d M) = fun_ids M"
  unfolding insertStageCompletionBarrier_def
  by (subst edit_ids) (simp_all add: new_op_ids)

lemma insertions_ids [simp]: "fun_ids (insert_completions chain M) = fun_ids M"
  by (induction chain M rule: insert_completions.induct) simp_all

lemma frame_ids: "same_frame M N \<Longrightarrow> fun_ids N = fun_ids M"
  by (simp add: same_frame_def fun_ids_def)

lemma group_ids [simp]: "fun_ids (stampCandidateGroup us g M) = fun_ids M"
  using frame_ids group_frame by blast

section \<open>The stage of an operation\<close>

lemma only_iterate_mem: "only_iterate us = Some u \<Longrightarrow> u \<in> set us"
  by (cases us) (auto split: if_splits)

lemma region_walk_ids: "set (region_walk q) \<subseteq> set (op_walk q)"
  by (cases q) (auto simp: region_walk_def block_walk_def)

lemma found_id: "findSuIterate q = Some u \<Longrightarrow> sid u \<in> set (op_ids q)"
proof -
  assume a: "findSuIterate q = Some u"
  have "u \<in> set (iterates (op_walk q))"
  proof (cases "skind q")
    case (SuIterateK ls us ss as args)
    then have "u = q" using a by (simp add: findSuIterate_def)
    then show ?thesis using SuIterateK by (cases q) (simp add: iterates_def)
  next
    case SuDistributeK
    then have "u \<in> set (iterates (region_walk q))"
      using a by (auto simp: findSuIterate_def split: list.splits if_splits)
    then show ?thesis using region_walk_ids [of q] by (auto simp: iterates_def)
  qed (use a only_iterate_mem in \<open>auto simp: findSuIterate_def\<close>)
  then show ?thesis by (simp add: op_ids_def)
qed

lemma stage_id: "findSuIterate q \<noteq> None \<Longrightarrow> stage_of q \<in> set (op_ids q)"
  using found_id by (auto simp: stage_of_def)

text \<open>The operations of a block stand for different stages.\<close>

lemma container_stages:
  "distinct (it_ids b) \<Longrightarrow> distinct (map stage_of (filter (\<lambda>q. findSuIterate q \<noteq> None) b)) \<and>
     set (map stage_of (filter (\<lambda>q. findSuIterate q \<noteq> None) b)) \<subseteq> set (it_ids b)"
proof (induction b)
  case (Cons q qs)
  then have "distinct (it_ids qs)" "set (op_ids q) \<inter> set (it_ids qs) = {}" by auto
  then have "distinct (map stage_of (filter (\<lambda>q. findSuIterate q \<noteq> None) qs))"
    "set (map stage_of (filter (\<lambda>q. findSuIterate q \<noteq> None) qs)) \<subseteq> set (it_ids qs)"
    "set (op_ids q) \<inter> set (it_ids qs) = {}"
    using Cons.IH by blast+
  then show ?case using stage_id [of q] by (cases "findSuIterate q = None") (simp, blast, simp, blast)+
qed simp

text \<open>Blocks inside an operation.\<close>

lemma walked_ids:
  "p \<in> set (op_walk q) \<Longrightarrow> distinct (op_ids q) \<Longrightarrow> distinct (op_ids p) \<and> set (op_ids p) \<subseteq> set (op_ids q)"
proof (induction q arbitrary: p rule: op_walk.induct)
  case (1 i k vs rs)
  show ?case
  proof (cases "p = Op i k vs rs")
    case False
    then obtain b q where bq: "b \<in> set rs" "q \<in> set b" "p \<in> set (op_walk q)" using "1.prems"(1) by auto
    have d: "distinct (it_ids b)" "set (it_ids b) \<subseteq> set (op_ids (Op i k vs rs))"
      using "1.prems"(2) bq(1) by (auto simp: op_ids_op distinct_concat_iff)
    have "distinct (op_ids q) \<and> set (op_ids q) \<subseteq> set (it_ids b)"
      using split_list [OF bq(2)] d(1) by auto
    then show ?thesis using "1.IH" [OF bq] d(2) by blast
  qed (use "1.prems" in simp)
qed

lemma sites_ids:
  "(bf, p, af) \<in> set (op_sites q) \<Longrightarrow> distinct (op_ids q) \<Longrightarrow>
     distinct (it_ids (rev bf @ p # af)) \<and> set (it_ids (rev bf @ p # af)) \<subseteq> set (op_ids q)"
  "(bf, p, af) \<in> set (block_sites xs b) \<Longrightarrow> distinct (it_ids (rev xs @ b)) \<Longrightarrow>
     distinct (it_ids (rev bf @ p # af)) \<and> set (it_ids (rev bf @ p # af)) \<subseteq> set (it_ids (rev xs @ b))"
  "(bf, p, af) \<in> set (regions_sites rs) \<Longrightarrow> distinct (concat (map it_ids rs)) \<Longrightarrow>
     distinct (it_ids (rev bf @ p # af)) \<and> set (it_ids (rev bf @ p # af)) \<subseteq> set (concat (map it_ids rs))"
proof (induction q and xs b and rs rule: op_sites_block_sites_regions_sites.induct)
  case (1 i k vs rs)
  then have "distinct (concat (map it_ids rs))" "(bf, p, af) \<in> set (regions_sites rs)" by (simp_all add: op_ids_op)
  then show ?case using "1.IH" unfolding op_ids_op by auto
next
  case (3 xs q qs)
  have d: "distinct (op_ids q)" "set (op_ids q) \<subseteq> set (it_ids (rev xs @ q # qs))" using "3.prems"(2) by auto
  have e: "it_ids (rev (q # xs) @ qs) = it_ids (rev xs @ q # qs)" by simp
  consider "(bf, p, af) \<in> set (op_sites q)" | "(bf, p, af) = (xs, q, qs)" | "(bf, p, af) \<in> set (block_sites (q # xs) qs)"
    using "3.prems"(1) by auto
  then show ?case
  proof cases
    case 1 then show ?thesis using "3.IH"(1) d by blast
  next
    case 2 then show ?thesis using "3.prems"(2) by simp
  next
    case 3 then show ?thesis using "3.IH"(2) "3.prems"(2) unfolding e by blast
  qed
next
  case (5 b bs)
  have d: "distinct (it_ids (rev [] @ b))" "distinct (concat (map it_ids bs))" using "5.prems"(2) by auto
  have "(bf, p, af) \<in> set (block_sites [] b) \<or> (bf, p, af) \<in> set (regions_sites bs)" using "5.prems"(1) by auto
  then show ?case using "5.IH"(1) [OF _ d(1)] "5.IH"(2) [OF _ d(2)] by auto
qed simp_all

definition well_numbered :: "(nat \<times> nat list) list \<Rightarrow> bool" where
  "well_numbered F \<longleftrightarrow> distinct (map fst F) \<and> distinct (concat (map snd F))"

lemma well_numbered_fun: "well_numbered F \<Longrightarrow> (f, vs) \<in> set F \<Longrightarrow> distinct vs"
  by (force simp: well_numbered_def distinct_concat_iff)

lemma module_site_ids:
  assumes "well_numbered (fun_ids M)" "(bf, p, af) \<in> set (module_sites M)"
  shows "distinct (it_ids (rev bf @ p # af)) \<and>
    (\<exists>f vs. (f, vs) \<in> set (fun_ids M) \<and> set (it_ids (rev bf @ p # af)) \<subseteq> set vs)"
proof -
  obtain f b where b: "(f, b) \<in> set (sde_functions M)" "(bf, p, af) \<in> set (block_sites [] b)"
    using assms(2) by (auto simp: module_sites_def)
  then have m: "(f, it_ids b) \<in> set (fun_ids M)" by (force simp: fun_ids_def)
  then have "distinct (it_ids (rev [] @ b))" using well_numbered_fun [OF assms(1)] by simp
  then show ?thesis using sites_ids(2) [OF b(2)] m by auto
qed

lemma module_op_ids:
  assumes "well_numbered (fun_ids M)" "q \<in> set (module_walk M)"
  shows "distinct (it_ids (body_of q)) \<and> (\<exists>f vs. (f, vs) \<in> set (fun_ids M) \<and> set (it_ids (body_of q)) \<subseteq> set vs)"
proof -
  obtain f b p where b: "(f, b) \<in> set (sde_functions M)" "p \<in> set b" "q \<in> set (op_walk p)"
    using assms(2) by (auto simp: module_walk_def block_walk_def)
  then have m: "(f, it_ids b) \<in> set (fun_ids M)" by (force simp: fun_ids_def)
  then have d: "distinct (it_ids b)" using well_numbered_fun [OF assms(1)] by simp
  have p: "distinct (op_ids p)" "set (op_ids p) \<subseteq> set (it_ids b)" using split_list [OF b(2)] d by auto
  note q = walked_ids [OF b(3) p(1)]
  have "distinct (it_ids (body_of q)) \<and> set (it_ids (body_of q)) \<subseteq> set (op_ids q)"
    using q by (cases q) (auto simp: body_of_def op_ids_op split: list.split)
  then show ?thesis using q p m by blast
qed

section \<open>The invariant of the stamps\<close>

definition stamped :: "nat \<Rightarrow> nat \<Rightarrow> nat \<Rightarrow> su_plan \<Rightarrow> bool" where
  "stamped k i n p \<longleftrightarrow>
     candidateGroupId p = Some (Some (int k)) \<and> candidateStageIndex p = Some (Some (int i)) \<and>
     candidateStageCount p = Some (Some (int n)) \<and> candidateRequiresTokens p = Some True \<and>
     repetitionStructure p = Some RepFullTimestep \<and> asyncStrategy p = Some AsyncAdvanceStage"

text \<open>\<open>us k\<close> are the stages of group \<open>k\<close>; the groups below \<open>g\<close> are taken.\<close>

definition groups_stamped :: "(nat \<Rightarrow> nat list) \<Rightarrow> sde_module \<Rightarrow> int \<Rightarrow> bool" where
  "groups_stamped us M g \<longleftrightarrow>
     0 \<le> g \<and> (\<forall>u. \<not> hasFinalCpsStageAttrs (plan_of M u)) \<and>
     (\<forall>k. int k < g \<longrightarrow> us k \<noteq> [] \<and> distinct (us k) \<and>
        (\<exists>f vs. (f, vs) \<in> set (fun_ids M) \<and> set (us k) \<subseteq> set vs) \<and>
        (\<forall>i<length (us k). stamped k i (length (us k)) (plan_of M (us k ! i)))) \<and>
     (\<forall>u. hasCandidateAttrs (plan_of M u) \<longrightarrow> (\<exists>k. int k < g \<and> u \<in> set (us k)))"

lemma stamped_candidate:
  "canUseAdjacentCandidateStage M u \<Longrightarrow> stamped k i n (candidate_plan (int k) i n (plan_of M u))"
  by (auto simp: canUseAdjacentCandidateStage_def isSdeCpsCandidateStage_def stamped_def candidate_plan_def
      split: if_splits)

lemma final_kept: "hasFinalCpsStageAttrs (plan_of (stampCandidateGroup vs g M) u) = hasFinalCpsStageAttrs (plan_of M u)"
proof -
  have "hasFinalCpsStageAttrs (plan_of (fold (\<lambda>(i, u). set_plan u (candidate_plan g i n)) xs N) u) =
      hasFinalCpsStageAttrs (plan_of N u)" for n xs N
  proof (induction xs arbitrary: N)
    case (Cons x xs)
    then show ?case by (cases x) (simp add: candidate_plan_def hasFinalCpsStageAttrs_def)
  qed simp
  then show ?thesis by (simp add: stampCandidateGroup_def)
qed

lemma stamp_next_group:
  assumes "groups_stamped us M g" "vs \<noteq> []" "distinct vs"
    and "\<forall>v\<in>set vs. canUseAdjacentCandidateStage M v"
    and "(f, ids) \<in> set (fun_ids M)" "set vs \<subseteq> set ids"
    and "fun_ids N = fun_ids M" "plan_of N = plan_of M"
  shows "groups_stamped (us(nat g := vs)) (stampCandidateGroup vs g N) (g + 1)"
proof -
  let ?N = "stampCandidateGroup vs g N"
  let ?us = "us(nat g := vs)"
  have g: "0 \<le> g" using assms(1) by (simp add: groups_stamped_def)
  have old: "u \<notin> set vs" if "int k < g" "u \<in> set (us k)" for u k
  proof -
    have "hasCandidateAttrs (plan_of M u)"
      using assms(1) that by (auto simp: groups_stamped_def stamped_def hasCandidateAttrs_def in_set_conv_nth)
    then show ?thesis using assms(4) by (auto simp: canUseAdjacentCandidateStage_def)
  qed
  have new: "?us k \<noteq> [] \<and> distinct (?us k) \<and> (\<exists>f vs. (f, vs) \<in> set (fun_ids ?N) \<and> set (?us k) \<subseteq> set vs) \<and>
      (\<forall>i<length (?us k). stamped k i (length (?us k)) (plan_of ?N (?us k ! i)))" if k: "int k < g + 1" for k
  proof (cases "k = nat g")
    case True
    have "stamped k i (length vs) (plan_of ?N (vs ! i))" if "i < length vs" for i
      using stamp_at [OF assms(3) that, of g N] stamped_candidate [of M "vs ! i" k i "length vs"] assms(4,8) that g True
      by simp
    then show ?thesis using True assms(2,3,5,6,7) by auto
  next
    case False
    then have kg: "int k < g" using k g by linarith
    have "plan_of ?N (us k ! i) = plan_of M (us k ! i)" if "i < length (us k)" for i
      using stamp_outside [OF old [OF kg nth_mem [OF that]]] assms(8) by simp
    then show ?thesis using assms(1,7) kg False unfolding groups_stamped_def by simp
  qed
  have all: "\<exists>k. int k < g + 1 \<and> u \<in> set (?us k)" if "hasCandidateAttrs (plan_of ?N u)" for u
  proof (cases "u \<in> set vs")
    case True
    then show ?thesis using g by (intro exI [of _ "nat g"]) simp
  next
    case False
    then have "hasCandidateAttrs (plan_of M u)" using that stamp_outside assms(8) by metis
    then obtain k where k: "int k < g" "u \<in> set (us k)" using assms(1) by (auto simp: groups_stamped_def)
    then have "k \<noteq> nat g" by linarith
    then show ?thesis using k by (intro exI [of _ k]) simp
  qed
  have fin: "\<forall>u. \<not> hasFinalCpsStageAttrs (plan_of ?N u)"
    using assms(1,8) by (simp add: final_kept groups_stamped_def)
  show ?thesis unfolding groups_stamped_def using g new all fin by (intro conjI) (simp, blast+)
qed

definition stamp_inv :: "(nat \<times> nat list) list \<Rightarrow> sde_module \<times> int \<Rightarrow> bool" where
  "stamp_inv F st \<longleftrightarrow> fun_ids (fst st) = F \<and> (\<exists>us. groups_stamped us (fst st) (snd st))"

lemma stamp_inv_next:
  assumes "stamp_inv F (M, g)" "vs \<noteq> []" "distinct vs" "\<forall>v\<in>set vs. canUseAdjacentCandidateStage M v"
    and "(f, ids) \<in> set F" "set vs \<subseteq> set ids" "fun_ids N = F" "plan_of N = plan_of M"
  shows "stamp_inv F (stampCandidateGroup vs g N, g + 1)"
proof -
  obtain us where "groups_stamped us M g" "fun_ids M = F" using assms(1) by (auto simp: stamp_inv_def)
  then have "groups_stamped (us(nat g := vs)) (stampCandidateGroup vs g N) (g + 1)"
    using stamp_next_group [of us M g vs f ids N] assms(2-8) by simp
  then show ?thesis using assms(7) by (auto simp: stamp_inv_def)
qed

lemma nearest_mem: "nearest_container qs = Some c \<Longrightarrow> c \<in> set qs \<and> findSuIterate c \<noteq> None"
  by (induction qs) (auto simp: isSuContainer_def split: if_splits)

lemma mem_ids: "q \<in> set b \<Longrightarrow> set (op_ids q) \<subseteq> set (it_ids b)"
  by (auto simp: it_ids_def)

lemma find_mem: "List.find P xs = Some x \<Longrightarrow> x \<in> set xs"
  by (metis find_Some_iff nth_mem)

lemma delimited_inv:
  assumes "well_numbered F" "stamp_inv F st"
  shows "stamp_inv F (delimited_step b st)"
proof (cases "delimited_step b st = st")
  case False
  obtain M g where st: "st = (M, g)" by (cases st)
  obtain bf br af c1 c2 u v where s: "List.find (\<lambda>(before, q, after). sid q = b) (module_sites M) = Some (bf, br, af)"
    "nearest_container bf = Some c1" "nearest_container af = Some c2"
    "findSuIterate c1 = Some u" "findSuIterate c2 = Some v" "canStampCandidatePair M (sid u) (sid v)"
    using False st by (auto simp: delimited_step_def split: option.splits if_splits prod.splits)
  have r: "delimited_step b st =
      (stampCandidateGroup [sid u, sid v] g (attachStageCompletionToBarrier c1 br M), g + 1)"
    using s st by (simp add: delimited_step_def stampCandidatePair_def)
  have F: "fun_ids M = F" using assms(2) st by (simp add: stamp_inv_def)
  obtain f vs where d: "distinct (it_ids (rev bf @ br # af))" "(f, vs) \<in> set F"
    "set (it_ids (rev bf @ br # af)) \<subseteq> set vs"
    using module_site_ids [of M bf br af] find_mem [OF s(1)] assms(1) F by auto
  have "sid u \<in> set (it_ids (rev bf))" "sid v \<in> set (it_ids af)"
    using found_id s(4,5) mem_ids [of c1 "rev bf"] mem_ids [of c2 af] nearest_mem s(2,3) by auto
  then have "distinct [sid u, sid v]" "set [sid u, sid v] \<subseteq> set vs" using d by auto
  moreover have "\<forall>w\<in>set [sid u, sid v]. canUseAdjacentCandidateStage M w"
    using s(6) by (auto simp: canStampCandidatePair_def canUseAdjacentCandidateStage_def split: if_splits)
  ultimately show ?thesis
    unfolding r using assms(2) d(2) st F by (intro stamp_inv_next [of F M g _ f vs]) simp_all
qed (use assms in simp)

lemma flush_inv:
  assumes "stamp_inv F st" "chain_ok chain (fst st)" "distinct (map stage_of chain)"
    and "(f, vs) \<in> set F" "stage_of ` set chain \<subseteq> set vs"
  shows "stamp_inv F (flush_chain chain st)"
proof (cases "length chain < 2")
  case True
  then show ?thesis using assms(1) by (cases st) (simp add: flush_chain_def)
next
  case False
  obtain M g where st: "st = (M, g)" by (cases st)
  have "\<forall>v\<in>set (map stage_of chain). canUseAdjacentCandidateStage M v"
    using assms(2) st by (auto simp: chain_ok_def)
  moreover have "map stage_of chain \<noteq> []" using False by auto
  moreover have "fun_ids M = F" using assms(1) st by (simp add: stamp_inv_def)
  ultimately show ?thesis
    using stamp_inv_next [of F M g "map stage_of chain" f vs "insert_completions chain M"] assms st False
    by (simp add: flush_result)
qed

definition chain_room :: "nat list \<Rightarrow> sop list \<Rightarrow> sop list \<Rightarrow> bool" where
  "chain_room vs chain ops \<longleftrightarrow>
     distinct (map stage_of chain @ map stage_of (filter (\<lambda>q. findSuIterate q \<noteq> None) ops)) \<and>
     set (map stage_of chain @ map stage_of (filter (\<lambda>q. findSuIterate q \<noteq> None) ops)) \<subseteq> set vs"

lemma room_skip: "chain_room vs c (op # ops) \<Longrightarrow> chain_room vs c ops"
  unfolding chain_room_def by (cases "findSuIterate op = None") (simp, force)

lemma room_push: "chain_room vs c (op # ops) \<Longrightarrow> findSuIterate op \<noteq> None \<Longrightarrow> chain_room vs (c @ [op]) ops"
  unfolding chain_room_def by simp

lemma room_drop: "chain_room vs c ops \<Longrightarrow> chain_room vs [] ops"
  unfolding chain_room_def by simp

lemma scan_step_cases:
  assumes "scan_step op (c, s) = (c', s')"
  obtains "c' = c" "s' = s" | "c' = c @ [op]" "s' = s" "findSuIterate op \<noteq> None"
    | "c' = []" "s' = flush_chain c s" | "c' = [] @ [op]" "s' = flush_chain c s" "findSuIterate op \<noteq> None"
  using assms by (cases "findSuIterate op") (auto simp: scan_step_def Let_def split: if_splits)

lemma scan_step_inv:
  assumes "stamp_inv F s" "chain_ok c (fst s)" "chain_room vs c (op # ops)" "(f, vs) \<in> set F"
    and "scan_step op (c, s) = (c', s')"
  shows "stamp_inv F s' \<and> chain_room vs c' ops"
proof -
  have fl: "stamp_inv F (flush_chain c s)"
    by (rule flush_inv [OF assms(1,2) _ assms(4)]) (use assms(3) in \<open>auto simp: chain_room_def\<close>)
  from assms(5) show ?thesis
  proof (cases rule: scan_step_cases)
    case 1 then show ?thesis using assms(1) room_skip [OF assms(3)] by simp
  next
    case 2 then show ?thesis using assms(1) room_push [OF assms(3)] by simp
  next
    case 3 then show ?thesis using fl room_skip [OF room_drop [OF assms(3)]] by simp
  next
    case 4 then show ?thesis using fl room_push [OF room_drop [OF assms(3)]] by simp
  qed
qed

lemma scan_inv:
  "stamp_inv F s \<Longrightarrow> chain_ok c (fst s) \<Longrightarrow> chain_room vs c ops \<Longrightarrow> (f, vs) \<in> set F \<Longrightarrow>
     stamp_inv F (scan_chain ops c s)"
proof (induction ops arbitrary: c s)
  case Nil
  then show ?case using flush_inv [of F s c f vs] by (simp add: chain_room_def)
next
  case (Cons op ops)
  obtain c1 s1 where s1: "scan_step op (c, s) = (c1, s1)" by (metis surj_pair)
  have step: "scan_chain (op # ops) c s = scan_chain ops c1 s1" using s1 by (simp add: scan_steps)
  have "stamp_inv F s1 \<and> chain_room vs c1 ops" by (rule scan_step_inv [OF Cons.prems s1])
  then show ?case unfolding step using Cons.IH [OF _ scan_step_ok [OF Cons.prems(2) s1]] Cons.prems(4) by blast
qed

lemma loop_inv:
  assumes "well_numbered F" "stamp_inv F st"
  shows "stamp_inv F (loop_step l st)"
proof (cases "List.find (\<lambda>q. sid q = l) (module_walk (fst st))")
  case None
  then show ?thesis using assms(2) by (simp add: loop_step_def)
next
  case (Some loop)
  have F: "fun_ids (fst st) = F" using assms(2) by (simp add: stamp_inv_def)
  obtain f vs where d: "distinct (it_ids (body_of loop))" "(f, vs) \<in> set F" "set (it_ids (body_of loop)) \<subseteq> set vs"
    using module_op_ids [of "fst st" loop] find_mem [OF Some] assms(1) F by auto
  have "body_of loop = [] \<or> (\<exists>q. body_of loop = without_terminator (body_of loop) @ [q])"
    by (metis append_butlast_last_id without_terminator_def)
  then have "distinct (it_ids (without_terminator (body_of loop)))"
    "set (it_ids (without_terminator (body_of loop))) \<subseteq> set (it_ids (body_of loop))"
    using d(1) by (auto simp: without_terminator_def) (metis Un_iff distinct_append it_ids_simps(3) set_append)+
  then have "chain_room vs [] (without_terminator (body_of loop))"
    using container_stages [of "without_terminator (body_of loop)"] d(3)
    unfolding chain_room_def list.map append_Nil by (meson subset_trans)
  moreover have "chain_ok [] (fst st)" by (simp add: chain_ok_def)
  ultimately show ?thesis using Some assms(2) d(2) scan_inv [of F st "[]" vs]
    by (simp add: loop_step_def stampAdjacentLoopCandidates_def)
qed

lemma fold_stamp_inv:
  assumes "\<And>x st. stamp_inv F st \<Longrightarrow> stamp_inv F (f x st)" "stamp_inv F st"
  shows "stamp_inv F (fold f xs st)"
  using assms(2) by (induction xs arbitrary: st) (simp_all add: assms(1))

section \<open>The phases before the stamps\<close>

definition clean :: "sde_module \<Rightarrow> bool" where
  "clean M \<longleftrightarrow> (\<forall>u. \<not> hasCandidateAttrs (plan_of M u) \<and> \<not> hasFinalCpsStageAttrs (plan_of M u))"

lemma clean_repeated [simp]:
  "hasCandidateAttrs (repeated_plan p) = hasCandidateAttrs p"
  "hasFinalCpsStageAttrs (repeated_plan p) = hasFinalCpsStageAttrs p"
  by (simp_all add: repeated_plan_def hasCandidateAttrs_def hasFinalCpsStageAttrs_def Let_def)

lemma clean_coarsened [simp]:
  "hasCandidateAttrs (coarsened_plan p) = hasCandidateAttrs p"
  "hasFinalCpsStageAttrs (coarsened_plan p) = hasFinalCpsStageAttrs p"
  by (simp_all add: coarsened_plan_def hasCandidateAttrs_def hasFinalCpsStageAttrs_def Let_def split: option.split)

lemma clean_stamps:
  "clean M \<Longrightarrow> clean (stampRepeatedTimestepPlan u M)" "clean M \<Longrightarrow> clean (coarsenRepeatedStencilSlice u M)"
  "clean M \<Longrightarrow> clean (set_jacobi u s M)"
  by (auto simp: clean_def stampRepeatedTimestepPlan_def coarsenRepeatedStencilSlice_def set_jacobi_def
      hasCandidateAttrs_def hasFinalCpsStageAttrs_def simp del: clean_repeated clean_coarsened)
    (simp_all add: repeated_plan_def coarsened_plan_def Let_def split: if_splits option.splits)

lemma clean_stamped: "stampTimestepPlanIfRecognized P p s pe se a b M = Some N \<Longrightarrow> clean M \<Longrightarrow> clean N"
  unfolding stampTimestepPlanIfRecognized_def Let_def stampJacobiTimestepPlan_def
  by (auto simp: clean_stamps split: if_splits)

lemma clean_pair: "clean M \<Longrightarrow> clean (stampAdjacentTimestepPair P p s M)"
  unfolding stampAdjacentTimestepPair_def using clean_stamped by (auto split: option.splits)

lemma clean_pairs: "clean M \<Longrightarrow> clean (stamp_pairs P ops prev M)"
proof (induction ops arbitrary: prev M)
  case (Cons op ops)
  have "clean (case prev of None \<Rightarrow> M | Some p \<Rightarrow> stampAdjacentTimestepPair P p op M)"
    using Cons.prems clean_pair by (cases prev) simp_all
  then show ?case using Cons by simp
qed simp

lemma clean_loops: "clean M \<Longrightarrow> clean (stamp_loops P M)"
proof -
  have "clean N \<Longrightarrow> clean (fold (\<lambda>q N. if isFor (skind q) then stampAdjacentTimestepPairsInLoop P q N else N) qs N)"
    for qs N
    by (induction qs arbitrary: N) (simp_all add: stampAdjacentTimestepPairsInLoop_def clean_pairs)
  then show "clean M \<Longrightarrow> ?thesis" by (simp add: stamp_loops_def)
qed

lemma clean_judged: "judge_barrier P loops A before after M = IsTimestep N \<Longrightarrow> clean M \<Longrightarrow> clean N"
  unfolding judge_barrier_def Let_def by (auto split: option.splits if_splits dest: clean_stamped)

lemma clean_barrier: "clean M \<Longrightarrow> clean (plan_barrier P loops A site M)"
proof -
  assume c: "clean M"
  obtain before op after where s: "site = (before, op, after)" by (metis prod_cases3)
  let ?M = "setBarrierReason (sid op) UnknownRequired M"
  have m: "clean ?M" using c by (simp add: clean_def setBarrierReason_def)
  show ?thesis
    by (cases "judge_barrier P loops A before after ?M")
      (use m c clean_judged [OF _ m] in
        \<open>auto simp: s plan_barrier_def apply_verdict_def Let_def clean_def setBarrierReason_def setBarrierEliminated_def\<close>)
qed

lemma planned_clean: "clean M \<Longrightarrow> clean (plan_barriers P A M) \<and> fun_ids (plan_barriers P A M) = fun_ids M"
proof -
  have "clean N \<Longrightarrow> clean (fold (plan_barrier P loops A) sites N) \<and>
      sde_functions (fold (plan_barrier P loops A) sites N) = sde_functions N" for loops sites N
    by (induction sites arbitrary: N) (simp_all add: clean_barrier plan_barrier_frame)
  then show "clean M \<Longrightarrow> ?thesis" by (simp add: plan_barriers_def fun_ids_def)
qed

lemma first_group_id: "clean M \<Longrightarrow> findNextCandidateGroupId M = 0"
proof -
  assume "clean M"
  then have "attr_next (map_option Some (cpsGroupId (plan_of M u))) (attr_next (candidateGroupId (plan_of M u)) n) = n"
    for u n
    by (simp add: clean_def hasCandidateAttrs_def hasFinalCpsStageAttrs_def attr_next_def)
  then have "fold (\<lambda>u n. attr_next (map_option Some (cpsGroupId (plan_of M (sid u))))
      (attr_next (candidateGroupId (plan_of M (sid u))) n)) us n = n" for us :: "sop list" and n
    by (induction us arbitrary: n) simp_all
  then show ?thesis by (simp add: findNextCandidateGroupId_def)
qed

lemma clean_inv: "clean M \<Longrightarrow> stamp_inv (fun_ids M) (M, 0)"
  by (auto simp: stamp_inv_def groups_stamped_def clean_def)

lemma pass_inv:
  assumes "clean M" "well_numbered (fun_ids M)"
  shows "\<exists>g. stamp_inv (fun_ids M) (BarrierEliminationPass P A M, g)"
proof -
  let ?N = "stamp_loops P (plan_barriers P A M)"
  have n: "clean ?N" "fun_ids ?N = fun_ids M"
    using planned_clean [OF assms(1), of P A] clean_loops frame_ids [OF stamp_loops_frame] by simp_all
  let ?st = "stampBarrierDelimitedCandidates (?N, findNextCandidateGroupId ?N)"
  have "stamp_inv (fun_ids M) (?N, findNextCandidateGroupId ?N)"
    using clean_inv [OF n(1)] first_group_id [OF n(1)] n(2) by simp
  then have "stamp_inv (fun_ids M) ?st"
    unfolding stampBarrierDelimitedCandidates_def by (intro fold_stamp_inv delimited_inv [OF assms(2)])
  then have "stamp_inv (fun_ids M) (fold loop_step (loop_ids (fst ?st)) ?st)"
    by (intro fold_stamp_inv loop_inv [OF assms(2)])
  then show ?thesis
    unfolding BarrierEliminationPass_def stamp_candidates_def Let_def by (metis prod.collapse)
qed

section \<open>Acceptance\<close>

lemma record_ok:
  assumes "groups_inv es gs" "\<forall>(j, m, v)\<in>set (entries_of (f, g) es). m = n \<and> j \<noteq> i" "0 < n"
  shows "\<exists>gs'. recordGroup f u g i n (gs, False) = (gs', False)"
proof (cases "map_of gs (f, g)")
  case None
  then show ?thesis by (simp add: recordGroup_def Let_def)
next
  case (Some G)
  have "case map_of gs (f, g) of None \<Rightarrow> entries_of (f, g) es = [] | Some G \<Rightarrow> group_ok (entries_of (f, g) es) G"
    using assms(1) unfolding groups_inv_def by (rule spec)
  then have G: "group_ok (entries_of (f, g) es) G" using Some by simp
  then obtain e where "e \<in> set (entries_of (f, g) es)" by (metis group_ok_def list.set_sel(1))
  then have "expectedCount G = n" using G assms(2) by (fastforce simp: group_ok_def)
  moreover have "map_of (byIndex G) i = None"
    using G assms(2) by (fastforce simp: group_ok_def map_of_eq_None_iff)
  ultimately show ?thesis using Some by (simp add: recordGroup_def Let_def)
qed

lemma record_distinct:
  "recordGroup f u g i n (gs, failed) = (gs', failed') \<Longrightarrow> distinct (map fst gs) \<Longrightarrow> distinct (map fst gs')"
  by (auto simp: recordGroup_def Let_def distinct_update)

lemma grouped_stage:
  assumes "groups_stamped us N g" "hasCandidateAttrs (plan_of N u)"
  obtains k i where "int k < g" "i < length (us k)" "us k ! i = u" "stamped k i (length (us k)) (plan_of N u)"
proof -
  obtain k where k: "int k < g" "u \<in> set (us k)" using assms by (auto simp: groups_stamped_def)
  then obtain i where "i < length (us k)" "us k ! i = u" by (auto simp: in_set_conv_nth)
  then show ?thesis using that k(1) assms(1) by (auto simp: groups_stamped_def)
qed

lemma stamped_verified:
  "stamped k i n p \<Longrightarrow> i < n \<Longrightarrow> \<not> hasFinalCpsStageAttrs p \<Longrightarrow> verifyCandidateAttrSet p = None"
  by (simp add: stamped_def verifyCandidateAttrSet_def hasFinalCpsStageAttrs_def)

lemma accept_step:
  assumes "groups_stamped us N g" "snd fu \<notin> set (map snd xs)"
    and "groups_inv (List.map_filter (cand_entry N) xs) cand" "distinct (map fst cand)"
  shows "\<exists>cand'. cps_step N fu ([], cand, False) = ([], cand', False) \<and>
    groups_inv (List.map_filter (cand_entry N) (xs @ [fu])) cand' \<and> distinct (map fst cand') \<and>
    verifyCandidateAttrSet (plan_of N (snd fu)) = None"
proof -
  obtain f u where fu: "fu = (f, u)" by (cases fu)
  let ?p = "plan_of N u"
  have fin: "\<not> hasFinalCpsStageAttrs ?p" using assms(1) by (simp add: groups_stamped_def)
  have e: "List.map_filter (cand_entry N) (xs @ [fu]) =
      List.map_filter (cand_entry N) xs @ List.map_filter (cand_entry N) [(f, u)]"
    by (simp add: fu List.map_filter_def)
  have step: "\<exists>cand'. cps_step N (f, u) ([], cand, False) = ([], cand', False) \<and> distinct (map fst cand') \<and>
      verifyCandidateAttrSet ?p = None"
  proof (cases "hasCandidateAttrs ?p")
    case False
    then have "verifyCandidateAttrSet ?p = None" by (simp add: verifyCandidateAttrSet_def)
    then show ?thesis using False fin assms(4) by (simp add: cps_step_def hasFinalCpsStageAttrs_def)
  next
    case True
    obtain k i where k: "int k < g" "i < length (us k)" "us k ! i = u" "stamped k i (length (us k)) ?p"
      using grouped_stage [OF assms(1) True] .
    have ver: "verifyCandidateAttrSet ?p = None" by (rule stamped_verified [OF k(4,2) fin])
    have others: "m = int (length (us k)) \<and> j \<noteq> int i"
      if "(j, m, v) \<in> set (entries_of (f, int k) (List.map_filter (cand_entry N) xs))" for j m v
    proof -
      have v: "(f, v) \<in> set xs" "candidateGroupId (plan_of N v) = Some (Some (int k))"
        "candidateStageIndex (plan_of N v) = Some (Some j)" "candidateStageCount (plan_of N v) = Some (Some m)"
        using that by (simp_all add: entry_members)
      then obtain k' i' where "i' < length (us k')" "us k' ! i' = v" "stamped k' i' (length (us k')) (plan_of N v)"
        using grouped_stage [OF assms(1), of v] by (metis hasCandidateAttrs_def option.discI)
      then have "us k ! i' = v" "m = int (length (us k))" "j = int i'" using v by (auto simp: stamped_def)
      moreover have "v \<noteq> u" using v(1) assms(2) fu by force
      ultimately show ?thesis using k(3) by auto
    qed
    have "\<exists>gs'. recordGroup f u (int k) (int i) (int (length (us k))) (cand, False) = (gs', False)"
      by (rule record_ok [OF assms(3)]) (use others k(2) in auto)
    then obtain gs' where gs': "recordGroup f u (int k) (int i) (int (length (us k))) (cand, False) = (gs', False)"
      by blast
    then have "cps_step N (f, u) ([], cand, False) = ([], gs', False)"
      using ver True fin k(4)
      by (simp add: cps_step_def record_candidate_def stamped_def hasFinalCpsStageAttrs_def)
    then show ?thesis using record_distinct [OF gs' assms(4)] ver by blast
  qed
  then obtain cand' where c: "cps_step N (f, u) ([], cand, False) = ([], cand', False)" "distinct (map fst cand')"
    "verifyCandidateAttrSet ?p = None" by blast
  have "groups_inv (List.map_filter (cand_entry N) (xs @ [fu])) cand'"
    unfolding e by (rule cps_step_inv(1) [OF c(1) assms(3)])
  then show ?thesis using c fu by auto
qed

lemma accept_fold:
  assumes "groups_stamped us N g"
  shows "distinct (map snd (xs @ ys)) \<Longrightarrow> groups_inv (List.map_filter (cand_entry N) xs) cand \<Longrightarrow>
     distinct (map fst cand) \<Longrightarrow>
     \<exists>cand'. fold (cps_step N) ys ([], cand, False) = ([], cand', False) \<and>
       groups_inv (List.map_filter (cand_entry N) (xs @ ys)) cand' \<and> distinct (map fst cand') \<and>
       (\<forall>(h, v)\<in>set ys. verifyCandidateAttrSet (plan_of N v) = None)"
proof (induction ys arbitrary: xs cand)
  case (Cons y ys)
  have "snd y \<notin> set (map snd xs)" using Cons.prems(1) by auto
  then obtain cand1 where c: "cps_step N y ([], cand, False) = ([], cand1, False)"
    "groups_inv (List.map_filter (cand_entry N) (xs @ [y])) cand1" "distinct (map fst cand1)"
    "verifyCandidateAttrSet (plan_of N (snd y)) = None"
    using accept_step [OF assms _ Cons.prems(2,3)] by blast
  have "distinct (map snd ((xs @ [y]) @ ys))" using Cons.prems(1) by simp
  from Cons.IH [OF this c(2,3)] obtain cand2 where "fold (cps_step N) ys ([], cand1, False) = ([], cand2, False)"
    "groups_inv (List.map_filter (cand_entry N) (xs @ y # ys)) cand2" "distinct (map fst cand2)"
    "\<forall>(h, v)\<in>set ys. verifyCandidateAttrSet (plan_of N v) = None" by auto
  then show ?case using c(1,4) by (intro exI [of _ cand2]) auto
qed simp

lemma group_members:
  assumes "groups_stamped us N g" "distinct (map snd (module_iterates N))"
    and "(f, v) \<in> set (module_iterates N)" "int k < g" "v \<in> set (us k)"
  shows "length (filter (in_group N f (int k)) (module_iterates N)) = length (us k)"
    "\<forall>w\<in>set (us k). (f, w) \<in> set (module_iterates N)"
proof -
  let ?I = "module_iterates N"
  obtain f0 vs where f0: "(f0, vs) \<in> set (fun_ids N)" "set (us k) \<subseteq> set vs"
    using assms(1,4) by (auto simp: groups_stamped_def)
  have I: "(f0, w) \<in> set ?I" if "w \<in> set (us k)" for w
    using f0 that by (force simp: module_iterates_ids)
  have "f0 = f" using I [OF assms(5)] assms(2,3) by (metis eq_key_imp_eq_value distinct_map inj_onD prod.inject snd_conv)
  then show mem: "\<forall>w\<in>set (us k). (f, w) \<in> set ?I" using I by blast
  have st: "stamped k i (length (us k)) (plan_of N (us k ! i))" if "i < length (us k)" for i
    using assms(1,4) that by (auto simp: groups_stamped_def)
  have "set (map snd (filter (in_group N f (int k)) ?I)) = set (us k)"
  proof
    show "set (us k) \<subseteq> set (map snd (filter (in_group N f (int k)) ?I))"
    proof
      fix w assume w: "w \<in> set (us k)"
      then have "candidateGroupId (plan_of N w) = Some (Some (int k))"
        using st by (auto simp: in_set_conv_nth stamped_def)
      then have "(f, w) \<in> set (filter (in_group N f (int k)) ?I)" using mem w by (simp add: in_group_def)
      then show "w \<in> set (map snd (filter (in_group N f (int k)) ?I))" by force
    qed
    show "set (map snd (filter (in_group N f (int k)) ?I)) \<subseteq> set (us k)"
    proof
      fix w assume "w \<in> set (map snd (filter (in_group N f (int k)) ?I))"
      then have w: "candidateGroupId (plan_of N w) = Some (Some (int k))" by (auto simp: in_group_def)
      then have "hasCandidateAttrs (plan_of N w)" by (simp add: hasCandidateAttrs_def)
      then obtain k' i' where "i' < length (us k')" "us k' ! i' = w" "stamped k' i' (length (us k')) (plan_of N w)"
        using grouped_stage [OF assms(1)] by metis
      then show "w \<in> set (us k)" using w by (auto simp: stamped_def)
    qed
  qed
  moreover have "distinct (map snd (filter (in_group N f (int k)) ?I))" using assms(2) by (simp add: distinct_map_filter)
  moreover have "distinct (us k)" using assms(1,4) by (simp add: groups_stamped_def)
  ultimately show "length (filter (in_group N f (int k)) ?I) = length (us k)"
    by (metis distinct_card length_map)
qed

lemma group_complete:
  assumes "groups_stamped us N g" "distinct (map snd (module_iterates N))"
    and "\<forall>(h, v)\<in>set (module_iterates N). verifyCandidateAttrSet (plan_of N v) = None"
    and "group_ok (entries_of (f, c) (List.map_filter (cand_entry N) (module_iterates N))) G"
  shows "\<not> group_incomplete G"
proof -
  let ?E = "entries_of (f, c) (List.map_filter (cand_entry N) (module_iterates N))"
  have "?E \<noteq> []" using assms(4) by (simp add: group_ok_def)
  then have "hd ?E \<in> set ?E" by simp
  moreover obtain j m v where "hd ?E = (j, m, v)" by (metis prod_cases3)
  ultimately have e: "(j, m, v) \<in> set ?E" by simp
  then have v: "(f, v) \<in> set (module_iterates N)" "candidateGroupId (plan_of N v) = Some (Some c)"
    "candidateStageCount (plan_of N v) = Some (Some m)" by (simp_all add: entry_members)
  then have "hasCandidateAttrs (plan_of N v)" by (simp add: hasCandidateAttrs_def)
  then obtain k i where k: "int k < g" "i < length (us k)" "us k ! i = v"
    "stamped k i (length (us k)) (plan_of N v)" using grouped_stage [OF assms(1)] by metis
  then have c: "c = int k" "m = int (length (us k))" using v by (simp_all add: stamped_def)
  have vk: "v \<in> set (us k)" using k(2,3) nth_mem by blast
  note members = group_members [OF assms(1,2) v(1) k(1) vk]
  have count: "expectedCount G = int (length (us k))" using assms(4) e c by (fastforce simp: group_ok_def)
  have "length (cps_stages G) = length ?E" using assms(4) by (simp add: group_ok_def)
  then have len: "length (cps_stages G) = length (us k)"
    using entry_count [OF assms(3), of f c] members(1) c by simp
  have "map_of (byIndex G) (int i) \<noteq> None" if i: "i < length (us k)" for i
  proof -
    have "stamped k i (length (us k)) (plan_of N (us k ! i))" using assms(1) k(1) i by (simp add: groups_stamped_def)
    moreover have "(f, us k ! i) \<in> set (module_iterates N)" using members(2) i by simp
    ultimately have "(int i, int (length (us k)), us k ! i) \<in> set ?E" using c by (simp add: entry_members stamped_def)
    then have "(int i, us k ! i) \<in> set (byIndex G)" using assms(4) by (auto simp: group_ok_def)
    then have "int i \<in> fst ` set (byIndex G)" by (rule image_eqI [rotated]) simp
    then show ?thesis by (simp add: map_of_eq_None_iff)
  qed
  then show ?thesis using count len by (auto simp: group_incomplete_def list_ex_iff)
qed

lemma ids_numbered:
  assumes "distinct (map fst (sde_functions M))" "distinct (map snd (module_iterates M))"
  shows "well_numbered (fun_ids M)"
proof -
  have "map snd (concat (map (\<lambda>(f, us). map (Pair f) us) F)) = concat (map snd F)"
    for F :: "(nat \<times> nat list) list"
    by (induction F) (auto simp: comp_def)
  moreover have "map fst (fun_ids M) = map fst (sde_functions M)" by (simp add: fun_ids_def split_def comp_def)
  ultimately show ?thesis using assms by (simp add: well_numbered_def module_iterates_ids)
qed

text \<open>
  C6: The planning of barriers and the verifier of stage plans fit together. In a module whose units
  carry no stage attributes, with each function and each unit listed once, the pass leaves every unit in its function and numbers the groups so
  that the verifier finds no fault with the attributes of any stage, no inconsistent count, no index
  twice and no incomplete group; all it can still refuse is a missing barrier or token of a pair.
\<close>

theorem planned_groups_accepted:
  assumes "\<forall>u. \<not> hasCandidateAttrs (plan_of M u) \<and> \<not> hasFinalCpsStageAttrs (plan_of M u)"
    and "distinct (map fst (sde_functions M))" "distinct (map snd (module_iterates M))"
  shows "module_iterates (BarrierEliminationPass P A M) = module_iterates M \<and>
    (\<exists>cand. fold (cps_step (BarrierEliminationPass P A M)) (module_iterates M) ([], [], False) = ([], cand, False) \<and>
       \<not> verifyGroupCompleteness cand \<and>
       (VerifySdeCpsPlanPass (BarrierEliminationPass P A M) \<longleftrightarrow>
          \<not> verifyCandidateBarrierControlEdges (BarrierEliminationPass P A M) cand))"
proof -
  let ?N = "BarrierEliminationPass P A M"
  obtain g us where N: "fun_ids ?N = fun_ids M" "groups_stamped us ?N g"
    using pass_inv [OF _ ids_numbered [OF assms(2,3)], of P A] assms(1) by (auto simp: clean_def stamp_inv_def)
  have I: "module_iterates ?N = module_iterates M" using N(1) by (simp add: module_iterates_ids)
  have d: "distinct (map snd ([] @ module_iterates ?N))" using I assms(3) by simp
  have "groups_inv (List.map_filter (cand_entry ?N) []) []"
    by (simp add: groups_inv_def entries_of_def List.map_filter_def)
  from accept_fold [OF N(2) d this] obtain cand where c:
    "fold (cps_step ?N) (module_iterates ?N) ([], [], False) = ([], cand, False)"
    "groups_inv (List.map_filter (cand_entry ?N) (module_iterates ?N)) cand" "distinct (map fst cand)"
    "\<forall>(h, v)\<in>set (module_iterates ?N). verifyCandidateAttrSet (plan_of ?N v) = None"
    by auto
  have "\<not> group_incomplete G" if "((f, k), G) \<in> set cand" for f k G
  proof -
    have "map_of cand (f, k) = Some G" using that c(3) by simp
    moreover have "case map_of cand (f, k) of
        None \<Rightarrow> entries_of (f, k) (List.map_filter (cand_entry ?N) (module_iterates ?N)) = []
      | Some G \<Rightarrow> group_ok (entries_of (f, k) (List.map_filter (cand_entry ?N) (module_iterates ?N))) G"
      using c(2) unfolding groups_inv_def by (rule spec)
    ultimately show ?thesis using group_complete [OF N(2) _ c(4)] d by simp
  qed
  then have complete: "\<not> verifyGroupCompleteness cand" by (auto simp: verifyGroupCompleteness_def list_ex_iff)
  then show ?thesis using I c(1) by (simp add: VerifySdeCpsPlanPass_def verifyGroupCompleteness_def)
qed

lemma planned_groups_accepted_witness:
  "VerifySdeCpsPlanPass (BarrierEliminationPass no_services sample_analysis
     (staged_module\<lparr>plan_of := (\<lambda>u. stage_plan)\<rparr>)) \<and>
   candidateStageIndex (plan_of (BarrierEliminationPass no_services sample_analysis staged_module) 30) = Some (Some 1)"
proof -
  let ?M = "staged_module\<lparr>plan_of := (\<lambda>u. stage_plan)\<rparr>"
  have "\<forall>u. \<not> hasCandidateAttrs (plan_of ?M u) \<and> \<not> hasFinalCpsStageAttrs (plan_of ?M u)"
    by (simp add: stage_plan_def empty_plan_def hasCandidateAttrs_def hasFinalCpsStageAttrs_def)
  moreover have "distinct (map fst (sde_functions ?M))" "distinct (map snd (module_iterates ?M))" by code_simp+
  ultimately obtain cand where c:
    "fold (cps_step (BarrierEliminationPass no_services sample_analysis ?M)) (module_iterates ?M) ([], [], False) =
       ([], cand, False)"
    "VerifySdeCpsPlanPass (BarrierEliminationPass no_services sample_analysis ?M) \<longleftrightarrow>
       \<not> verifyCandidateBarrierControlEdges (BarrierEliminationPass no_services sample_analysis ?M) cand"
    using planned_groups_accepted [of ?M no_services sample_analysis] by blast
  moreover have "\<not> verifyCandidateBarrierControlEdges (BarrierEliminationPass no_services sample_analysis ?M)
      (fst (snd (fold (cps_step (BarrierEliminationPass no_services sample_analysis ?M)) (module_iterates ?M)
         ([], [], False))))" by code_simp
  moreover have "candidateStageIndex (plan_of (BarrierEliminationPass no_services sample_analysis staged_module) 30) =
      Some (Some 1)" by code_simp
  ultimately show ?thesis by simp
qed


text \<open>A group of three is accepted without any barrier between its stages.\<close>

definition unguarded_module :: sde_module where
  "unguarded_module = three_units\<lparr>
     sde_functions := [(0, [copy_unit 10 1 0, copy_unit 30 0 1, copy_unit 50 1 0, Op 60 (YieldK []) [] []])],
     plan_of := (\<lambda>u. candidate_plan 0 (if u = 10 then 0 else if u = 30 then 1 else 2) 3 stage_plan)\<rparr>"

lemma triples_unguarded: "VerifySdeCpsPlanPass unguarded_module"
  by code_simp

end
