(* ===== verification/Spec2Isabelle.thy ===== *)
theory Spec2Isabelle
  imports RuntimeConfig ValueTracing CostModel Scheduling DbSlices EdtGraph ModeTightening GroupsVerified
begin

text \<open>
  CARTS compiles parallel C to the ARTS runtime. The source goes through a chain of MLIR
  dialects: SDE (scheduling units, where parallel loops are planned), CODIR (codelets with
  their dependences), ARTS (tasks, datablocks and acquires) and ARTS-RT (runtime calls).
  This development models the decisions of the compiler: the analyses and the planning steps
  that read the program and answer a number, a value, a mode or an order. It does not model
  the rewriting of regions, which is done by pattern rewriters over the IR (below).

  \<^bold>\<open>The IR.\<close> \<open>IR\<close> has the use-def tree of a value (\<open>val\<close>): constants, \<open>arith\<close>
  operations, casts, loads, views, datablock operations and block arguments, each with the
  identity of its operation. \<open>eval\<close> is the meaning of the integer operations in a run (\<open>env\<close>),
  64 bits wide for \<open>index\<close>, and undefined where the operation has undefined behaviour. The services
  of MLIR that are not in the repository (value bounds, data layout, module attributes) are
  the record \<open>mlir\<close>; \<open>services_sound\<close> says what is documented about them. \<open>SdeModel\<close> has the
  attributes of \<open>sde.su_iterate\<close>. Builders are a counter of fresh identities.

  \<^bold>\<open>Value analysis\<close> (\<open>src/lib/carts/utils/ValueAnalysis.cpp\<close>,
  \<open>arts/Utils/ValueAnalysisUtils.cpp\<close>), used by every other part.
  \<^item> \<open>ValueAnalysis\<close>: casts, constants and folding. Folding is a function of a hook; the locale
    \<open>fold_hook\<close> states what a hook owes and is interpreted on the empty hook and on the hook of
    the ARTS dialect that knows the runtime queries. A folded constant is the value of the
    expression in every run in which no operation drops bits.
  \<^item> \<open>ValueQueries\<close>: equivalence, positivity, non-zero, clamps, dependence, constant offsets.
  \<^item> \<open>ValueTracing\<close>: roots of memrefs (locale \<open>root_tracer\<close>, interpreted on the generic and the
    ARTS tracer), rebuilding a value at a dominating point, cloning values into a region.

  \<^bold>\<open>Planning.\<close>
  \<^item> \<open>RuntimeConfig\<close> (\<open>arts/Utils/RuntimeConfig.cpp\<close>): parsing and validating of
    \<open>arts.cfg\<close>, worker counts, execution mode.
  \<^item> \<open>CostModel\<close> (\<open>SDECostModel.h\<close>, \<open>ARTSCostModel.h\<close>): the interface is the locale
    \<open>cost_contract\<close> and its extension \<open>static_first\<close>; both are interpreted on \<open>ARTSCostModel\<close>.
  \<^item> \<open>IterationSizing\<close>, \<open>LoopBounds\<close> (\<open>IterationSizingUtils.cpp\<close>, \<open>LoopUtils.cpp\<close>): workers over
    dimensions, trip counts as constants and as built values, hoisting of divisions.
  \<^item> \<open>Scheduling\<close> (\<open>ScheduleRefinement.cpp\<close>, \<open>ChunkOpt.cpp\<close>, \<open>ReductionStrategy.cpp\<close>).

  \<^bold>\<open>Parallel loops and barriers of SDE.\<close>
  \<^item> \<open>AffineAccess\<close> (\<open>StructuredOpAnalysis.cpp\<close>, \<open>AffineAccessUtils.cpp\<close>): affine index maps and
    their values, iterator types, classification of loops, neighbourhoods, output layouts,
    row-major decomposition. Affine expressions are a datatype; the builders of MLIR that simplify
    them are the parameter \<open>affine_ops\<close>, which is assumed to keep values (\<open>affine_builder\<close>).
  \<^item> \<open>SdeRegion\<close> (\<open>SdeAnalysisUtils.h\<close>): operations as a tree (\<open>sop\<close>: identity, kind, results,
    regions of one block), the effect summaries, and two units running side by side: without a
    conflict of their summaries every interleaving has the same outcome.
  \<^item> \<open>StructuredLoop\<close> (\<open>StructuredOpAnalysis.cpp\<close>, \<open>SdeAnalysisUtils.h\<close>): the perfect nest of a
    unit, the accesses of its body, its summary, owner slices and output plans.
  \<^item> \<open>Barriers\<close>, \<open>BarrierSafety\<close>, \<open>StageGroups\<close> (\<open>BarrierElimination.cpp\<close>): the pass that
    eliminates barriers, recognises timesteps and groups stages, on a module with an attribute
    map for units and one for barriers; an eliminated barrier is safe, stages that can be grouped
    are grouped.
  \<^item> \<open>CpsPlan\<close>, \<open>GroupsVerified\<close> (\<open>VerifySdeCpsPlan.cpp\<close>): the verifier of the groups; what it
    accepts is consistent, and the pass only makes groups it accepts, up to the barrier of a pair.

  \<^bold>\<open>Datablocks.\<close>
  \<^item> \<open>DbModel\<close>, \<open>DbSlices\<close> (\<open>DbUtils.cpp\<close>): access modes as a semilattice, sizes, launch
    predicates, block slices of element slices, summaries of memory roots.
  \<^item> \<open>BlockAccess\<close> (\<open>BlockedAccessUtils.h\<close>, \<open>LoopNode.cpp\<close>): signs, bounds and block bases of
    index expressions, affine form of an index in an induction variable.
  \<^item> \<open>Contracts\<close> (\<open>LoweringContractUtils.cpp\<close>, \<open>LoweringContractOp\<close> of \<open>Dialect.cpp\<close>,
    \<open>OwnershipProof.cpp\<close>, \<open>ContractValidation.cpp\<close>): the contracts passes leave on
    datablocks for each other.
  \<^item> \<open>ModeTightening\<close> (\<open>DbModeTightening.cpp\<close>, over the two above): access modes from accesses.

  \<^bold>\<open>Tasks.\<close>
  \<^item> \<open>EdtDataflow\<close> (\<open>EdtDataFlowAnalysis.cpp\<close>, \<open>DbAliasAnalysis.cpp\<close>): dependences between tasks.
    The specification is the inductive relation \<open>run_ops\<close>: the sequences of task starts and waits
    a region can run. Conflicting tasks of a run are connected by dependences.
  \<^item> \<open>EdtGraph\<close> (\<open>EdtGraph.cpp\<close>): the graph of these dependences, its deterministic order,
    reachability and independence.

  \<^bold>\<open>Bounds and fuel.\<close> Recursions of the code that stop at a depth have that depth as
  an argument that counts up: 32 for folding, 64 for tracing roots, 8 for dependence, signs, spans
  and extents, 4 for non-zero proofs. The dataflow analysis makes at most 5 passes over a loop;
  \<open>EdtDataflow\<close> proves that these reach a fixpoint. Loops that could run on are partial functions
  (\<open>topo_loop\<close>, \<open>reach_loop\<close>), proved to return. Recursion over operations follows their tree. Signed overflow of the C++ is given its two's
  complement value (\<open>wrap64\<close>). Floating point is read as real or rational numbers.

  \<^bold>\<open>What does not hold.\<close> Several theorems have a hypothesis the code does not check; a
  lemma beside each shows, at a concrete input, that the statement fails without it. They are
  the findings of the manifest, for example \<open>fold_ignores_truncation\<close>,
  \<open>disjoint_writer_hides_dependence\<close>, \<open>diagonal_store_counts_as_full\<close>.

  \<^bold>\<open>Inputs of the model.\<close> Which calls of the C library allocate or free scratch memory of a loop is
  an arbitrary predicate of \<open>StructuredLoop\<close>; the analysis of loops is an arbitrary argument of
  the barrier pass; regions have one block.

  \<^bold>\<open>Not modelled.\<close> The conversions between dialects, loop transformations, datablock and task
  rewrites and the LLVM lowering: they are constructions of IR with regions by MLIR's builders and
  pattern drivers. The walks that gather facts for the modelled passes (uses of a datablock,
  nesting of loops, dominance) are inputs of the model. Debug output, statistics, pass
  registration and the driver are left out.
\<close>

end
